(* ===== verification/WS_Prelude.thy ===== *)
theory WS_Prelude
  imports Main "HOL-Library.Word" "HOL-Library.AList"
begin

text \<open>
  Shared vocabulary of the walshadow development: the machine integers of the source,
  byte strings with little-endian fields, checked slices, fallible results, and hash maps as
  association lists with distinct keys. The lemmas collected here carry the component
  theories; the collections \<open>ws_simps\<close> (equations for the shared operations),
  \<open>ws_inv\<close> (an operation preserves an invariant) and \<open>ok_iff\<close> (when a fallible
  operation succeeds) are the hooks the component proofs use.
\<close>

named_theorems ws_simps \<open>equations of the shared operations\<close>
named_theorems ws_inv \<open>an operation preserves a component invariant\<close>
named_theorems ok_iff \<open>when a fallible operation succeeds\<close>

section \<open>Machine integers\<close>

type_synonym u8 = "8 word"
type_synonym u16 = "16 word"
type_synonym u32 = "32 word"
type_synonym u64 = "64 word"
type_synonym bytes = "u8 list"

text \<open>Rust's \<open>saturating_sub\<close>, \<open>saturating_add\<close> and \<open>div_ceil\<close>.\<close>

definition sat_sub :: "'a::len word \<Rightarrow> 'a word \<Rightarrow> 'a word" where
  "sat_sub a b = (if a \<le> b then 0 else a - b)"

definition sat_add :: "'a::len word \<Rightarrow> 'a word \<Rightarrow> 'a word" where
  "sat_add a b = (if unat a + unat b < 2 ^ LENGTH('a) then a + b else - 1)"

definition div_ceil :: "nat \<Rightarrow> nat \<Rightarrow> nat" where
  "div_ceil n d = (n + d - 1) div d"

lemma unat_sat_sub [ws_simps]: "unat (sat_sub a b) = unat a - unat b"
  by (auto simp: sat_sub_def unat_sub word_le_nat_alt)

lemma sat_sub_le: "sat_sub a b \<le> a"
  by (simp add: word_le_nat_alt unat_sat_sub)

lemma sat_add_ge: "a \<le> sat_add a b" for a :: "'a::len word"
proof (cases "unat a + unat b < 2 ^ LENGTH('a)")
  case True
  then show ?thesis
    by (simp add: sat_add_def word_le_nat_alt unat_word_ariths)
next
  case False
  then show ?thesis
    by (simp add: sat_add_def)
qed

lemma div_ceil_mult: "0 < d \<Longrightarrow> n \<le> div_ceil n d * d"
proof -
  assume d: "0 < d"
  have "(n + d - 1) mod d < d" using d by simp
  moreover have "(n + d - 1) div d * d + (n + d - 1) mod d = n + d - 1" by simp
  ultimately show ?thesis unfolding div_ceil_def using d by linarith
qed

lemma div_ceil_le: "0 < d \<Longrightarrow> n \<le> k * d \<Longrightarrow> div_ceil n d \<le> k"
  unfolding div_ceil_def by (simp add: less_Suc_eq_le [symmetric] div_less_iff_less_mult)

lemma div_ceil_0 [simp]: "div_ceil 0 d = 0"
  by (cases d) (simp_all add: div_ceil_def)

lemma unat_u8_lt [simp]: "unat (b :: u8) < 256"
  using unsigned_less [where 'a = nat and w = b] by simp

section \<open>Little-endian fields\<close>

fun le_nat :: "bytes \<Rightarrow> nat" where
  "le_nat [] = 0"
| "le_nat (b # bs) = unat b + 256 * le_nat bs"

fun le_bytes :: "nat \<Rightarrow> nat \<Rightarrow> bytes" where
  "le_bytes 0 v = []"
| "le_bytes (Suc n) v = word_of_nat v # le_bytes n (v div 256)"

lemma length_le_bytes [simp]: "length (le_bytes n v) = n"
  by (induction n arbitrary: v) auto

lemma unat_of_nat_u8: "unat (word_of_nat v :: u8) = v mod 256"
  by (simp add: unat_of_nat)

lemma le_nat_lt: "le_nat bs < 256 ^ length bs"
proof (induction bs)
  case (Cons b bs)
  have "unat b < 256" by (rule unat_u8_lt)
  then have "unat b + 256 * le_nat bs < 256 * Suc (le_nat bs)" by simp
  also have "\<dots> \<le> 256 * 256 ^ length bs"
    using Cons by (intro mult_le_mono2) simp
  finally show ?case by simp
qed simp

lemma le_nat_le_bytes: "le_nat (le_bytes n v) = v mod 256 ^ n"
proof (induction n arbitrary: v)
  case (Suc n)
  then show ?case by (simp add: unat_of_nat_u8 mod_mult2_eq)
qed simp

lemma le_bytes_le_nat: "length bs = n \<Longrightarrow> le_bytes n (le_nat bs) = bs"
proof (induction bs arbitrary: n)
  case (Cons b bs)
  have lt: "unat b < 256" by (rule unat_u8_lt)
  have "(word_of_nat (unat b + 256 * le_nat bs) :: u8) = b"
    by (rule word_unat_eq_iff [THEN iffD2])
      (use lt in \<open>simp add: unat_of_nat_u8 del: of_nat_add of_nat_mult\<close>)
  moreover have "(unat b + 256 * le_nat bs) div 256 = le_nat bs" using lt by simp
  ultimately show ?case using Cons by auto
qed simp

lemma word_le_roundtrip:
  "LENGTH('a::len) = 8 * n \<Longrightarrow> word_of_nat (le_nat (le_bytes n (unat w))) = (w :: 'a word)"
proof -
  assume len: "LENGTH('a) = 8 * n"
  have "unat w < 2 ^ LENGTH('a)" by (rule unsigned_less)
  then have "unat w < 256 ^ n" by (simp add: len power_mult)
  then show ?thesis by (simp add: le_nat_le_bytes)
qed

section \<open>Slices\<close>

text \<open>\<open>slice a b xs\<close> is \<open>xs[a..b]\<close> where the bounds are known; \<open>get_range\<close> is
  Rust's checked \<open>xs.get(a..b)\<close>, and \<open>get_at\<close> is \<open>xs.get(i)\<close>.\<close>

definition slice :: "nat \<Rightarrow> nat \<Rightarrow> 'a list \<Rightarrow> 'a list" where
  "slice a b xs = take (b - a) (drop a xs)"

definition get_range :: "'a list \<Rightarrow> nat \<Rightarrow> nat \<Rightarrow> 'a list option" where
  "get_range xs a b = (if a \<le> b \<and> b \<le> length xs then Some (slice a b xs) else None)"

definition get_at :: "'a list \<Rightarrow> nat \<Rightarrow> 'a option" where
  "get_at xs i = (if i < length xs then Some (xs ! i) else None)"

definition split_at_checked :: "nat \<Rightarrow> 'a list \<Rightarrow> ('a list \<times> 'a list) option" where
  "split_at_checked n xs = (if n \<le> length xs then Some (take n xs, drop n xs) else None)"

text \<open>Writing \<open>ys\<close> over \<open>xs[a..a + length ys]\<close> (\<open>copy_from_slice\<close>).\<close>

definition put_range :: "nat \<Rightarrow> 'a list \<Rightarrow> 'a list \<Rightarrow> 'a list" where
  "put_range a ys xs = take a xs @ ys @ drop (a + length ys) xs"

lemma length_slice [simp]: "length (slice a b xs) = min (b - a) (length xs - a)"
  by (simp add: slice_def)

lemma length_put_range [simp]: "a + length ys \<le> length xs \<Longrightarrow> length (put_range a ys xs) = length xs"
  by (simp add: put_range_def)

lemma slice_append_exact: "length ys = b - a \<Longrightarrow> length xs = a \<Longrightarrow> slice a b (xs @ ys @ zs) = ys"
  by (simp add: slice_def)

lemma slice_put_same: "a + length ys \<le> length xs \<Longrightarrow> slice a (a + length ys) (put_range a ys xs) = ys"
  by (simp add: put_range_def slice_def)

lemma nth_slice: "a + i < b \<Longrightarrow> a + i < length xs \<Longrightarrow> slice a b xs ! i = xs ! (a + i)"
  by (simp add: slice_def)

lemma nth_put_range:
  "a + length ys \<le> length xs \<Longrightarrow> i < length xs \<Longrightarrow>
   put_range a ys xs ! i = (if a \<le> i \<and> i < a + length ys then ys ! (i - a) else xs ! i)"
  by (auto simp: put_range_def nth_append)

lemma slice_put_other:
  assumes "a + length ys \<le> length xs" "d \<le> a \<or> a + length ys \<le> c"
  shows "slice c d (put_range a ys xs) = slice c d xs"
proof (rule nth_equalityI)
  fix i assume "i < length (slice c d (put_range a ys xs))"
  then have "c + i < d" "c + i < length xs" using assms(1) by auto
  then show "slice c d (put_range a ys xs) ! i = slice c d xs ! i"
    using assms by (auto simp: nth_slice nth_put_range)
qed (use assms in simp)

lemma slice_append_left: "b \<le> length xs \<Longrightarrow> slice a b (xs @ ys) = slice a b xs"
  by (simp add: slice_def)

section \<open>Fallible results\<close>

type_synonym ('e, 'a) result = "'e + 'a"

definition ok_or :: "'e \<Rightarrow> 'a option \<Rightarrow> ('e, 'a) result" where
  "ok_or e x = (case x of None \<Rightarrow> Inl e | Some v \<Rightarrow> Inr v)"

definition rbind :: "('e, 'a) result \<Rightarrow> ('a \<Rightarrow> ('e, 'b) result) \<Rightarrow> ('e, 'b) result" where
  "rbind r f = (case r of Inl e \<Rightarrow> Inl e | Inr v \<Rightarrow> f v)"

lemma rbind_simps [simp]: "rbind (Inl e) f = Inl e" "rbind (Inr v) f = f v"
  by (simp_all add: rbind_def)

lemma ok_or_simps [simp]: "ok_or e None = Inl e" "ok_or e (Some v) = Inr v"
  by (simp_all add: ok_or_def)

lemma rbind_Inr_iff [ok_iff]: "rbind r f = Inr y \<longleftrightarrow> (\<exists>x. r = Inr x \<and> f x = Inr y)"
  by (cases r) auto

lemma ok_or_Inr_iff [ok_iff]: "ok_or e x = Inr y \<longleftrightarrow> x = Some y"
  by (cases x) auto

lemma bind_Some_iff [ok_iff]: "Option.bind x f = Some y \<longleftrightarrow> (\<exists>v. x = Some v \<and> f v = Some y)"
  by (cases x) auto

section \<open>Repeated fields of a byte stream\<close>

text \<open>\<open>take_n\<close> reads a counted run of fields, as the source's
  \<open>for _ in 0..count\<close> loops over a \<open>take_\<dots>\<close> reader do. A reader that
  inverts an encoder, field by field, inverts the encoding of a whole run.\<close>

fun take_n :: "(bytes \<Rightarrow> ('a \<times> bytes) option) \<Rightarrow> nat \<Rightarrow> bytes \<Rightarrow> ('a list \<times> bytes) option" where
  "take_n rd 0 bs = Some ([], bs)"
| "take_n rd (Suc n) bs =
     (case rd bs of
        None \<Rightarrow> None
      | Some (x, rest) \<Rightarrow> map_option (\<lambda>(xs, r). (x # xs, r)) (take_n rd n rest))"

locale field_codec =
  fixes enc :: "'a \<Rightarrow> bytes"
    and rd :: "bytes \<Rightarrow> ('a \<times> bytes) option"
    and width :: nat
  assumes rd_enc: "rd (enc x @ rest) = Some (x, rest)"
    and length_enc: "length (enc x) = width"
    and rd_short: "length bs < width \<Longrightarrow> rd bs = None"
    and rd_rest: "rd bs = Some (x, rest) \<Longrightarrow> length bs = width + length rest"
begin

lemma take_n_enc: "take_n rd (length xs) (concat (map enc xs) @ rest) = Some (xs, rest)"
  by (induction xs) (simp_all add: rd_enc)

lemma length_concat_enc: "length (concat (map enc xs)) = width * length xs"
  by (induction xs) (simp_all add: length_enc)

lemma take_n_length: "take_n rd n bs = Some (xs, rest) \<Longrightarrow> length xs = n \<and> length bs = n * width + length rest"
proof (induction n arbitrary: bs xs)
  case (Suc n)
  then show ?case by (auto split: option.splits dest!: rd_rest)
qed simp

lemma take_n_short: "length bs < n * width \<Longrightarrow> take_n rd n bs = None"
  using take_n_length [of n bs] by (cases "take_n rd n bs") fastforce+

end

section \<open>Hash maps\<close>

text \<open>
  A \<open>HashMap\<close> whose entries the source iterates over is an association list with distinct
  keys; the list order is one of the orders an iteration may take. A map that is only
  looked up, inserted into and removed from is a plain partial function.
\<close>

type_synonym ('k, 'v) hmap = "('k \<times> 'v) list"

abbreviation hm_get :: "('k, 'v) hmap \<Rightarrow> 'k \<Rightarrow> 'v option" where
  "hm_get m k \<equiv> map_of m k"

abbreviation hm_insert :: "'k \<Rightarrow> 'v \<Rightarrow> ('k, 'v) hmap \<Rightarrow> ('k, 'v) hmap" where
  "hm_insert \<equiv> AList.update"

abbreviation hm_remove :: "'k \<Rightarrow> ('k, 'v) hmap \<Rightarrow> ('k, 'v) hmap" where
  "hm_remove \<equiv> AList.delete"

abbreviation hm_wf :: "('k, 'v) hmap \<Rightarrow> bool" where
  "hm_wf m \<equiv> distinct (map fst m)"

lemma hm_get_insert [ws_simps]: "hm_get (hm_insert k v m) k' = (if k' = k then Some v else hm_get m k')"
  by (simp add: update_conv)

lemma hm_get_remove [ws_simps]: "hm_get (hm_remove k m) k' = (if k' = k then None else hm_get m k')"
  by (simp add: delete_conv)

lemma hm_wf_insert [ws_inv]: "hm_wf m \<Longrightarrow> hm_wf (hm_insert k v m)"
  by (rule distinct_update)

lemma hm_wf_remove [ws_inv]: "hm_wf m \<Longrightarrow> hm_wf (hm_remove k m)"
  by (rule distinct_delete)

lemma hm_mem_iff [ws_simps]: "hm_wf m \<Longrightarrow> (k, v) \<in> set m \<longleftrightarrow> hm_get m k = Some v"
  by (simp add: map_of_eq_Some_iff)

lemma hm_get_filter: "hm_wf m \<Longrightarrow> hm_get (filter (\<lambda>(k, v). P k v) m) k =
   (case hm_get m k of None \<Rightarrow> None | Some v \<Rightarrow> if P k v then Some v else None)"
  by (induction m) (auto split: option.splits simp: map_of_eq_None_iff image_iff)

lemma hm_wf_filter [ws_inv]: "hm_wf m \<Longrightarrow> hm_wf (filter P m)"
  by (rule distinct_map_filter)

lemma hm_remove_Cons: "hm_remove k (kv # m) = (if fst kv = k then hm_remove k m else kv # hm_remove k m)"
  by (cases kv) simp

lemma hm_length_remove_le: "length (hm_remove k m) \<le> length m"
  by (induction m) (auto simp: hm_remove_Cons)

lemma length_delete_less: "hm_get m k = Some v \<Longrightarrow> length (hm_remove k m) < length m"
  by (induction m) (auto simp: hm_remove_Cons less_Suc_eq_le hm_length_remove_le split: if_splits)

section \<open>Histories\<close>

text \<open>\<open>along P h\<close>: every element of the history \<open>h\<close> satisfies \<open>P\<close> with respect to
  the part of the history before it.\<close>

definition along :: "('a list \<Rightarrow> 'a \<Rightarrow> bool) \<Rightarrow> 'a list \<Rightarrow> bool" where
  "along P h \<longleftrightarrow> list_all (\<lambda>i. P (take i h) (h ! i)) [0..<length h]"

lemma along_Nil [simp]: "along P []"
  by (simp add: along_def)

lemma along_snoc [simp]: "along P (h @ [a]) \<longleftrightarrow> along P h \<and> P h a"
  by (auto simp: along_def list_all_iff nth_append)

lemma along_prefix: "along P (h @ k) \<Longrightarrow> along P h"
  by (induction k rule: rev_induct) (simp_all flip: append_assoc)

lemma along_nth: "along P h \<Longrightarrow> i < length h \<Longrightarrow> P (take i h) (h ! i)"
  by (simp add: along_def list_all_iff)

lemma along_split: "along P (h @ a # k) \<Longrightarrow> P h a"
  using along_nth [of P "h @ a # k" "length h"] by simp

end
