(* ===== verification/Positions.thy ===== *)
theory Positions
  imports WS_Prelude
begin

text \<open>
  Stream positions (\<open>src/src/pos.rs\<close>). A position is a 64-bit WAL offset tagged with the role
  it plays; the tag is a phantom type argument, so positions of two roles cannot be compared
  or joined without \<open>retag\<close>. A \<open>Monotone\<close> cell publishes a position that only moves
  forward; a \<open>Gate\<close> waits on one. The laws a client of such a cell relies on are the locale
  \<open>forward_cell\<close>, which the cell of the source interprets.
\<close>

section \<open>Typed positions\<close>

typedecl source_received_k
typedecl filter_durable_k
typedecl shadow_replay_k
typedecl shadow_flush_k
typedecl drain_k
typedecl emitter_ack_k
typedecl resume_safe_k
typedecl xact_first_k
typedecl commit_k
typedecl floor_k
typedecl raw_start_k
typedecl switchpoint_k

datatype 'k pos = Pos (pos_get: u64)

definition pos_zero :: "'k pos" where
  "pos_zero = Pos 0"

definition pos_is_zero :: "'k pos \<Rightarrow> bool" where
  "pos_is_zero p \<longleftrightarrow> pos_get p = 0"

definition retag :: "'k pos \<Rightarrow> 'j pos" where
  "retag p = Pos (pos_get p)"

instantiation pos :: (type) linorder
begin

definition less_eq_pos :: "'a pos \<Rightarrow> 'a pos \<Rightarrow> bool" where
  "less_eq_pos p q \<longleftrightarrow> pos_get p \<le> pos_get q"

definition less_pos :: "'a pos \<Rightarrow> 'a pos \<Rightarrow> bool" where
  "less_pos p q \<longleftrightarrow> pos_get p < pos_get q"

instance
  by standard (auto simp: less_eq_pos_def less_pos_def intro: pos.expand)

end

lemma Pos_le [simp]: "Pos a \<le> Pos b \<longleftrightarrow> a \<le> b"
  by (simp add: less_eq_pos_def)

lemma Pos_less [simp]: "Pos a < Pos b \<longleftrightarrow> a < b"
  by (simp add: less_pos_def)

lemma pos_get_mono: "p \<le> q \<longleftrightarrow> pos_get p \<le> pos_get q"
  by (rule less_eq_pos_def)

lemma pos_get_strict: "p < q \<longleftrightarrow> pos_get p < pos_get q"
  by (rule less_pos_def)

lemma pos_get_max [simp]: "pos_get (max p q) = max (pos_get p) (pos_get q)"
  by (simp add: max_def less_eq_pos_def)

lemma pos_get_min [simp]: "pos_get (min p q) = min (pos_get p) (pos_get q)"
  by (simp add: min_def less_eq_pos_def)

lemma pos_get_zero [simp]: "pos_get pos_zero = 0"
  by (simp add: pos_zero_def)

lemma pos_zero_le [simp]: "pos_zero \<le> p"
  by (simp add: less_eq_pos_def)

lemma pos_get_retag [simp]: "pos_get (retag p) = pos_get p"
  by (simp add: retag_def)

lemma retag_retag [simp]: "retag (retag p :: 'j pos) = (retag p :: 'l pos)"
  by (simp add: retag_def)

text \<open>Text form of a position: \<open>format_pg_lsn\<close> and \<open>parse_pg_lsn\<close> belong to another
  crate and are arguments.\<close>

definition pos_serialize :: "(u64 \<Rightarrow> string) \<Rightarrow> 'k pos \<Rightarrow> string" where
  "pos_serialize format_pg_lsn p = format_pg_lsn (pos_get p)"

definition pos_deserialize :: "(string \<Rightarrow> ('e, u64) result) \<Rightarrow> string \<Rightarrow> ('e, 'k pos) result" where
  "pos_deserialize parse_pg_lsn s = map_sum id Pos (parse_pg_lsn s)"

lemma pos_text_roundtrip:
  "(\<And>x. parse_pg_lsn (format_pg_lsn x) = Inr x) \<Longrightarrow>
   pos_deserialize parse_pg_lsn (pos_serialize format_pg_lsn p) = Inr p"
  by (simp add: pos_deserialize_def pos_serialize_def)

section \<open>Cells that only move forward\<close>

text \<open>The interface a client of a forward-only cell relies on: joining a value leaves the larger
  of the two, and the operation returns what the cell then holds.\<close>

locale forward_cell =
  fixes cell_get :: "'c \<Rightarrow> 'v::linorder"
    and cell_join :: "'c \<Rightarrow> 'v \<Rightarrow> 'c \<times> 'v"
  assumes get_join: "cell_get (fst (cell_join c v)) = max (cell_get c) v"
    and join_result: "snd (cell_join c v) = cell_get (fst (cell_join c v))"
begin

lemma join_forward: "cell_get c \<le> cell_get (fst (cell_join c v))"
  by (simp add: get_join)

lemma join_covers: "v \<le> cell_get (fst (cell_join c v))"
  by (simp add: get_join)

lemma join_bounded: "cell_get c \<le> b \<Longrightarrow> v \<le> b \<Longrightarrow> cell_get (fst (cell_join c v)) \<le> b"
  by (simp add: get_join)

lemma joins_get: "cell_get (fold (\<lambda>v c. fst (cell_join c v)) vs c) = fold max vs (cell_get c)"
  by (induction vs arbitrary: c) (simp_all add: get_join max.commute)

lemma joins_Max: "cell_get (fold (\<lambda>v c. fst (cell_join c v)) vs c) = Max (insert (cell_get c) (set vs))"
  unfolding joins_get by (simp add: Max.set_eq_fold [of "cell_get c" vs, symmetric])

end

text \<open>\<open>Monotone\<close>: the value of a watch channel and its version, which moves exactly when
  waiters are notified.\<close>

record 'v monotone =
  mono_cur :: 'v
  mono_version :: nat

definition monotone_new :: "'v \<Rightarrow> 'v monotone" where
  "monotone_new init = \<lparr>mono_cur = init, mono_version = 0\<rparr>"

definition monotone_get :: "'v monotone \<Rightarrow> 'v" where
  "monotone_get m = mono_cur m"

definition advance_to :: "'v::linorder monotone \<Rightarrow> 'v \<Rightarrow> 'v monotone \<times> 'v" where
  "advance_to m v =
     (let prev = mono_cur m;
          m' = m\<lparr>mono_cur := max prev v,
                 mono_version := (if prev < v then Suc (mono_version m) else mono_version m)\<rparr>
      in (m', max prev v))"

definition monotone_join :: "'v::linorder monotone \<Rightarrow> 'v \<Rightarrow> 'v monotone \<times> 'v" where
  "monotone_join m v = advance_to m v"

text \<open>\<open>Durable\<close> wraps a position proven persisted; only such a value can be published into a
  durability cell or rebase it.\<close>

datatype 'v durable = Durable (durable_pos: 'v)

definition monotone_publish :: "'v::linorder monotone \<Rightarrow> 'v durable \<Rightarrow> 'v monotone \<times> 'v" where
  "monotone_publish m v = advance_to m (durable_pos v)"

definition monotone_rebase :: "'v monotone \<Rightarrow> 'v durable \<Rightarrow> 'v monotone \<times> 'v" where
  "monotone_rebase m v =
     (m\<lparr>mono_cur := durable_pos v, mono_version := Suc (mono_version m)\<rparr>, durable_pos v)"

definition monotone_bump :: "u64 monotone \<Rightarrow> u64 monotone" where
  "monotone_bump m = m\<lparr>mono_cur := mono_cur m + 1, mono_version := Suc (mono_version m)\<rparr>"

lemma monotone_get_new [simp]: "monotone_get (monotone_new v) = v"
  by (simp add: monotone_get_def monotone_new_def)

lemma advance_to_get: "monotone_get (fst (advance_to m v)) = max (monotone_get m) v"
  by (simp add: advance_to_def monotone_get_def Let_def)

lemma advance_to_snd: "snd (advance_to m v) = max (monotone_get m) v"
  by (simp add: advance_to_def monotone_get_def Let_def)

interpretation joined: forward_cell monotone_get monotone_join
  by unfold_locales (simp_all add: monotone_join_def advance_to_get advance_to_snd)

interpretation published: forward_cell monotone_get "\<lambda>m v. monotone_publish m (Durable v)"
  by unfold_locales (simp_all add: monotone_publish_def advance_to_get advance_to_snd)

text \<open>The routine mutators of a cell, and a run of them.\<close>

datatype 'v cell_op = CellJoin 'v | CellPublish "'v durable" | CellRebase "'v durable"

fun cell_step :: "'v::linorder monotone \<Rightarrow> 'v cell_op \<Rightarrow> 'v monotone" where
  "cell_step m (CellJoin v) = fst (monotone_join m v)"
| "cell_step m (CellPublish v) = fst (monotone_publish m v)"
| "cell_step m (CellRebase v) = fst (monotone_rebase m v)"

lemma monotone_get_rebase [simp]: "monotone_get (fst (monotone_rebase m v)) = durable_pos v"
  by (simp add: monotone_rebase_def monotone_get_def)

lemma cell_step_regress:
  "monotone_get (cell_step m op) < monotone_get m \<Longrightarrow>
   \<exists>d. op = CellRebase d \<and> monotone_get (cell_step m op) = durable_pos d"
  by (cases op) (simp_all add: monotone_join_def monotone_publish_def advance_to_get)

section \<open>Gates\<close>

text \<open>
  A waiter sees the value current when it starts and then each value the channel holds when it
  is woken. Once the cell is dropped no further value comes; the channel reports closure only
  after its last value was seen. \<open>gate_wait target vs closed\<close> is the outcome of a wait that
  observes \<open>vs\<close>: \<open>None\<close> while it is still parked.
\<close>

datatype gate_closed = GateClosed

fun gate_wait :: "'v::linorder \<Rightarrow> 'v list \<Rightarrow> bool \<Rightarrow> (gate_closed, 'v) result option" where
  "gate_wait target [] closed = (if closed then Some (Inl GateClosed) else None)"
| "gate_wait target (cur # rest) closed =
     (if target \<le> cur then Some (Inr cur) else gate_wait target rest closed)"

definition gate_advance :: "u64 \<Rightarrow> u64 list \<Rightarrow> bool \<Rightarrow> (gate_closed, u64) result option" where
  "gate_advance seen = gate_wait (sat_add seen 1)"

lemma gate_wait_eq:
  "gate_wait target vs closed =
     (case find (\<lambda>v. target \<le> v) vs of
        Some v \<Rightarrow> Some (Inr v)
      | None \<Rightarrow> if closed then Some (Inl GateClosed) else None)"
  by (induction vs) auto

end
