(* ===== verification/Ack.thy ===== *)
theory Ack
  imports Positions
begin

text \<open>
  The acknowledgement collector of the parallel pipeline (\<open>src/src/emit/pipeline/ack.rs\<close>).
  Work slices carry dense sequence numbers; rows are placed and acknowledged out of order, and
  the published position may only cover the contiguous prefix of finished slices. The state
  of the collector is the record \<open>ack_state\<close>; \<open>ack_apply\<close> is its event handler and
  \<open>retire\<close> the loop of \<open>publish\<close>. Sequence and row counters are unbounded naturals
  (a run would need \<open>2 ^ 64\<close> rows to tell them from \<open>u64\<close>), commit positions keep their
  64 bits. The text of a fatal message is kept as its parts.

  \<open>Ack_Spec\<close> relates the collector to a reference that keeps the whole event history and
  recomputes everything from it.
\<close>

section \<open>Progress of one sequence number\<close>

datatype seq_fault = DoublePlaced | OverAcked

record progress =
  prog_rows :: "nat option"
  prog_acked :: nat

definition progress_default :: progress where
  "progress_default = \<lparr>prog_rows = None, prog_acked = 0\<rparr>"

definition progress_place :: "nat \<Rightarrow> progress \<Rightarrow> (seq_fault, progress) result" where
  "progress_place rows p =
     (if prog_rows p \<noteq> None then Inl DoublePlaced
      else if prog_acked p > rows then Inl OverAcked
      else Inr (p\<lparr>prog_rows := Some rows\<rparr>))"

definition progress_ack :: "nat \<Rightarrow> progress \<Rightarrow> (seq_fault, progress) result" where
  "progress_ack n p =
     (let acked = prog_acked p + n in
      if (case prog_rows p of None \<Rightarrow> False | Some rows \<Rightarrow> acked > rows) then Inl OverAcked
      else Inr (p\<lparr>prog_acked := acked\<rparr>))"

definition progress_is_done :: "progress \<Rightarrow> bool" where
  "progress_is_done p \<longleftrightarrow> prog_rows p = Some (prog_acked p)"

section \<open>Collector state\<close>

record seq_entry =
  seq_commit_lsn :: u64
  seq_publish :: bool
  seq_progress :: progress

record incomplete_seq =
  inc_seq :: nat
  inc_commit_lsn :: "emitter_ack_k pos"
  inc_rows :: "nat option"
  inc_acked :: nat

record ack_snapshot =
  snap_registered :: nat
  snap_frontier :: nat
  snap_oldest_incomplete :: "incomplete_seq option"
  snap_trailing_held :: "emitter_ack_k pos"
  snap_wedged :: nat
  snap_late :: nat

datatype ack_event =
    Register nat u64 bool
  | Placed nat nat
  | Acked "(nat \<times> nat) list"
  | Trailing u64
  | Batch "ack_event list"

text \<open>A fatal message: what happened, to which sequence number, at which frontier and
  registration count. \<open>Fatal::set\<close> keeps the first message.\<close>

type_synonym fault_msg = "string \<times> nat \<times> nat \<times> nat"

definition fatal_set :: "'m \<Rightarrow> 'm option \<Rightarrow> 'm option" where
  "fatal_set msg slot = (case slot of None \<Rightarrow> Some msg | Some m \<Rightarrow> Some m)"

record ack_state =
  ack_map :: "(nat, seq_entry) hmap"
  ack_frontier :: nat
  ack_registered :: nat
  ack_watermark :: u64
  ack_trailing :: u64
  ack_emitter :: "emitter_ack_k pos monotone"
  ack_frontier_cell :: "nat monotone"
  ack_wedged :: nat
  ack_late :: nat
  ack_probe :: ack_snapshot
  ack_fatal :: "fault_msg option"

definition snapshot_default :: ack_snapshot where
  "snapshot_default = \<lparr>snap_registered = 0, snap_frontier = 0, snap_oldest_incomplete = None,
     snap_trailing_held = pos_zero, snap_wedged = 0, snap_late = 0\<rparr>"

definition ack_new :: "emitter_ack_k pos monotone \<Rightarrow> fault_msg option \<Rightarrow> ack_state" where
  "ack_new cell fatal = \<lparr>ack_map = [], ack_frontier = 0, ack_registered = 0, ack_watermark = 0,
     ack_trailing = 0, ack_emitter = cell, ack_frontier_cell = monotone_new 0, ack_wedged = 0,
     ack_late = 0, ack_probe = snapshot_default, ack_fatal = fatal\<rparr>"

definition ack_wedge :: "nat \<Rightarrow> string \<Rightarrow> ack_state \<Rightarrow> ack_state" where
  "ack_wedge seq what st =
     (let st = st\<lparr>ack_wedged := Suc (ack_wedged st)\<rparr> in
      if ack_wedged st = 1
      then st\<lparr>ack_fatal := fatal_set (what, seq, ack_frontier st, ack_registered st) (ack_fatal st)\<rparr>
      else st)"

definition ack_absent :: "nat \<Rightarrow> ack_state \<Rightarrow> ack_state" where
  "ack_absent seq st =
     (if seq < ack_frontier st then st\<lparr>ack_late := Suc (ack_late st)\<rparr>
      else ack_wedge seq ''ack event for an unregistered seq'' st)"

definition ack_open_seq :: "nat \<Rightarrow> u64 \<Rightarrow> bool \<Rightarrow> ack_state \<Rightarrow> ack_state" where
  "ack_open_seq seq commit_lsn publish st =
     (if seq < ack_frontier st \<or> hm_get (ack_map st) seq \<noteq> None
      then ack_wedge seq ''seq registered twice'' st
      else st\<lparr>ack_map := hm_insert seq
                \<lparr>seq_commit_lsn = commit_lsn, seq_publish = publish, seq_progress = progress_default\<rparr>
                (ack_map st),
              ack_registered := max (ack_registered st) (Suc seq)\<rparr>)"

definition ack_step :: "nat \<Rightarrow> (progress \<Rightarrow> (seq_fault, progress) result) \<Rightarrow> ack_state \<Rightarrow> ack_state" where
  "ack_step seq f st =
     (case hm_get (ack_map st) seq of
        None \<Rightarrow> ack_absent seq st
      | Some s \<Rightarrow>
          (case f (seq_progress s) of
             Inr p \<Rightarrow> st\<lparr>ack_map := hm_insert seq (s\<lparr>seq_progress := p\<rparr>) (ack_map st)\<rparr>
           | Inl DoublePlaced \<Rightarrow> ack_wedge seq ''seq placed twice'' st
           | Inl OverAcked \<Rightarrow> ack_wedge seq ''seq acked past its row count'' st))"

fun ack_step_event :: "ack_event \<Rightarrow> ack_state \<Rightarrow> ack_state" where
  "ack_step_event (Register seq commit_lsn publish) st = ack_open_seq seq commit_lsn publish st"
| "ack_step_event (Placed seq rows) st = ack_step seq (progress_place rows) st"
| "ack_step_event (Acked counts) st = fold (\<lambda>(seq, n) st. ack_step seq (progress_ack n) st) counts st"
| "ack_step_event (Trailing lsn) st = st\<lparr>ack_trailing := max (ack_trailing st) lsn\<rparr>"
| "ack_step_event (Batch evs) st = fold ack_step_event evs st"

section \<open>Publishing\<close>

definition ack_all_done :: "ack_state \<Rightarrow> bool" where
  "ack_all_done st \<longleftrightarrow> ack_frontier st = ack_registered st"

definition ack_oldest_incomplete :: "ack_state \<Rightarrow> incomplete_seq option" where
  "ack_oldest_incomplete st =
     (if ack_all_done st then None
      else map_option
        (\<lambda>s. \<lparr>inc_seq = ack_frontier st, inc_commit_lsn = Pos (seq_commit_lsn s),
              inc_rows = prog_rows (seq_progress s), inc_acked = prog_acked (seq_progress s)\<rparr>)
        (hm_get (ack_map st) (ack_frontier st)))"

definition ack_take_snapshot :: "ack_state \<Rightarrow> ack_snapshot" where
  "ack_take_snapshot st = \<lparr>snap_registered = ack_registered st, snap_frontier = ack_frontier st,
     snap_oldest_incomplete = ack_oldest_incomplete st, snap_trailing_held = Pos (ack_trailing st),
     snap_wedged = ack_wedged st, snap_late = ack_late st\<rparr>"

definition snapshot_all_done :: "ack_snapshot \<Rightarrow> bool" where
  "snapshot_all_done s \<longleftrightarrow> snap_oldest_incomplete s = None"

definition stall_reason :: "ack_snapshot \<Rightarrow> string option" where
  "stall_reason s = map_option
     (\<lambda>inc. case inc_rows inc of None \<Rightarrow> ''rows not yet placed''
                              | Some _ \<Rightarrow> ''clickhouse has not acked rows'')
     (snap_oldest_incomplete s)"

function retire :: "nat \<Rightarrow> u64 \<Rightarrow> (nat, seq_entry) hmap \<Rightarrow> nat \<times> u64 \<times> (nat, seq_entry) hmap" where
  "retire frontier watermark m =
     (case hm_get m frontier of
        None \<Rightarrow> (frontier, watermark, m)
      | Some s \<Rightarrow>
          if \<not> progress_is_done (seq_progress s) then (frontier, watermark, m)
          else retire (Suc frontier)
                 (if seq_publish s then max watermark (seq_commit_lsn s) else watermark)
                 (hm_remove frontier m))"
  by pat_completeness auto
termination
  by (relation "measure (\<lambda>(f, w, m). length m)") (auto intro!: length_delete_less)

declare retire.simps [simp del]

definition ack_publish :: "ack_state \<Rightarrow> ack_state" where
  "ack_publish st =
     (let (frontier, watermark, m) = retire (ack_frontier st) (ack_watermark st) (ack_map st);
          st = st\<lparr>ack_map := m, ack_frontier := frontier, ack_watermark := watermark\<rparr>;
          ack = (if ack_all_done st then max (ack_watermark st) (ack_trailing st) else ack_watermark st);
          st = st\<lparr>ack_emitter := fst (monotone_join (ack_emitter st) (Pos ack))\<rparr>;
          st = st\<lparr>ack_frontier_cell := fst (monotone_join (ack_frontier_cell st) (ack_frontier st))\<rparr>
      in st\<lparr>ack_probe := ack_take_snapshot st\<rparr>)"

definition ack_apply :: "ack_event \<Rightarrow> ack_state \<Rightarrow> ack_state" where
  "ack_apply ev st = ack_publish (ack_step_event ev st)"

text \<open>The collector actor: events in channel order until every sender is gone.\<close>

definition ack_run :: "ack_event list \<Rightarrow> ack_state \<Rightarrow> ack_state" where
  "ack_run evs st = fold ack_apply evs st"

section \<open>Handles and the sequence allocator\<close>

text \<open>Events a producer handle sends; an empty acknowledgement is not sent.\<close>

definition send_acked :: "(nat \<times> nat) list \<Rightarrow> ack_event list" where
  "send_acked counts = (if counts \<noteq> [] then [Acked counts] else [])"

definition handle_trailing :: "u64 \<Rightarrow> ack_event list" where
  "handle_trailing lsn = [Trailing lsn]"

definition wait_through :: "nat \<Rightarrow> nat list \<Rightarrow> bool \<Rightarrow> (gate_closed, unit) result option" where
  "wait_through seq seen closed = map_option (map_sum id (\<lambda>_. ())) (gate_wait seq seen closed)"

datatype publish_kind = PublishCommit | PublishPartial

record held =
  held_registered :: "ack_event list"
  held_placed :: "ack_event list"

text \<open>The allocator together with what it has sent so far. An \<open>OpenSeq\<close> is its sequence
  number.\<close>

record seq_alloc =
  alloc_sent :: "ack_event list"
  alloc_next :: nat
  alloc_held :: "held option"

definition alloc_new :: "nat \<Rightarrow> seq_alloc" where
  "alloc_new first = \<lparr>alloc_sent = [], alloc_next = first, alloc_held = None\<rparr>"

definition alloc_with_held :: "seq_alloc \<Rightarrow> seq_alloc" where
  "alloc_with_held a = a\<lparr>alloc_held := Some \<lparr>held_registered = [], held_placed = []\<rparr>\<rparr>"

definition alloc_send :: "ack_event \<Rightarrow> seq_alloc \<Rightarrow> seq_alloc" where
  "alloc_send ev a = a\<lparr>alloc_sent := alloc_sent a @ [ev]\<rparr>"

definition alloc_open :: "u64 \<Rightarrow> publish_kind \<Rightarrow> seq_alloc \<Rightarrow> seq_alloc \<times> nat" where
  "alloc_open commit_lsn publish a =
     (let seq = alloc_next a;
          a = a\<lparr>alloc_next := Suc (alloc_next a)\<rparr>;
          ev = Register seq commit_lsn (publish = PublishCommit)
      in case alloc_held a of
           Some held \<Rightarrow> (a\<lparr>alloc_held := Some (held\<lparr>held_registered := held_registered held @ [ev]\<rparr>)\<rparr>, seq)
         | None \<Rightarrow> (alloc_send ev a, seq))"

definition open_seq_place :: "nat \<Rightarrow> nat \<Rightarrow> seq_alloc \<Rightarrow> seq_alloc" where
  "open_seq_place seq rows a = alloc_send (Placed seq rows) a"

definition alloc_place :: "nat \<Rightarrow> nat \<Rightarrow> seq_alloc \<Rightarrow> seq_alloc" where
  "alloc_place seq rows a =
     (case alloc_held a of
        None \<Rightarrow> open_seq_place seq rows a
      | Some held \<Rightarrow> a\<lparr>alloc_held := Some (held\<lparr>held_placed := held_placed held @ [Placed seq rows]\<rparr>)\<rparr>)"

definition alloc_mark :: "u64 \<Rightarrow> seq_alloc \<Rightarrow> seq_alloc" where
  "alloc_mark commit_lsn a = (let (a, seq) = alloc_open commit_lsn PublishCommit a in alloc_place seq 0 a)"

definition send_registered :: "seq_alloc \<Rightarrow> seq_alloc" where
  "send_registered a =
     (case alloc_held a of
        None \<Rightarrow> a
      | Some held \<Rightarrow>
          if held_registered held = [] then a
          else alloc_send (Batch (held_registered held))
                 (a\<lparr>alloc_held := Some (held\<lparr>held_registered := []\<rparr>)\<rparr>))"

definition send_placed :: "seq_alloc \<Rightarrow> seq_alloc" where
  "send_placed a =
     (case alloc_held a of
        None \<Rightarrow> a
      | Some held \<Rightarrow>
          if held_placed held = [] then a
          else alloc_send (Batch (held_placed held))
                 (a\<lparr>alloc_held := Some (held\<lparr>held_placed := []\<rparr>)\<rparr>))"

end
