(* ===== verification/Ack_Spec.thy ===== *)
theory Ack_Spec
  imports Ack
begin

text \<open>
  What the acknowledgement collector promises. The reference keeps the complete history of
  atomic events and recomputes from it which sequence numbers are finished; the collector is
  shown to agree with it after every event, and the safety and progress properties of the
  published position are read off the reference.
\<close>

section \<open>Atomic events and histories\<close>

datatype ack_atom = AReg nat u64 bool | APlace nat nat | AAck nat nat | ATrail u64

fun atoms :: "ack_event \<Rightarrow> ack_atom list" where
  "atoms (Register s l p) = [AReg s l p]"
| "atoms (Placed s n) = [APlace s n]"
| "atoms (Acked counts) = map (\<lambda>(s, n). AAck s n) counts"
| "atoms (Trailing l) = [ATrail l]"
| "atoms (Batch evs) = concat (map atoms evs)"

definition history :: "ack_event list \<Rightarrow> ack_atom list" where
  "history evs = concat (map atoms evs)"

fun atom_step :: "ack_atom \<Rightarrow> ack_state \<Rightarrow> ack_state" where
  "atom_step (AReg s l p) st = ack_open_seq s l p st"
| "atom_step (APlace s n) st = ack_step s (progress_place n) st"
| "atom_step (AAck s n) st = ack_step s (progress_ack n) st"
| "atom_step (ATrail l) st = st\<lparr>ack_trailing := max (ack_trailing st) l\<rparr>"

lemma ack_step_event_atoms: "ack_step_event ev st = fold atom_step (atoms ev) st"
proof (induction ev arbitrary: st)
  case (Acked counts)
  show ?case by (induction counts arbitrary: st) (auto split: prod.splits)
next
  case (Batch evs)
  then show ?case by (induction evs arbitrary: st) simp_all
qed simp_all

text \<open>What a history says about one sequence number.\<close>

fun hist_reg :: "ack_atom list \<Rightarrow> nat \<Rightarrow> (u64 \<times> bool) option" where
  "hist_reg [] s = None"
| "hist_reg (AReg s' l p # h) s = (if s' = s then Some (l, p) else hist_reg h s)"
| "hist_reg (_ # h) s = hist_reg h s"

fun hist_rows :: "ack_atom list \<Rightarrow> nat \<Rightarrow> nat option" where
  "hist_rows [] s = None"
| "hist_rows (APlace s' n # h) s = (if s' = s then Some n else hist_rows h s)"
| "hist_rows (_ # h) s = hist_rows h s"

fun hist_acked :: "ack_atom list \<Rightarrow> nat \<Rightarrow> nat" where
  "hist_acked [] s = 0"
| "hist_acked (AAck s' n # h) s = (if s' = s then n else 0) + hist_acked h s"
| "hist_acked (_ # h) s = hist_acked h s"

fun hist_trailing :: "ack_atom list \<Rightarrow> u64" where
  "hist_trailing [] = 0"
| "hist_trailing (ATrail l # h) = max l (hist_trailing h)"
| "hist_trailing (_ # h) = hist_trailing h"

fun hist_registered :: "ack_atom list \<Rightarrow> nat" where
  "hist_registered [] = 0"
| "hist_registered (AReg s l p # h) = max (Suc s) (hist_registered h)"
| "hist_registered (_ # h) = hist_registered h"

definition seq_done :: "ack_atom list \<Rightarrow> nat \<Rightarrow> bool" where
  "seq_done h s \<longleftrightarrow> hist_reg h s \<noteq> None \<and> hist_rows h s = Some (hist_acked h s)"

lemma hist_reg_append: "hist_reg (h @ k) s = (case hist_reg h s of None \<Rightarrow> hist_reg k s | Some x \<Rightarrow> Some x)"
  by (induction h s rule: hist_reg.induct) auto

lemma hist_rows_append: "hist_rows (h @ k) s = (case hist_rows h s of None \<Rightarrow> hist_rows k s | Some x \<Rightarrow> Some x)"
  by (induction h s rule: hist_rows.induct) auto

lemma hist_acked_append: "hist_acked (h @ k) s = hist_acked h s + hist_acked k s"
  by (induction h s rule: hist_acked.induct) auto

lemma hist_trailing_append: "hist_trailing (h @ k) = max (hist_trailing h) (hist_trailing k)"
  by (induction h rule: hist_trailing.induct) (auto simp: max.assoc)

lemma hist_registered_append: "hist_registered (h @ k) = max (hist_registered h) (hist_registered k)"
  by (induction h rule: hist_registered.induct) (auto simp: max.assoc)

lemmas hist_append = hist_reg_append hist_rows_append hist_acked_append hist_trailing_append
  hist_registered_append

lemma hist_reg_registered: "hist_reg h s = Some x \<Longrightarrow> s < hist_registered h"
  by (induction h s rule: hist_reg.induct) (auto split: if_splits)

text \<open>The producers' protocol: a sequence number is registered once, placed once and after its
  registration, and never acknowledged past its row count.\<close>

fun atom_ok :: "ack_atom list \<Rightarrow> ack_atom \<Rightarrow> bool" where
  "atom_ok h (AReg s l p) \<longleftrightarrow> hist_reg h s = None"
| "atom_ok h (APlace s n) \<longleftrightarrow> hist_reg h s \<noteq> None \<and> hist_rows h s = None \<and> hist_acked h s \<le> n"
| "atom_ok h (AAck s n) \<longleftrightarrow> hist_reg h s \<noteq> None \<and>
     (case hist_rows h s of None \<Rightarrow> True | Some r \<Rightarrow> hist_acked h s + n \<le> r)"
| "atom_ok h (ATrail l) \<longleftrightarrow> True"

definition hist_ok :: "ack_atom list \<Rightarrow> bool" where
  "hist_ok h \<longleftrightarrow> along atom_ok h"

lemma hist_ok_snoc [simp]: "hist_ok (h @ [a]) \<longleftrightarrow> hist_ok h \<and> atom_ok h a"
  by (simp add: hist_ok_def)

lemma hist_ok_prefix: "hist_ok (h @ k) \<Longrightarrow> hist_ok h"
  unfolding hist_ok_def by (rule along_prefix)

lemma unregistered_clean:
  "hist_ok h \<Longrightarrow> hist_reg h s = None \<Longrightarrow> hist_rows h s = None \<and> hist_acked h s = 0"
proof (induction h rule: rev_induct)
  case (snoc a h)
  then show ?case by (cases a) (auto simp: hist_append split: option.splits if_splits)
qed simp

lemma seq_done_snoc: "atom_ok h a \<Longrightarrow> seq_done h s \<Longrightarrow> seq_done (h @ [a]) s"
  by (cases a) (auto simp: seq_done_def hist_append split: if_splits)

lemma seq_done_append: "hist_ok (h @ k) \<Longrightarrow> seq_done h s \<Longrightarrow> seq_done (h @ k) s"
proof (induction k rule: rev_induct)
  case (snoc a k)
  then have "hist_ok (h @ k)" "atom_ok (h @ k) a"
    by (simp_all flip: append_assoc)
  with snoc seq_done_snoc [of "h @ k" a s] show ?case by simp
qed simp

section \<open>The reference watermark\<close>

text \<open>The contiguous done prefix, the highest position published by it, and what the
  collector publishes from a history.\<close>

definition hist_frontier :: "ack_atom list \<Rightarrow> nat" where
  "hist_frontier h = (LEAST s. \<not> seq_done h s)"

definition published_below :: "ack_atom list \<Rightarrow> nat \<Rightarrow> u64" where
  "published_below h f =
     fold max (map (\<lambda>s. case hist_reg h s of Some (l, True) \<Rightarrow> l | _ \<Rightarrow> 0) [0..<f]) 0"

definition hist_publish :: "ack_atom list \<Rightarrow> u64" where
  "hist_publish h =
     (if hist_frontier h = hist_registered h
      then max (published_below h (hist_frontier h)) (hist_trailing h)
      else published_below h (hist_frontier h))"

lemma not_done_unregistered: "\<not> seq_done h (hist_registered h)"
  using hist_reg_registered [of h "hist_registered h"] by (auto simp: seq_done_def)

lemma hist_frontier_not_done: "\<not> seq_done h (hist_frontier h)"
  unfolding hist_frontier_def by (rule LeastI [of "\<lambda>s. \<not> seq_done h s", OF not_done_unregistered])

lemma hist_frontier_below: "s < hist_frontier h \<Longrightarrow> seq_done h s"
  unfolding hist_frontier_def using not_less_Least by blast

lemma hist_frontier_le: "\<not> seq_done h s \<Longrightarrow> hist_frontier h \<le> s"
  unfolding hist_frontier_def by (rule Least_le)

lemma hist_frontier_eq: "\<not> seq_done h f \<Longrightarrow> (\<And>s. s < f \<Longrightarrow> seq_done h s) \<Longrightarrow> hist_frontier h = f"
  by (meson hist_frontier_le hist_frontier_not_done le_neq_implies_less)

lemma hist_frontier_le_registered: "hist_frontier h \<le> hist_registered h"
  by (rule hist_frontier_le) (rule not_done_unregistered)

lemma hist_frontier_mono: "hist_ok (h @ k) \<Longrightarrow> hist_frontier h \<le> hist_frontier (h @ k)"
  using hist_frontier_not_done [of "h @ k"] hist_frontier_below [of "hist_frontier (h @ k)" h]
    seq_done_append by (meson not_le_imp_less)

lemma published_below_0 [simp]: "published_below h 0 = 0"
  by (simp add: published_below_def)

lemma published_below_Suc:
  "published_below h (Suc f) =
     (case hist_reg h f of Some (l, True) \<Rightarrow> max (published_below h f) l | _ \<Rightarrow> published_below h f)"
  by (auto simp: published_below_def max.commute split: option.splits bool.splits)

lemma published_below_cong:
  "(\<And>s. s < f \<Longrightarrow> hist_reg h s = hist_reg k s) \<Longrightarrow> published_below h f = published_below k f"
  by (induction f) (auto simp: published_below_Suc split: option.splits bool.splits)

lemma published_below_ge:
  "s < f \<Longrightarrow> hist_reg h s = Some (l, True) \<Longrightarrow> l \<le> published_below h f"
  by (induction f) (auto simp: published_below_Suc less_Suc_eq le_max_iff_disj
      split: option.splits bool.splits)

lemma published_below_cases:
  "published_below h f = 0 \<or> (\<exists>s l. s < f \<and> hist_reg h s = Some (l, True) \<and> published_below h f = l)"
proof (induction f)
  case (Suc f)
  then show ?case
    by (auto simp: published_below_Suc max_def less_Suc_eq split: option.splits bool.splits)
qed simp

lemma published_below_le:
  "(\<And>s l. s < f \<Longrightarrow> hist_reg h s = Some (l, True) \<Longrightarrow> l \<le> b) \<Longrightarrow> published_below h f \<le> b"
  using published_below_cases [of h f] by auto

section \<open>The collector agrees with the reference\<close>

definition entry_of :: "ack_atom list \<Rightarrow> nat \<Rightarrow> seq_entry option" where
  "entry_of h s = map_option (\<lambda>(l, p). \<lparr>seq_commit_lsn = l, seq_publish = p,
     seq_progress = \<lparr>prog_rows = hist_rows h s, prog_acked = hist_acked h s\<rparr>\<rparr>) (hist_reg h s)"

definition map_agrees :: "ack_atom list \<Rightarrow> nat \<Rightarrow> (nat, seq_entry) hmap \<Rightarrow> bool" where
  "map_agrees h f m \<longleftrightarrow> (\<forall>s. hm_get m s = (if s < f then None else entry_of h s))"

definition agrees :: "ack_atom list \<Rightarrow> ack_state \<Rightarrow> bool" where
  "agrees h st \<longleftrightarrow>
     hist_ok h \<and> ack_wedged st = 0 \<and>
     (\<forall>s < ack_frontier st. seq_done h s) \<and>
     map_agrees h (ack_frontier st) (ack_map st) \<and>
     ack_watermark st = published_below h (ack_frontier st) \<and>
     ack_registered st = hist_registered h \<and>
     ack_trailing st = hist_trailing h"

lemma agrees_new: "agrees [] (ack_new cell fatal)"
  by (simp add: agrees_def ack_new_def map_agrees_def entry_of_def hist_ok_def)

lemma entry_done_iff:
  "entry_of h s = Some e \<Longrightarrow> progress_is_done (seq_progress e) \<longleftrightarrow> seq_done h s"
  by (auto simp: entry_of_def progress_is_done_def seq_done_def)

lemma agrees_reg:
  assumes "agrees h st" "atom_ok h (AReg s l p)"
  shows "agrees (h @ [AReg s l p]) (atom_step (AReg s l p) st)"
proof -
  from assms have new: "hist_reg h s = None" and ok: "hist_ok h" by (auto simp: agrees_def)
  from unregistered_clean [OF ok new] have clean: "hist_rows h s = None" "hist_acked h s = 0" by auto
  have fresh: "\<not> s < ack_frontier st" "hm_get (ack_map st) s = None"
    using assms(1) new by (auto simp: agrees_def map_agrees_def entry_of_def seq_done_def)
  have pb: "published_below (h @ [AReg s l p]) (ack_frontier st) = published_below h (ack_frontier st)"
    by (rule published_below_cong) (use fresh in \<open>auto simp: hist_append split: option.splits\<close>)
  have "map_agrees (h @ [AReg s l p]) (ack_frontier st) (ack_map (ack_open_seq s l p st))"
    using assms(1) fresh new clean
    by (auto simp: agrees_def map_agrees_def entry_of_def ack_open_seq_def hist_append ws_simps
        progress_default_def split: option.splits)
  moreover have "\<forall>q < ack_frontier st. seq_done (h @ [AReg s l p]) q"
    using assms seq_done_snoc by (simp add: agrees_def)
  ultimately show ?thesis
    using assms fresh pb
    by (simp add: agrees_def ack_open_seq_def hist_append max.commute)
qed

lemma agrees_entry_update:
  assumes ag: "agrees h st" and ok: "atom_ok h a"
    and get: "hm_get (ack_map st) s = Some e"
    and reg: "hist_reg (h @ [a]) = hist_reg h" "hist_registered (h @ [a]) = hist_registered h"
      "hist_trailing (h @ [a]) = hist_trailing h"
    and other: "\<And>q. q \<noteq> s \<Longrightarrow> hist_rows (h @ [a]) q = hist_rows h q \<and> hist_acked (h @ [a]) q = hist_acked h q"
    and e': "e' = e\<lparr>seq_progress := \<lparr>prog_rows = hist_rows (h @ [a]) s, prog_acked = hist_acked (h @ [a]) s\<rparr>\<rparr>"
  shows "agrees (h @ [a]) (st\<lparr>ack_map := hm_insert s e' (ack_map st)\<rparr>)"
proof -
  have above: "\<not> s < ack_frontier st" and entry: "entry_of h s = Some e"
    using ag get by (auto simp: agrees_def map_agrees_def split: if_splits)
  have pb: "published_below (h @ [a]) (ack_frontier st) = published_below h (ack_frontier st)"
    by (rule published_below_cong) (simp add: reg)
  have "map_agrees (h @ [a]) (ack_frontier st) (hm_insert s e' (ack_map st))"
    using ag above entry other e' reg
    by (auto simp: agrees_def map_agrees_def entry_of_def ws_simps)
  moreover have "\<forall>q < ack_frontier st. seq_done (h @ [a]) q"
    using ag ok seq_done_snoc by (simp add: agrees_def)
  ultimately show ?thesis
    using ag ok reg pb by (simp add: agrees_def)
qed

lemma agrees_place:
  assumes "agrees h st" "atom_ok h (APlace s n)"
  shows "agrees (h @ [APlace s n]) (atom_step (APlace s n) st)"
proof -
  from assms have ag: "hist_reg h s \<noteq> None" "hist_rows h s = None" "hist_acked h s \<le> n"
    "\<not> s < ack_frontier st"
    by (auto simp: agrees_def seq_done_def)
  then obtain e where e: "hm_get (ack_map st) s = Some e"
    and pr: "seq_progress e = \<lparr>prog_rows = None, prog_acked = hist_acked h s\<rparr>"
    using assms(1) by (auto simp: agrees_def map_agrees_def entry_of_def)
  have "agrees (h @ [APlace s n]) (st\<lparr>ack_map := hm_insert s
     (e\<lparr>seq_progress := \<lparr>prog_rows = Some n, prog_acked = hist_acked h s\<rparr>\<rparr>) (ack_map st)\<rparr>)"
    by (rule agrees_entry_update [OF assms e])
      (use ag in \<open>auto simp: hist_append fun_eq_iff split: option.splits\<close>)
  then show ?thesis using e pr ag by (simp add: ack_step_def progress_place_def)
qed

lemma agrees_late:
  assumes ag: "agrees h st" and "atom_ok h (AAck s n)" "s < ack_frontier st"
  shows "agrees (h @ [AAck s n]) (st\<lparr>ack_late := k\<rparr>)"
proof -
  have "n = 0" using assms by (auto simp: agrees_def seq_done_def)
  moreover have "published_below (h @ [AAck s 0]) f = published_below h f" for f
    by (rule published_below_cong) (simp add: hist_append split: option.splits)
  moreover have "entry_of (h @ [AAck s 0]) q = entry_of h q" for q
    by (simp add: entry_of_def hist_append option.case_eq_if)
  moreover have "seq_done (h @ [AAck s 0]) q = seq_done h q" for q
    by (simp add: seq_done_def hist_append option.case_eq_if)
  ultimately show ?thesis
    using assms by (simp add: agrees_def map_agrees_def hist_append)
qed

lemma agrees_ack:
  assumes "agrees h st" "atom_ok h (AAck s n)"
  shows "agrees (h @ [AAck s n]) (atom_step (AAck s n) st)"
proof (cases "s < ack_frontier st")
  case True
  then have "hm_get (ack_map st) s = None"
    using assms by (simp add: agrees_def map_agrees_def)
  with True agrees_late [OF assms True] show ?thesis
    by (simp add: ack_step_def ack_absent_def)
next
  case False
  from assms have ok: "hist_reg h s \<noteq> None"
    "case hist_rows h s of None \<Rightarrow> True | Some r \<Rightarrow> hist_acked h s + n \<le> r"
    by auto
  then obtain e where e: "hm_get (ack_map st) s = Some e"
    and pr: "seq_progress e = \<lparr>prog_rows = hist_rows h s, prog_acked = hist_acked h s\<rparr>"
    using assms(1) False by (auto simp: agrees_def map_agrees_def entry_of_def)
  have "agrees (h @ [AAck s n]) (st\<lparr>ack_map := hm_insert s
     (e\<lparr>seq_progress := \<lparr>prog_rows = hist_rows h s, prog_acked = hist_acked h s + n\<rparr>\<rparr>) (ack_map st)\<rparr>)"
    by (rule agrees_entry_update [OF assms e])
      (use ok in \<open>auto simp: hist_append fun_eq_iff option.case_eq_if\<close>)
  then show ?thesis
    using e pr ok by (simp add: ack_step_def progress_ack_def split: option.splits)
qed

lemma agrees_trail:
  assumes "agrees h st"
  shows "agrees (h @ [ATrail l]) (atom_step (ATrail l) st)"
proof -
  have eq: "hist_reg (h @ [ATrail l]) = hist_reg h" "hist_rows (h @ [ATrail l]) = hist_rows h"
    "hist_acked (h @ [ATrail l]) = hist_acked h"
    by (auto simp: hist_append fun_eq_iff split: option.splits)
  then have "published_below (h @ [ATrail l]) f = published_below h f" for f
    by (simp add: published_below_def)
  with eq assms show ?thesis
    by (simp add: agrees_def map_agrees_def entry_of_def seq_done_def hist_trailing_append
        hist_registered_append)
qed

lemma agrees_atom: "agrees h st \<Longrightarrow> atom_ok h a \<Longrightarrow> agrees (h @ [a]) (atom_step a st)"
  by (cases a) (simp_all only: agrees_reg agrees_place agrees_ack agrees_trail)

lemma agrees_atoms: "agrees h st \<Longrightarrow> hist_ok (h @ k) \<Longrightarrow> agrees (h @ k) (fold atom_step k st)"
proof (induction k rule: rev_induct)
  case (snoc a k)
  then have "agrees (h @ k) (fold atom_step k st)" "atom_ok (h @ k) a"
    by (simp_all flip: append_assoc)
  from agrees_atom [OF this] show ?case by simp
qed simp

subsection \<open>Publishing reaches the reference frontier\<close>

lemma retire_agrees:
  assumes "map_agrees h f m" "\<And>s. s < f \<Longrightarrow> seq_done h s" "w = published_below h f"
    "retire f w m = (f', w', m')"
  shows "map_agrees h f' m' \<and> f' = hist_frontier h \<and> w' = published_below h f'"
  using assms
proof (induction f w m arbitrary: f' w' m' rule: retire.induct)
  case (1 f w m)
  show ?case
  proof (cases "seq_done h f")
    case False
    then have "retire f w m = (f, w, m)"
      using "1.prems"(1) entry_done_iff [of h f]
      by (auto simp: retire.simps [of f w m] map_agrees_def split: option.splits)
    moreover have "f = hist_frontier h"
      using False "1.prems"(2) by (intro hist_frontier_eq [symmetric])
    ultimately show ?thesis using "1.prems" by auto
  next
    case True
    then obtain e where e: "hm_get m f = Some e" "entry_of h f = Some e"
      using "1.prems"(1) by (auto simp: map_agrees_def entry_of_def seq_done_def)
    then have fin: "progress_is_done (seq_progress e)" using True by (simp add: entry_done_iff)
    have step: "map_agrees h (Suc f) (hm_remove f m)"
      using "1.prems"(1) by (auto simp: map_agrees_def ws_simps)
    have w: "(if seq_publish e then max w (seq_commit_lsn e) else w) = published_below h (Suc f)"
      using e(2) "1.prems"(3) by (auto simp: entry_of_def published_below_Suc split: bool.splits)
    have eq: "retire (Suc f) (if seq_publish e then max w (seq_commit_lsn e) else w) (hm_remove f m)
        = (f', w', m')"
      using "1.prems"(4) e fin by (simp add: retire.simps [of f w m])
    show ?thesis
      by (rule "1.IH" [OF e(1) _ step _ w eq]) (use fin True "1.prems"(2) in \<open>auto simp: less_Suc_eq\<close>)
  qed
qed

definition settled :: "ack_atom list \<Rightarrow> ack_state \<Rightarrow> bool" where
  "settled h st \<longleftrightarrow> agrees h st \<and> ack_frontier st = hist_frontier h"

lemma ack_publish_fields:
  assumes "retire (ack_frontier st) (ack_watermark st) (ack_map st) = (f, w, m)"
  shows "ack_frontier (ack_publish st) = f" "ack_watermark (ack_publish st) = w"
    "ack_map (ack_publish st) = m" "ack_registered (ack_publish st) = ack_registered st"
    "ack_trailing (ack_publish st) = ack_trailing st" "ack_wedged (ack_publish st) = ack_wedged st"
    "ack_fatal (ack_publish st) = ack_fatal st" "ack_late (ack_publish st) = ack_late st"
    "monotone_get (ack_emitter (ack_publish st)) = max (monotone_get (ack_emitter st))
       (Pos (if f = ack_registered st then max w (ack_trailing st) else w))"
    "monotone_get (ack_frontier_cell (ack_publish st)) = max (monotone_get (ack_frontier_cell st)) f"
  using assms by (simp_all add: ack_publish_def Let_def joined.get_join ack_all_done_def)

lemma ack_publish_settles:
  assumes "agrees h st"
  shows "settled h (ack_publish st)"
    and "monotone_get (ack_emitter (ack_publish st)) = max (monotone_get (ack_emitter st)) (Pos (hist_publish h))"
    and "monotone_get (ack_frontier_cell (ack_publish st)) = max (monotone_get (ack_frontier_cell st)) (hist_frontier h)"
proof -
  obtain f w m where r: "retire (ack_frontier st) (ack_watermark st) (ack_map st) = (f, w, m)"
    by (metis prod_cases3)
  note fields = ack_publish_fields [OF r]
  have "map_agrees h f m \<and> f = hist_frontier h \<and> w = published_below h f"
    by (rule retire_agrees [OF _ _ _ r]) (use assms in \<open>simp_all add: agrees_def\<close>)
  then have post: "map_agrees h f m" "f = hist_frontier h" "w = published_below h f" by blast+
  from assms post show "settled h (ack_publish st)"
    unfolding settled_def agrees_def fields by (auto dest: hist_frontier_below)
  from assms post
  show "monotone_get (ack_emitter (ack_publish st)) = max (monotone_get (ack_emitter st)) (Pos (hist_publish h))"
    unfolding fields by (simp add: hist_publish_def agrees_def)
  from post
  show "monotone_get (ack_frontier_cell (ack_publish st)) = max (monotone_get (ack_frontier_cell st)) (hist_frontier h)"
    unfolding fields by simp
qed

lemma ack_open_seq_cells [simp]:
  "ack_emitter (ack_wedge s w st) = ack_emitter st"
  "ack_emitter (ack_open_seq s l p st) = ack_emitter st"
  "ack_emitter (ack_step s f st) = ack_emitter st"
  "ack_frontier_cell (ack_wedge s w st) = ack_frontier_cell st"
  "ack_frontier_cell (ack_open_seq s l p st) = ack_frontier_cell st"
  "ack_frontier_cell (ack_step s f st) = ack_frontier_cell st"
  by (simp_all add: ack_wedge_def ack_open_seq_def ack_step_def ack_absent_def Let_def
      split: option.splits sum.splits seq_fault.splits)

lemma ack_atoms_cells [simp]:
  "ack_emitter (fold atom_step k st) = ack_emitter st"
  "ack_frontier_cell (fold atom_step k st) = ack_frontier_cell st"
proof -
  have "ack_emitter (atom_step a st) = ack_emitter st \<and>
        ack_frontier_cell (atom_step a st) = ack_frontier_cell st" for a st
    by (cases a) simp_all
  then show "ack_emitter (fold atom_step k st) = ack_emitter st"
    "ack_frontier_cell (fold atom_step k st) = ack_frontier_cell st"
    by (induction k arbitrary: st) simp_all
qed

lemma ack_apply_settles:
  assumes "settled h st" "hist_ok (h @ atoms ev)"
  shows "settled (h @ atoms ev) (ack_apply ev st)"
    and "monotone_get (ack_emitter (ack_apply ev st)) =
         max (monotone_get (ack_emitter st)) (Pos (hist_publish (h @ atoms ev)))"
    and "monotone_get (ack_frontier_cell (ack_apply ev st)) =
         max (monotone_get (ack_frontier_cell st)) (hist_frontier (h @ atoms ev))"
proof -
  have "agrees (h @ atoms ev) (ack_step_event ev st)"
    using agrees_atoms assms by (simp add: settled_def ack_step_event_atoms)
  from ack_publish_settles [OF this]
  show "settled (h @ atoms ev) (ack_apply ev st)"
    "monotone_get (ack_emitter (ack_apply ev st)) =
         max (monotone_get (ack_emitter st)) (Pos (hist_publish (h @ atoms ev)))"
    "monotone_get (ack_frontier_cell (ack_apply ev st)) =
         max (monotone_get (ack_frontier_cell st)) (hist_frontier (h @ atoms ev))"
    by (simp_all add: ack_apply_def ack_step_event_atoms)
qed

section \<open>Whole runs\<close>

lemma history_snoc: "history (evs @ [ev]) = history evs @ atoms ev"
  by (simp add: history_def)

lemma history_take: "\<exists>k. history evs = history (take i evs) @ k"
  by (metis append_take_drop_id concat_append history_def map_append)

lemma ack_run_snoc: "ack_run (evs @ [ev]) st = ack_apply ev (ack_run evs st)"
  by (simp add: ack_run_def)

lemma hist_ok_Nil [simp]: "hist_ok []"
  by (simp add: hist_ok_def)

lemma hist_frontier_Nil: "hist_frontier [] = 0"
  by (rule hist_frontier_eq) (simp_all add: seq_done_def)

lemma settled_new: "settled [] (ack_new cell fatal)"
  using agrees_new [of cell fatal] by (simp add: settled_def hist_frontier_Nil ack_new_def)

lemma ack_run_settled: "hist_ok (history evs) \<Longrightarrow> settled (history evs) (ack_run evs (ack_new cell fatal))"
proof (induction evs rule: rev_induct)
  case Nil
  then show ?case using settled_new by (simp add: ack_run_def history_def)
next
  case (snoc ev evs)
  then have "settled (history evs) (ack_run evs (ack_new cell fatal))"
    by (auto simp: history_snoc dest: hist_ok_prefix)
  from ack_apply_settles(1) [OF this, of ev] snoc.prems show ?case
    by (simp add: history_snoc ack_run_snoc)
qed

lemma ack_run_emitter:
  "hist_ok (history evs) \<Longrightarrow>
   monotone_get (ack_emitter (ack_run evs (ack_new cell fatal))) =
     fold max (map (\<lambda>i. Pos (hist_publish (history (take (Suc i) evs)))) [0..<length evs])
       (monotone_get cell)"
proof (induction evs rule: rev_induct)
  case Nil
  then show ?case by (simp add: ack_run_def ack_new_def)
next
  case (snoc ev evs)
  then have ok: "hist_ok (history evs)" by (auto simp: history_snoc dest: hist_ok_prefix)
  have eq: "map (\<lambda>i. Pos (hist_publish (history (take (Suc i) (evs @ [ev]))))) [0..<length (evs @ [ev])]
      = map (\<lambda>i. Pos (hist_publish (history (take (Suc i) evs)))) [0..<length evs]
        @ [Pos (hist_publish (history evs @ atoms ev))]"
    by (rule nth_equalityI) (auto simp: nth_append history_snoc less_Suc_eq)
  show ?case
    unfolding eq ack_run_snoc
    using snoc.IH [OF ok] ack_apply_settles(2) [OF ack_run_settled [OF ok], of ev cell fatal] snoc.prems
    by (simp add: history_snoc max.commute)
qed

lemma fold_max_cases: "fold max xs a = a \<or> fold max xs (a :: 'b::linorder) \<in> set xs"
proof (induction xs arbitrary: a)
  case (Cons x xs)
  show ?case using Cons [of "max x a"] by (auto simp: max_def split: if_splits)
qed simp

lemma fold_max_ge: "x \<in> set xs \<Longrightarrow> x \<le> fold max xs (a :: 'b::linorder)"
  and fold_max_base: "a \<le> fold max xs (a :: 'b::linorder)"
proof -
  show base: "a \<le> fold max xs a" for xs and a :: 'b
    by (induction xs arbitrary: a) (auto intro: order_trans [OF max.cobounded2])
  show "x \<in> set xs \<Longrightarrow> x \<le> fold max xs a"
    by (induction xs arbitrary: a) (auto intro: order_trans [OF max.cobounded1 base])
qed

section \<open>Commit order\<close>

text \<open>What the dispatcher guarantees on top of the protocol: sequence numbers are registered
  densely and in order, and a slice is registered with a commit position above every
  publishing slice and every trailing position announced before it.\<close>

fun commit_order :: "ack_atom list \<Rightarrow> ack_atom \<Rightarrow> bool" where
  "commit_order h (AReg s l p) \<longleftrightarrow> s = hist_registered h \<and> hist_trailing h < l \<and>
     list_all (\<lambda>q. case hist_reg h q of Some (l', True) \<Rightarrow> l' < l | _ \<Rightarrow> True) [0..<s]"
| "commit_order h _ \<longleftrightarrow> True"

lemma dense_registered:
  "along commit_order h \<Longrightarrow> q < hist_registered h \<Longrightarrow> hist_reg h q \<noteq> None"
proof (induction h rule: rev_induct)
  case (snoc a h)
  then show ?case
    by (cases a) (fastforce simp: hist_append max_def less_Suc_eq option.case_eq_if split: if_splits)+
qed simp

lemma hist_reg_split:
  "hist_reg h s = Some (l, p) \<Longrightarrow> \<exists>ha hb. h = ha @ AReg s l p # hb \<and> hist_reg ha s = None"
proof (induction h rule: rev_induct)
  case (snoc a h)
  show ?case
  proof (cases "hist_reg h s")
    case None
    with snoc.prems have "a = AReg s l p" by (cases a) (auto simp: hist_append split: if_splits)
    with None show ?thesis by (intro exI [of _ h] exI [of _ "[]"]) simp
  next
    case (Some x)
    with snoc.prems have "hist_reg h s = Some (l, p)" by (simp add: hist_append)
    then obtain ha hb where "h = ha @ AReg s l p # hb" "hist_reg ha s = None" using snoc.IH by blast
    then show ?thesis by (intro exI [of _ ha] exI [of _ "hb @ [a]"]) simp
  qed
qed simp

lemma registered_in_order:
  assumes "along commit_order h" "h = ha @ AReg s l p # hb" "q < s"
    and "hist_reg h q = Some (l', True)"
  shows "l' < l"
proof -
  have co: "commit_order ha (AReg s l p)" using assms(1) unfolding assms(2) by (rule along_split)
  have "along commit_order ha" using assms(1) unfolding assms(2) by (rule along_prefix)
  with co assms(3) have "hist_reg ha q \<noteq> None" by (intro dense_registered) simp_all
  then have "hist_reg ha q = Some (l', True)" using assms(2,4) by (auto simp: hist_append)
  with co assms(3) show ?thesis by (force simp: list_all_iff)
qed

text \<open>What a prefix of the history publishes stays below the commit position of every slice the
  whole history leaves unfinished.\<close>

lemma publish_below_incomplete:
  assumes ok: "hist_ok h" and co: "along commit_order h" and reg: "hist_reg h s = Some (l, p)"
    and open_seq: "\<not> seq_done h s" and h: "h = h1 @ h2"
  shows "hist_publish h1 < l"
proof -
  obtain ha hb where split: "h = ha @ AReg s l p # hb" "hist_reg ha s = None"
    using hist_reg_split [OF reg] by blast
  have co_s: "commit_order ha (AReg s l p)" using co unfolding split(1) by (rule along_split)
  then have pos: "0 < l" by (auto intro: le_less_trans [of 0 "hist_trailing ha"])
  have "hist_frontier h1 \<le> s"
    using open_seq ok h seq_done_append by (intro hist_frontier_le) blast
  have lt: "l' < l" if "q < hist_frontier h1" "hist_reg h1 q = Some (l', True)" for q l'
    by (rule registered_in_order [OF co split(1), of q])
      (use that \<open>hist_frontier h1 \<le> s\<close> h in \<open>simp_all add: hist_append\<close>)
  then have below: "published_below h1 (hist_frontier h1) < l"
    using published_below_cases [of h1 "hist_frontier h1"] pos by fastforce
  show ?thesis
  proof (cases "hist_frontier h1 = hist_registered h1")
    case False
    with below show ?thesis by (simp add: hist_publish_def)
  next
    case True
    have un: "hist_reg h1 s = None"
      using hist_reg_registered [of h1 s] True \<open>hist_frontier h1 \<le> s\<close> by (cases "hist_reg h1 s") auto
    have "length h1 \<le> length ha"
    proof (rule ccontr)
      assume "\<not> length h1 \<le> length ha"
      then obtain k where "h1 = ha @ AReg s l p # k"
        using h split(1) by (auto simp: append_eq_append_conv2 Cons_eq_append_conv)
      with un show False by (simp add: hist_append split: option.splits)
    qed
    then obtain k where "ha = h1 @ k"
      using h split(1) by (auto simp: append_eq_append_conv2)
    then have "hist_trailing h1 < l" using co_s by (auto simp: hist_append)
    with below True show ?thesis by (simp add: hist_publish_def)
  qed
qed

lemma ack_run_below_incomplete:
  assumes "hist_ok (history evs)" "along commit_order (history evs)"
    and "hist_reg (history evs) s = Some (l, p)" "\<not> seq_done (history evs) s"
  shows "let e = monotone_get (ack_emitter (ack_run evs (ack_new cell fatal)))
         in e = monotone_get cell \<or> pos_get e < l"
proof -
  have "hist_publish (history (take i evs)) < l" for i
    using history_take [of evs i] publish_below_incomplete [OF assms] by blast
  then show ?thesis
    using fold_max_cases [of "map (\<lambda>i. Pos (hist_publish (history (take (Suc i) evs)))) [0..<length evs]"
        "monotone_get cell"]
    by (auto simp: ack_run_emitter [OF assms(1)] Let_def)
qed

lemma ack_run_all_done:
  assumes "hist_ok (history evs)" "evs \<noteq> []"
    and "\<forall>s < hist_registered (history evs). seq_done (history evs) s"
  shows "let st = ack_run evs (ack_new cell fatal); e = monotone_get (ack_emitter st) in
     snapshot_all_done (ack_probe st) \<and>
     hist_registered (history evs) \<le> monotone_get (ack_frontier_cell st) \<and>
     Pos (hist_trailing (history evs)) \<le> e \<and>
     (\<forall>s l. hist_reg (history evs) s = Some (l, True) \<longrightarrow> Pos l \<le> e)"
proof -
  obtain pre ev where evs: "evs = pre @ [ev]" using assms(2) by (cases evs rule: rev_cases) auto
  define st where "st = ack_run pre (ack_new cell fatal)"
  let ?h = "history evs"
  have pre: "settled (history pre) st" and ok: "hist_ok (history pre @ atoms ev)"
    using assms(1) ack_run_settled hist_ok_prefix by (auto simp: st_def evs history_snoc)
  note app = ack_apply_settles [OF pre ok]
  have frontier: "hist_frontier ?h = hist_registered ?h"
    using assms(3) not_done_unregistered by (intro hist_frontier_eq) simp_all
  have pub: "hist_publish ?h = max (published_below ?h (hist_frontier ?h)) (hist_trailing ?h)"
    by (simp add: hist_publish_def frontier)
  have "snapshot_all_done (ack_probe (ack_apply ev st))"
    using app(1) frontier
    by (simp add: ack_apply_def ack_publish_def Let_def snapshot_all_done_def ack_take_snapshot_def
        ack_oldest_incomplete_def ack_all_done_def settled_def agrees_def evs history_snoc
        split: prod.splits)
  moreover have "Pos l \<le> monotone_get (ack_emitter (ack_apply ev st))"
    if "hist_reg ?h s = Some (l, True)" for s l
  proof -
    have "l \<le> published_below ?h (hist_frontier ?h)"
      using that hist_reg_registered [of ?h s] by (intro published_below_ge [of s]) (simp_all add: frontier)
    then show ?thesis using app(2) pub by (simp add: evs history_snoc le_max_iff_disj)
  qed
  ultimately show ?thesis
    using app(2,3) pub frontier
    by (simp add: st_def [symmetric] evs ack_run_snoc history_snoc Let_def le_max_iff_disj)
qed

section \<open>Properties of the collector\<close>

text \<open>
  C2: the published position never covers unfinished work. Under the producers' protocol and the
  commit order of the dispatcher, for every slice that is registered and not finished, the
  position the collector has published is either the one it started from or strictly below
  the commit position of that slice. Restarting from the published position therefore
  replays the slice.
\<close>
theorem ack_never_passes_incomplete:
  assumes "hist_ok (history evs)" "along commit_order (history evs)"
    and "hist_reg (history evs) s = Some (l, p)" "\<not> seq_done (history evs) s"
  shows "let e = monotone_get (ack_emitter (ack_run evs (ack_new cell fatal)))
         in e = monotone_get cell \<or> pos_get e < l"
  using assms by (rule ack_run_below_incomplete)

definition ack_demo :: "ack_event list" where
  "ack_demo = [Batch [Register 0 10 False, Register 1 10 True, Register 2 20 True],
     Placed 0 2, Acked [(0, 1)], Placed 1 0, Placed 2 1, Acked [(2, 1), (0, 1)],
     Register 3 30 True, Trailing 35]"

theorem ack_never_passes_incomplete_witness:
  "hist_ok (history ack_demo) \<and> along commit_order (history ack_demo) \<and>
   hist_reg (history ack_demo) 3 = Some (30, True) \<and> \<not> seq_done (history ack_demo) 3 \<and>
   (let e = monotone_get (ack_emitter (ack_run ack_demo (ack_new (monotone_new (Pos 5)) None)))
    in e = Pos 5 \<or> pos_get e < 30) \<and>
   monotone_get (ack_emitter (ack_run ack_demo (ack_new (monotone_new (Pos 5)) None))) = Pos 20"
proof -
  have h: "hist_ok (history ack_demo)" "along commit_order (history ack_demo)"
    "hist_reg (history ack_demo) 3 = Some (30, True)" "\<not> seq_done (history ack_demo) 3"
    by code_simp+
  moreover have "monotone_get (ack_emitter (ack_run ack_demo (ack_new (monotone_new (Pos 5)) None))) = Pos 20"
    by code_simp
  ultimately show ?thesis
    using ack_never_passes_incomplete [OF h, of "monotone_new (Pos 5)" None] by simp
qed

text \<open>
  C3: the collector implements the reference. Whatever the order in which slices are placed and
  acknowledged, the incremental state (hash map, frontier and running watermark) and the two
  published cells are those recomputed from the complete history: the frontier is the first
  unfinished sequence number, the emitter position is the join of what every prefix
  publishes, and nothing is reported as a fault.
\<close>
theorem ack_run_refines:
  assumes "hist_ok (history evs)"
  shows "let st = ack_run evs (ack_new cell fatal); h = history evs in
     ack_frontier st = hist_frontier h \<and>
     ack_watermark st = published_below h (hist_frontier h) \<and>
     ack_wedged st = 0 \<and>
     (\<forall>s. hm_get (ack_map st) s = (if s < hist_frontier h then None else entry_of h s)) \<and>
     monotone_get (ack_emitter st) =
       fold max (map (\<lambda>i. Pos (hist_publish (history (take (Suc i) evs)))) [0..<length evs])
         (monotone_get cell)"
  using ack_run_settled [OF assms, of cell fatal] ack_run_emitter [OF assms, of cell fatal]
  by (auto simp: settled_def agrees_def map_agrees_def Let_def)

theorem ack_run_refines_witness:
  "hist_ok (history ack_demo) \<and>
   ack_frontier (ack_run ack_demo (ack_new (monotone_new (Pos 5)) None)) = hist_frontier (history ack_demo)"
proof -
  have h: "hist_ok (history ack_demo)" by code_simp
  with ack_run_refines [OF h, of "monotone_new (Pos 5)" None] show ?thesis by (simp add: Let_def)
qed

text \<open>
  C6: progress. When every registered slice of the history is finished, the probe reports that
  nothing is outstanding, a waiter on the whole registered prefix is released, and the
  published position covers the commit position of every publishing slice and every trailing
  position.
\<close>
theorem ack_run_complete:
  assumes "hist_ok (history evs)" "evs \<noteq> []"
    and "\<forall>s < hist_registered (history evs). seq_done (history evs) s"
  shows "let st = ack_run evs (ack_new cell fatal); e = monotone_get (ack_emitter st) in
     snapshot_all_done (ack_probe st) \<and>
     hist_registered (history evs) \<le> monotone_get (ack_frontier_cell st) \<and>
     Pos (hist_trailing (history evs)) \<le> e \<and>
     (\<forall>s l. hist_reg (history evs) s = Some (l, True) \<longrightarrow> Pos l \<le> e)"
  using assms by (rule ack_run_all_done)

theorem ack_run_complete_witness:
  "let evs = take 6 ack_demo @ [Trailing 35] in
   hist_ok (history evs) \<and> (\<forall>s < hist_registered (history evs). seq_done (history evs) s) \<and>
   Pos (hist_trailing (history evs)) \<le>
     monotone_get (ack_emitter (ack_run evs (ack_new (monotone_new (Pos 5)) None)))"
proof -
  let ?evs = "take 6 ack_demo @ [Trailing 35]"
  have h: "hist_ok (history ?evs)" by code_simp
  have d: "\<forall>s < hist_registered (history ?evs). seq_done (history ?evs) s" by code_simp
  from ack_run_complete [OF h _ d, of "monotone_new (Pos 5)" None] h d show ?thesis
    by (simp only: Let_def) simp
qed

text \<open>
  C7: protocol violations are caught. From a state that agrees with its history, an event that
  breaks the protocol on a sequence number not yet retired leaves the map, the frontier and the
  watermark as they were, counts one wedge and makes the run fatal. On a retired sequence
  number, a placement or acknowledgement is only counted as late.
\<close>
theorem ack_violation_wedges:
  assumes "settled h st" "\<not> atom_ok h a"
  shows "let st' = atom_step a st in
     ack_map st' = ack_map st \<and> ack_frontier st' = ack_frontier st \<and>
     ack_watermark st' = ack_watermark st \<and>
     (case a of
        AReg s l p \<Rightarrow> ack_wedged st' = 1 \<and> ack_fatal st' \<noteq> None
      | APlace s n \<Rightarrow> if s < hist_frontier h then ack_wedged st' = 0 \<and> ack_late st' = Suc (ack_late st)
                     else ack_wedged st' = 1 \<and> ack_fatal st' \<noteq> None
      | AAck s n \<Rightarrow> if s < hist_frontier h then ack_wedged st' = 0 \<and> ack_late st' = Suc (ack_late st)
                   else ack_wedged st' = 1 \<and> ack_fatal st' \<noteq> None
      | ATrail l \<Rightarrow> False)"
proof (cases a)
  case (AReg s l p)
  with assms show ?thesis
    by (auto simp: settled_def agrees_def map_agrees_def entry_of_def ack_open_seq_def ack_wedge_def
        fatal_set_def Let_def split: option.splits)
next
  case (APlace s n)
  with assms show ?thesis
    by (auto simp: settled_def agrees_def map_agrees_def entry_of_def ack_step_def ack_absent_def
        ack_wedge_def progress_place_def fatal_set_def Let_def split: option.splits)
next
  case (AAck s n)
  with assms show ?thesis
    by (auto simp: settled_def agrees_def map_agrees_def entry_of_def ack_step_def ack_absent_def
        ack_wedge_def progress_ack_def fatal_set_def Let_def split: option.splits)
qed (use assms in simp)

theorem ack_violation_wedges_witness:
  "\<not> atom_ok [] (APlace 7 1) \<and> settled [] (ack_new (monotone_new (Pos 5)) None) \<and>
   ack_wedged (atom_step (APlace 7 1) (ack_new (monotone_new (Pos 5)) None)) = 1"
proof -
  have v: "\<not> atom_ok [] (APlace 7 1)" by simp
  from ack_violation_wedges [OF settled_new v, of "monotone_new (Pos 5)" None] v settled_new
  show ?thesis by (simp add: Let_def hist_frontier_Nil)
qed

end
