(* ===== verification/Outbox.thy ===== *)
theory Outbox
  imports Ack_Spec
begin

text \<open>
  Row placement (\<open>src/src/emit/pipeline/decode.rs\<close>) and the outbox of the reorder stage
  (\<open>Outbox\<close> and \<open>dispatch_planned\<close> in \<open>src/src/emit/pipeline/reorder.rs\<close>). A planned
  slice opens a sequence number, its rows are cut into chunks and staged, and \<open>ship\<close> sends
  held registrations, then the staged rows, then held placements. The collector's channel is
  the \<open>alloc_sent\<close> list of the allocator; every batch sent to the batcher is stamped
  with the number of collector events sent before it, so the interleaving of the two channels
  is visible. Proved: what the outbox sends meets the protocol the collector relies on.
\<close>

section \<open>Row placement\<close>

text \<open>A routed heap, reduced to what placement reads: whether it has a route, whether the route
  drops deletes, whether the operation is a delete, its charged bytes, whether
  \<open>take_key_change_tombstone\<close> splits off a tombstone, and the tuple itself.\<close>

record 'r routed_heap =
  rh_routed :: bool
  rh_drops_deletes :: bool
  rh_is_delete :: bool
  rh_bytes :: nat
  rh_key_change :: bool
  rh_tuple :: 'r

datatype 'r routed_row = RoutedRow (row_seq: nat) (row_tomb: bool) (row_tuple: 'r)

type_synonym 'r row_chunk = "'r routed_row list"

definition DECODE_CHUNK_BYTES :: nat where
  "DECODE_CHUNK_BYTES = 4 * 2 ^ 20"

definition rows_of_heap :: "bool \<Rightarrow> nat \<Rightarrow> 'r routed_heap \<Rightarrow> 'r routed_row list" where
  "rows_of_heap snowflake seq h =
     (if \<not> rh_routed h then []
      else if \<not> snowflake \<and> rh_drops_deletes h \<and> rh_is_delete h then []
      else (if \<not> snowflake \<and> \<not> rh_drops_deletes h \<and> rh_key_change h
            then [RoutedRow seq True (rh_tuple h)] else [])
           @ [RoutedRow seq False (rh_tuple h)])"

fun place_loop :: "nat \<Rightarrow> bool \<Rightarrow> nat \<Rightarrow> 'r routed_heap list \<Rightarrow> 'r row_chunk \<Rightarrow> nat \<Rightarrow> nat \<Rightarrow>
    'r row_chunk list \<Rightarrow> 'r row_chunk list \<times> nat" where
  "place_loop chunk_rows snowflake seq [] buf buf_bytes routed staged =
     (if buf \<noteq> [] then staged @ [buf] else staged, routed)"
| "place_loop chunk_rows snowflake seq (h # heaps) buf buf_bytes routed staged =
     (if rows_of_heap snowflake seq h = []
      then place_loop chunk_rows snowflake seq heaps buf buf_bytes routed staged
      else
        let rows = rows_of_heap snowflake seq h;
            buf = buf @ rows;
            buf_bytes = buf_bytes + rh_bytes h;
            routed = routed + length rows
        in if chunk_rows \<le> length buf \<or> DECODE_CHUNK_BYTES \<le> buf_bytes
           then place_loop chunk_rows snowflake seq heaps [] 0 routed (staged @ [buf])
           else place_loop chunk_rows snowflake seq heaps buf buf_bytes routed staged)"

definition place_rows :: "nat \<Rightarrow> bool \<Rightarrow> nat \<Rightarrow> 'r routed_heap list \<Rightarrow> 'r row_chunk list \<Rightarrow>
    'r row_chunk list \<times> nat" where
  "place_rows chunk_rows snowflake seq heaps staged =
     place_loop chunk_rows snowflake seq heaps [] 0 0 staged"

lemma place_loop_rows:
  "place_loop c sf s heaps buf bb n staged = (staged', n') \<Longrightarrow>
   concat staged' = concat staged @ buf @ concat (map (rows_of_heap sf s) heaps) \<and>
   n' = n + length (concat (map (rows_of_heap sf s) heaps))"
proof (induction c sf s heaps buf bb n staged rule: place_loop.induct)
  case (2 c sf s h heaps buf bb n staged)
  then show ?case by (auto simp: Let_def split: if_splits)
qed (auto split: if_splits)

lemma place_rows_concat:
  "place_rows c sf s heaps staged = (staged', n) \<Longrightarrow>
   concat staged' = concat staged @ concat (map (rows_of_heap sf s) heaps) \<and>
   n = length (concat (map (rows_of_heap sf s) heaps))"
  unfolding place_rows_def by (drule place_loop_rows) simp

lemma rows_of_heap_seq: "r \<in> set (rows_of_heap sf s h) \<Longrightarrow> row_seq r = s"
  by (auto simp: rows_of_heap_def split: if_splits)

section \<open>The outbox\<close>

record 'r outbox =
  ob_seqs :: seq_alloc
  ob_staged :: "'r row_chunk list"
  ob_staged_rows :: nat
  ob_staged_bytes :: nat
  ob_chunks :: "(nat \<times> 'r row_chunk list) list"

definition outbox_new :: "'r outbox" where
  "outbox_new = \<lparr>ob_seqs = alloc_with_held (alloc_new 0), ob_staged = [], ob_staged_rows = 0,
     ob_staged_bytes = 0, ob_chunks = []\<rparr>"

text \<open>\<open>ship\<close>: the boolean argument says whether the batcher channel accepts the staged rows
  (it does not when the pipeline turned fatal or the channel is closed); the boolean of the
  result is \<open>Ok\<close>.\<close>

definition ship :: "bool \<Rightarrow> 'r outbox \<Rightarrow> 'r outbox \<times> bool" where
  "ship accepts ob =
     (let ob = ob\<lparr>ob_seqs := send_registered (ob_seqs ob)\<rparr> in
      if ob_staged ob = [] then (ob\<lparr>ob_seqs := send_placed (ob_seqs ob)\<rparr>, True)
      else
        let chunks = ob_staged ob;
            ob = ob\<lparr>ob_staged := [], ob_staged_rows := 0, ob_staged_bytes := 0\<rparr>
        in if \<not> accepts then (ob, False)
           else
             let ob = ob\<lparr>ob_chunks := ob_chunks ob @ [(length (alloc_sent (ob_seqs ob)), chunks)]\<rparr>
             in (ob\<lparr>ob_seqs := send_placed (ob_seqs ob)\<rparr>, True))"

text \<open>\<open>dispatch_planned\<close> after admission: open a sequence number, place the rows, hold the
  placement, ship once the staged rows or bytes reach a worker batch.\<close>

definition dispatch_planned :: "nat \<Rightarrow> bool \<Rightarrow> bool \<Rightarrow> u64 \<Rightarrow> publish_kind \<Rightarrow> nat \<Rightarrow>
    'r routed_heap list \<Rightarrow> 'r outbox \<Rightarrow> 'r outbox \<times> bool" where
  "dispatch_planned chunk_rows snowflake accepts commit_lsn publish bytes heaps ob =
     (if heaps = [] then (ob, True)
      else
        let (seqs, seq) = alloc_open commit_lsn publish (ob_seqs ob);
            (staged, rows) = place_rows chunk_rows snowflake seq heaps (ob_staged ob);
            ob = ob\<lparr>ob_seqs := alloc_place seq rows seqs, ob_staged := staged,
                    ob_staged_rows := ob_staged_rows ob + rows,
                    ob_staged_bytes := ob_staged_bytes ob + bytes\<rparr>
        in if chunk_rows \<le> ob_staged_rows ob \<or> DECODE_CHUNK_BYTES \<le> ob_staged_bytes ob
           then ship accepts ob else (ob, True))"

text \<open>The uses the reorder stage makes of its outbox: a planned slice, a marker (a commit with
  no publishing slice, and an abort), and a ship at the end of a batch of records or
  before a barrier.\<close>

datatype 'r outbox_op =
    Dispatch nat bool bool u64 publish_kind nat "'r routed_heap list"
  | Mark u64
  | Ship bool

fun outbox_step :: "'r outbox_op \<Rightarrow> 'r outbox \<Rightarrow> 'r outbox \<times> bool" where
  "outbox_step (Dispatch c sf acc l p bytes heaps) ob = dispatch_planned c sf acc l p bytes heaps ob"
| "outbox_step (Mark l) ob = (ob\<lparr>ob_seqs := alloc_mark l (ob_seqs ob)\<rparr>, True)"
| "outbox_step (Ship acc) ob = ship acc ob"

fun outbox_run :: "'r outbox_op list \<Rightarrow> 'r outbox \<Rightarrow> 'r outbox \<times> bool" where
  "outbox_run [] ob = (ob, True)"
| "outbox_run (op # ops) ob =
     (let (ob, ok) = outbox_step op ob in if ok then outbox_run ops ob else (ob, False))"

section \<open>What the outbox has promised\<close>

fun regs_from :: "nat \<Rightarrow> ack_event list \<Rightarrow> bool" where
  "regs_from r [] \<longleftrightarrow> True"
| "regs_from r (Register s l p # evs) \<longleftrightarrow> s = r \<and> regs_from (Suc r) evs"
| "regs_from r (_ # evs) \<longleftrightarrow> False"

fun event_places :: "ack_event \<Rightarrow> (nat \<times> nat) list" where
  "event_places (Placed s n) = [(s, n)]"
| "event_places (Batch evs) = concat (map event_places evs)"
| "event_places _ = []"

definition places :: "ack_event list \<Rightarrow> (nat \<times> nat) list" where
  "places evs = concat (map event_places evs)"

definition seq_rows :: "'r row_chunk list \<Rightarrow> nat \<Rightarrow> nat" where
  "seq_rows chunks s = length (filter (\<lambda>r. row_seq r = s) (concat chunks))"

definition rows_before :: "nat \<Rightarrow> (nat \<times> 'r row_chunk list) list \<Rightarrow> nat \<Rightarrow> nat" where
  "rows_before j sends s = sum_list (map (\<lambda>(k, chunks). if k < j then seq_rows chunks s else 0) sends)"

lemma regs_from_append: "regs_from r (xs @ ys) \<longleftrightarrow> regs_from r xs \<and> regs_from (r + length xs) ys"
  by (induction r xs rule: regs_from.induct) auto

lemma places_simps [simp]: "places [] = []" "places (ev # evs) = event_places ev @ places evs"
  "places (xs @ ys) = places xs @ places ys" "event_places (Batch evs) = places evs"
  by (simp_all add: places_def)

declare event_places.simps(2) [simp del]

lemma seq_rows_simps [simp]: "seq_rows [] s = 0" "seq_rows (xs @ ys) s = seq_rows xs s + seq_rows ys s"
  by (simp_all add: seq_rows_def)

lemma rows_before_simps [simp]:
  "rows_before j [] s = 0"
  "rows_before j (xs @ ys) s = rows_before j xs s + rows_before j ys s"
  "rows_before j [(k, c)] s = (if k < j then seq_rows c s else 0)"
  by (simp_all add: rows_before_def)

lemma regs_history: "regs_from r evs \<Longrightarrow> places evs = [] \<and> history evs = concat (map atoms evs)"
  by (induction r evs rule: regs_from.induct) (auto simp: history_def)

text \<open>Sending a run of registrations, or of placements, extends a correct history.\<close>

definition reg_upto :: "ack_atom list \<Rightarrow> nat \<Rightarrow> bool" where
  "reg_upto h r \<longleftrightarrow> hist_ok h \<and> hist_registered h = r \<and>
     (\<forall>s. hist_reg h s = None \<longleftrightarrow> r \<le> s) \<and> (\<forall>s. hist_acked h s = 0)"

lemma reg_upto_regs:
  "reg_upto h r \<Longrightarrow> regs_from r evs \<Longrightarrow>
   reg_upto (h @ history evs) (r + length evs) \<and> (\<forall>s. hist_rows (h @ history evs) s = hist_rows h s)"
proof (induction r evs arbitrary: h rule: regs_from.induct)
  case (2 r s l p evs)
  have "reg_upto (h @ [AReg r l p]) (Suc r)"
    using "2.prems"(1) by (auto simp: reg_upto_def hist_append max_def option.case_eq_if)
  moreover have "hist_rows (h @ [AReg r l p]) = hist_rows h"
    by (auto simp: hist_append fun_eq_iff split: option.splits)
  ultimately show ?case using "2.IH" [of "h @ [AReg r l p]"] "2.prems" by (simp add: history_def)
qed (auto simp: history_def)

lemma reg_upto_places:
  assumes "reg_upto h r" "\<forall>ev \<in> set evs. \<exists>s n. ev = Placed s n"
    "distinct (map fst (places evs))" "\<forall>(s, n) \<in> set (places evs). s < r \<and> hist_rows h s = None"
  shows "reg_upto (h @ history evs) r \<and>
     (\<forall>s. hist_rows (h @ history evs) s =
        (case hist_rows h s of None \<Rightarrow> map_of (places evs) s | Some n \<Rightarrow> Some n))"
  using assms
proof (induction evs arbitrary: h)
  case Nil
  then show ?case by (auto simp: history_def split: option.splits)
next
  case (Cons ev evs)
  then obtain s n where ev: "ev = Placed s n" by auto
  let ?h = "h @ [APlace s n]"
  have up: "reg_upto ?h r"
    using Cons.prems(1,4) by (auto simp: reg_upto_def hist_append ev option.case_eq_if)
  have rows: "hist_rows ?h q = (if q = s then Some n else hist_rows h q)" for q
    using Cons.prems(4) by (auto simp: hist_append ev split: option.splits)
  have "\<forall>(q, m) \<in> set (places evs). q < r \<and> hist_rows ?h q = None"
    using Cons.prems(3,4) by (force simp: ev rows)
  from Cons.IH [OF up _ _ this] Cons.prems show ?case
    by (auto simp: ev rows history_def split: option.splits if_splits)
qed

definition rows_total :: "(nat \<times> 'r row_chunk list) list \<Rightarrow> nat \<Rightarrow> nat" where
  "rows_total sends s = sum_list (map (\<lambda>(k, chunks). seq_rows chunks s) sends)"

lemma rows_total_simps [simp]: "rows_total [] s = 0"
  "rows_total (xs @ ys) s = rows_total xs s + rows_total ys s" "rows_total [(k, c)] s = seq_rows c s"
  by (simp_all add: rows_total_def)

lemma rows_before_le_total: "rows_before j sends s \<le> rows_total sends s"
  by (induction sends) (auto simp: rows_before_def rows_total_def)

lemma rows_before_mono: "i \<le> j \<Longrightarrow> rows_before i sends s \<le> rows_before j sends s"
  by (induction sends) (auto simp: rows_before_def)

lemma rows_before_total: "\<forall>(k, c) \<in> set sends. k < j \<Longrightarrow> rows_before j sends s = rows_total sends s"
  by (induction sends) (auto simp: rows_before_def rows_total_def)

text \<open>The allocator half of the invariant: registrations are sent and held in sequence order,
  every opened sequence number is placed exactly once, sent or held.\<close>

definition alloc_inv :: "seq_alloc \<Rightarrow> bool" where
  "alloc_inv a \<longleftrightarrow> (\<exists>regs plc r. alloc_held a = Some \<lparr>held_registered = regs, held_placed = plc\<rparr> \<and>
     reg_upto (history (alloc_sent a)) r \<and> regs_from r regs \<and> alloc_next a = r + length regs \<and>
     (\<forall>ev \<in> set plc. \<exists>s n. ev = Placed s n) \<and>
     map fst (places (alloc_sent a) @ places plc) = [0..<alloc_next a] \<and>
     (\<forall>s. hist_rows (history (alloc_sent a)) s = map_of (places (alloc_sent a)) s))"

definition alloc_places :: "seq_alloc \<Rightarrow> (nat \<times> nat) list" where
  "alloc_places a = places (alloc_sent a) @
     (case alloc_held a of None \<Rightarrow> [] | Some held \<Rightarrow> places (held_placed held))"

definition alloc_flushed :: "seq_alloc \<Rightarrow> bool" where
  "alloc_flushed a \<longleftrightarrow> (\<forall>s < alloc_next a. hist_reg (history (alloc_sent a)) s \<noteq> None)"

lemma history_append: "history (xs @ ys) = history xs @ history ys"
  by (simp add: history_def)

lemma history_Batch: "history [Batch evs] = history evs"
  by (simp add: history_def)

lemma alloc_inv_send_registered:
  assumes "alloc_inv a"
  shows "alloc_inv (send_registered a)" "alloc_flushed (send_registered a)"
    "alloc_places (send_registered a) = alloc_places a"
    "alloc_next (send_registered a) = alloc_next a"
    "map_option held_registered (alloc_held (send_registered a)) = Some []"
    "\<exists>evs. alloc_sent (send_registered a) = alloc_sent a @ evs \<and> length evs \<le> 1 \<and> places evs = []"
proof -
  obtain regs plc r where a: "alloc_held a = Some \<lparr>held_registered = regs, held_placed = plc\<rparr>"
    "reg_upto (history (alloc_sent a)) r" "regs_from r regs" "alloc_next a = r + length regs"
    "\<forall>ev \<in> set plc. \<exists>s n. ev = Placed s n"
    "map fst (places (alloc_sent a) @ places plc) = [0..<alloc_next a]"
    "\<forall>s. hist_rows (history (alloc_sent a)) s = map_of (places (alloc_sent a)) s"
    using assms by (auto simp: alloc_inv_def)
  let ?a = "send_registered a"
  let ?evs = "if regs = [] then [] else [Batch regs]"
  have sr: "?a = a\<lparr>alloc_held := Some \<lparr>held_registered = [], held_placed = plc\<rparr>,
      alloc_sent := alloc_sent a @ ?evs\<rparr>"
    using a(1) by (cases a) (auto simp: send_registered_def alloc_send_def)
  have evs: "history ?evs = history regs" "places ?evs = []"
    using regs_history [OF a(3)] by (auto simp: history_Batch history_def)
  have up: "reg_upto (history (alloc_sent a) @ history regs) (alloc_next a)"
    "\<forall>s. hist_rows (history (alloc_sent a) @ history regs) s = map_of (places (alloc_sent a)) s"
    using reg_upto_regs [OF a(2,3)] a(4,7) by simp_all
  show "alloc_inv ?a"
    unfolding alloc_inv_def sr
    by (intro exI [of _ "[]"] exI [of _ plc] exI [of _ "alloc_next a"])
      (use up a evs in \<open>simp add: history_append\<close>)
  show "alloc_flushed ?a" unfolding alloc_flushed_def sr
    using up(1) evs by (auto simp: reg_upto_def history_append)
  show "alloc_places ?a = alloc_places a" "alloc_next ?a = alloc_next a"
    "map_option held_registered (alloc_held ?a) = Some []"
    unfolding alloc_places_def sr using a(1) evs by simp_all
  show "\<exists>evs. alloc_sent ?a = alloc_sent a @ evs \<and> length evs \<le> 1 \<and> places evs = []"
    unfolding sr using evs by (intro exI [of _ ?evs]) simp
qed

lemma alloc_inv_send_placed:
  assumes "alloc_inv a" "map_option held_registered (alloc_held a) = Some []"
  shows "alloc_inv (send_placed a)" "alloc_places (send_placed a) = alloc_places a"
    "alloc_next (send_placed a) = alloc_next a"
    "\<exists>evs. alloc_sent (send_placed a) = alloc_sent a @ evs \<and> length evs \<le> 1 \<and>
       places (alloc_sent a @ evs) = alloc_places a"
proof -
  obtain plc where a: "alloc_held a = Some \<lparr>held_registered = [], held_placed = plc\<rparr>"
    "reg_upto (history (alloc_sent a)) (alloc_next a)"
    "\<forall>ev \<in> set plc. \<exists>s n. ev = Placed s n"
    "map fst (places (alloc_sent a) @ places plc) = [0..<alloc_next a]"
    "\<forall>s. hist_rows (history (alloc_sent a)) s = map_of (places (alloc_sent a)) s"
    using assms by (auto simp: alloc_inv_def)
  let ?a = "send_placed a"
  let ?evs = "if plc = [] then [] else [Batch plc]"
  have sp: "?a = a\<lparr>alloc_held := Some \<lparr>held_registered = [], held_placed = []\<rparr>,
      alloc_sent := alloc_sent a @ ?evs\<rparr>"
    using a(1) by (cases a) (auto simp: send_placed_def alloc_send_def)
  have evs: "history ?evs = history plc" "places ?evs = places plc"
    by (auto simp: history_Batch history_def)
  have dist: "distinct (map fst (places (alloc_sent a) @ places plc))" by (simp only: a(4) distinct_upt)
  have bound: "fst x < alloc_next a" if "x \<in> set (places plc)" for x
    using arg_cong [OF a(4), of set] that by auto
  have "\<forall>(s, n) \<in> set (places plc). s < alloc_next a \<and> hist_rows (history (alloc_sent a)) s = None"
    using dist bound by (force simp: a(5) map_of_eq_None_iff)
  from reg_upto_places [OF a(2,3) _ this] dist
  have up: "reg_upto (history (alloc_sent a) @ history plc) (alloc_next a)"
    "\<forall>s. hist_rows (history (alloc_sent a) @ history plc) s = map_of (places (alloc_sent a) @ places plc) s"
    by (auto simp: a(5) map_add_def split: option.splits)
  show "alloc_inv ?a"
    unfolding alloc_inv_def sp
    by (intro exI [of _ "[]"] exI [of _ "[]"] exI [of _ "alloc_next a"])
      (use up a evs in \<open>simp add: history_append\<close>)
  show "alloc_places ?a = alloc_places a" "alloc_next ?a = alloc_next a"
    unfolding alloc_places_def sp using a(1) evs by simp_all
  show "\<exists>evs. alloc_sent ?a = alloc_sent a @ evs \<and> length evs \<le> 1 \<and>
       places (alloc_sent a @ evs) = alloc_places a"
    unfolding sp using evs a(1) by (intro exI [of _ ?evs]) (simp add: alloc_places_def)
qed

lemma alloc_inv_open_place:
  assumes "alloc_inv a" "alloc_open l p a = (a', seq)"
  shows "seq = alloc_next a" "alloc_inv (alloc_place seq n a')"
    "alloc_sent (alloc_place seq n a') = alloc_sent a"
    "alloc_places (alloc_place seq n a') = alloc_places a @ [(seq, n)]"
    "alloc_next (alloc_place seq n a') = Suc (alloc_next a)"
proof -
  obtain regs plc r where a: "alloc_held a = Some \<lparr>held_registered = regs, held_placed = plc\<rparr>"
    "reg_upto (history (alloc_sent a)) r" "regs_from r regs" "alloc_next a = r + length regs"
    "\<forall>ev \<in> set plc. \<exists>s n. ev = Placed s n"
    "map fst (places (alloc_sent a) @ places plc) = [0..<alloc_next a]"
    "\<forall>s. hist_rows (history (alloc_sent a)) s = map_of (places (alloc_sent a)) s"
    using assms(1) by (auto simp: alloc_inv_def)
  let ?b = "alloc_place seq n a'"
  have b: "seq = alloc_next a" "?b = a\<lparr>alloc_next := Suc (alloc_next a), alloc_held := Some
      \<lparr>held_registered = regs @ [Register seq l (p = PublishCommit)], held_placed = plc @ [Placed seq n]\<rparr>\<rparr>"
    using assms(2) a(1) by (auto simp: alloc_open_def alloc_place_def Let_def)
  then show "seq = alloc_next a" by simp
  show "alloc_inv ?b"
    unfolding alloc_inv_def b(2)
    by (intro exI [of _ "regs @ [Register seq l (p = PublishCommit)]"] exI [of _ "plc @ [Placed seq n]"]
        exI [of _ r]) (use a b(1) in \<open>auto simp: regs_from_append\<close>)
  show "alloc_sent ?b = alloc_sent a" "alloc_places ?b = alloc_places a @ [(seq, n)]"
    "alloc_next ?b = Suc (alloc_next a)"
    unfolding b(2) alloc_places_def using a(1) by simp_all
qed

text \<open>The row half: each placement counts exactly the rows sent or staged for its sequence number,
  rows leave only after their registration, placements only after their rows.\<close>

definition rows_inv :: "seq_alloc \<Rightarrow> 'r row_chunk list \<Rightarrow> (nat \<times> 'r row_chunk list) list \<Rightarrow> bool" where
  "rows_inv a staged sends \<longleftrightarrow>
     (\<forall>(s, n) \<in> set (alloc_places a). rows_total sends s + seq_rows staged s = n) \<and>
     (\<forall>row \<in> set (concat staged). row_seq row < alloc_next a) \<and>
     (\<forall>(k, c) \<in> set sends. k \<le> length (alloc_sent a) \<and>
        (\<forall>row \<in> set (concat c). row_seq row < alloc_next a \<and>
           hist_reg (history (take k (alloc_sent a))) (row_seq row) \<noteq> None)) \<and>
     (\<forall>j \<le> length (alloc_sent a). \<forall>(s, n) \<in> set (places (take j (alloc_sent a))). n \<le> rows_before j sends s)"

definition outbox_inv :: "'r outbox \<Rightarrow> bool" where
  "outbox_inv ob \<longleftrightarrow> alloc_inv (ob_seqs ob) \<and> rows_inv (ob_seqs ob) (ob_staged ob) (ob_chunks ob)"

lemma rows_inv_extend:
  assumes inv: "rows_inv a staged sends"
    and b: "alloc_sent b = alloc_sent a @ evs" "length evs \<le> 1" "alloc_places b = alloc_places a"
      "alloc_next b = alloc_next a"
    and new: "\<forall>(s, n) \<in> set (places evs). n \<le> rows_before (Suc (length (alloc_sent a))) sends s"
  shows "rows_inv b staged sends"
proof -
  have old: "n \<le> rows_before j sends s"
    if "j \<le> length (alloc_sent a)" "(s, n) \<in> set (places (take j (alloc_sent a)))" for j s n
    using inv that by (auto simp: rows_inv_def)
  have "n \<le> rows_before j sends s"
    if j: "j \<le> length (alloc_sent b)" and m: "(s, n) \<in> set (places (take j (alloc_sent b)))" for j s n
  proof (cases "j \<le> length (alloc_sent a)")
    case True
    with m old show ?thesis by (simp add: b(1))
  next
    case False
    with j b(1,2) have j': "j = Suc (length (alloc_sent a))" and "length evs = 1" by auto
    with m have "(s, n) \<in> set (places (alloc_sent a)) \<or> (s, n) \<in> set (places evs)" by (simp add: b(1))
    then show ?thesis
      using old [of "length (alloc_sent a)" s n] new
        rows_before_mono [of "length (alloc_sent a)" j sends s] j' by auto
  qed
  then show ?thesis using inv b by (auto simp: rows_inv_def)
qed

lemma rows_inv_stamps: "rows_inv a staged sends \<Longrightarrow>
   rows_before (Suc (length (alloc_sent a))) sends s = rows_total sends s"
  by (intro rows_before_total) (auto simp: rows_inv_def)

lemma ship_inv:
  assumes inv: "outbox_inv ob" and ship: "ship accepts ob = (ob', ok)"
  shows "ok \<Longrightarrow> outbox_inv ob' \<and> ob_staged ob' = []"
    and "alloc_inv (ob_seqs ob') \<and> (\<exists>staged. rows_inv (ob_seqs ob') staged (ob_chunks ob'))"
proof -
  let ?a = "send_registered (ob_seqs ob)"
  have a: "alloc_inv (ob_seqs ob)" and r: "rows_inv (ob_seqs ob) (ob_staged ob) (ob_chunks ob)"
    using inv by (auto simp: outbox_inv_def)
  note reg = alloc_inv_send_registered [OF a]
  obtain evs where evs: "alloc_sent ?a = alloc_sent (ob_seqs ob) @ evs" "length evs \<le> 1" "places evs = []"
    using reg(6) by blast
  have r1: "rows_inv ?a (ob_staged ob) (ob_chunks ob)"
    by (rule rows_inv_extend [OF r evs(1,2) reg(3,4)]) (simp add: evs)
  define sends where "sends = (if ob_staged ob = [] then ob_chunks ob
     else ob_chunks ob @ [(length (alloc_sent ?a), ob_staged ob)])"
  have r2: "rows_inv ?a [] sends"
    using r1 reg(2)
    by (auto simp: sends_def rows_inv_def alloc_flushed_def split: if_splits intro: trans_le_add1)
  note plc = alloc_inv_send_placed [OF reg(1,5)]
  obtain evs' where evs': "alloc_sent (send_placed ?a) = alloc_sent ?a @ evs'" "length evs' \<le> 1"
    "places (alloc_sent ?a @ evs') = alloc_places ?a"
    using plc(4) by blast
  note all = rows_inv_stamps [OF r2]
  have r3: "rows_inv (send_placed ?a) [] sends"
  proof (rule rows_inv_extend [OF r2 evs'(1,2) plc(2,3)])
    have "(s, n) \<in> set (alloc_places ?a)" if "(s, n) \<in> set (places evs')" for s n
      using that evs'(3) by (metis Un_iff places_simps(3) set_append)
    then show "\<forall>(s, n) \<in> set (places evs'). n \<le> rows_before (Suc (length (alloc_sent ?a))) sends s"
      using r2 by (fastforce simp: all rows_inv_def)
  qed
  show "outbox_inv ob' \<and> ob_staged ob' = []" if ok
    using that ship r3 plc(1) by (auto simp: ship_def Let_def outbox_inv_def sends_def split: if_splits)
  show "alloc_inv (ob_seqs ob') \<and> (\<exists>staged. rows_inv (ob_seqs ob') staged (ob_chunks ob'))"
    using ship r3 plc(1) r1 reg(1) by (auto simp: ship_def Let_def sends_def split: if_splits)
qed

lemma rows_inv_place:
  assumes inv: "rows_inv a staged sends" and a: "alloc_inv a"
    and op: "alloc_open l p a = (a', seq)"
    and rows: "concat staged' = concat staged @ rows" "\<forall>row \<in> set rows. row_seq row = seq" "n = length rows"
  shows "rows_inv (alloc_place seq n a') staged' sends"
proof -
  note b = alloc_inv_open_place(1) [OF a op] alloc_inv_open_place(2-5) [OF a op, of n]
  have seq_new: "row_seq row < seq" if "row \<in> set (concat staged) \<or> (\<exists>(k, c) \<in> set sends. row \<in> set (concat c))" for row
    using that inv b(1) by (fastforce simp: rows_inv_def)
  have "map fst (alloc_places a) = [0..<alloc_next a]"
    using a by (auto simp: alloc_inv_def alloc_places_def)
  then have old: "s < seq" if "(s, m) \<in> set (alloc_places a)" for s m
    using that b(1) by (metis atLeastLessThan_iff fst_conv image_eqI list.set_map set_upt)
  have st: "seq_rows staged' s = seq_rows staged s + (if s = seq then n else 0)" for s
    using rows by (auto simp: seq_rows_def filter_empty_conv)
  have "seq_rows staged seq = 0"
    using seq_new by (force simp: seq_rows_def filter_empty_conv)
  moreover have "rows_total sends seq = 0"
    using seq_new by (fastforce simp: rows_total_def seq_rows_def filter_empty_conv)
  ultimately have "rows_total sends s + seq_rows staged' s = m" if "(s, m) \<in> set (alloc_places a @ [(seq, n)])" for s m
    using that inv old by (auto simp: st rows_inv_def)
  moreover have "\<forall>row \<in> set (concat staged'). row_seq row < Suc (alloc_next a)"
    unfolding rows(1) using inv rows(2) b(1) by (auto simp: rows_inv_def less_Suc_eq)
  ultimately show ?thesis
    using inv unfolding rows_inv_def b(3-5) by (fastforce intro: less_SucI)
qed

lemma outbox_step_inv:
  assumes inv: "outbox_inv ob" and step: "outbox_step op ob = (ob', ok)"
  shows "(ok \<longrightarrow> outbox_inv ob') \<and>
     alloc_inv (ob_seqs ob') \<and> (\<exists>staged. rows_inv (ob_seqs ob') staged (ob_chunks ob'))"
proof (cases op)
  case (Dispatch c sf acc l p bytes heaps)
  show ?thesis
  proof (cases "heaps = []")
    case True
    with step inv Dispatch show ?thesis by (auto simp: dispatch_planned_def outbox_inv_def)
  next
    case False
    obtain a' seq where o: "alloc_open l p (ob_seqs ob) = (a', seq)" by fastforce
    obtain staged n where pl: "place_rows c sf seq heaps (ob_staged ob) = (staged, n)" by fastforce
    define ob1 where "ob1 = ob\<lparr>ob_seqs := alloc_place seq n a', ob_staged := staged,
       ob_staged_rows := ob_staged_rows ob + n, ob_staged_bytes := ob_staged_bytes ob + bytes\<rparr>"
    have "\<forall>row \<in> set (concat (map (rows_of_heap sf seq) heaps)). row_seq row = seq"
      by (auto dest: rows_of_heap_seq)
    then have inv1: "outbox_inv ob1"
      using inv place_rows_concat [OF pl] alloc_inv_open_place(2) [OF _ o]
        rows_inv_place [OF _ _ o, of "ob_staged ob" "ob_chunks ob" staged
          "concat (map (rows_of_heap sf seq) heaps)" n]
      by (simp add: ob1_def outbox_inv_def)
    have st: "outbox_step op ob = (if c \<le> ob_staged_rows ob1 \<or> DECODE_CHUNK_BYTES \<le> ob_staged_bytes ob1
        then ship acc ob1 else (ob1, True))"
      using False by (simp add: Dispatch dispatch_planned_def o pl ob1_def)
    show ?thesis
      using st step inv1 ship_inv [OF inv1, of acc ob' ok]
      by (auto simp: outbox_inv_def split: if_splits)
  qed
next
  case (Mark l)
  obtain a' seq where o: "alloc_open l PublishCommit (ob_seqs ob) = (a', seq)" by fastforce
  have "outbox_inv (ob\<lparr>ob_seqs := alloc_place seq 0 a'\<rparr>)"
    using inv rows_inv_place [OF _ _ o, of "ob_staged ob" "ob_chunks ob" "ob_staged ob" "[]" 0]
      alloc_inv_open_place(2) [OF _ o]
    by (simp add: outbox_inv_def)
  then show ?thesis using step Mark o by (auto simp: alloc_mark_def outbox_inv_def)
next
  case (Ship acc)
  then show ?thesis using step ship_inv [OF inv, of acc ob' ok] by simp
qed

lemma outbox_inv_new: "outbox_inv outbox_new"
  by (auto simp: outbox_inv_def outbox_new_def alloc_inv_def rows_inv_def alloc_with_held_def alloc_new_def
      alloc_places_def reg_upto_def history_def)

lemma outbox_run_inv:
  "outbox_inv ob \<Longrightarrow> outbox_run ops ob = (ob', ok) \<Longrightarrow>
   alloc_inv (ob_seqs ob') \<and> (\<exists>staged. rows_inv (ob_seqs ob') staged (ob_chunks ob'))"
proof (induction ops arbitrary: ob)
  case (Cons op ops)
  obtain ob1 ok1 where "outbox_step op ob = (ob1, ok1)" by fastforce
  with Cons outbox_step_inv [of ob op ob1 ok1] show ?case by (auto split: if_splits)
qed (auto simp: outbox_inv_def)

section \<open>Properties of the outbox\<close>

text \<open>
  C4: the outbox keeps the collector's protocol. For every sequence of dispatches, markers and
  ships, failed ships included, the events that reached the collector register dense
  sequence numbers in order, place each at most once and after its registration; every
  row on the batcher channel was preceded by the registration of its sequence number, so no
  insert acknowledgement can beat it; and when a placement is sent, exactly the number of rows
  it announces is already on the batcher channel.
\<close>
theorem outbox_keeps_protocol:
  assumes run: "outbox_run ops outbox_new = (ob, ok)"
  shows "let sent = alloc_sent (ob_seqs ob) in
     hist_ok (history sent) \<and>
     (\<forall>s. hist_reg (history sent) s \<noteq> None \<longleftrightarrow> s < hist_registered (history sent)) \<and>
     (\<forall>(k, chunks) \<in> set (ob_chunks ob). \<forall>row \<in> set (concat chunks).
        hist_reg (history (take k sent)) (row_seq row) \<noteq> None) \<and>
     (\<forall>j \<le> length sent. \<forall>(s, n) \<in> set (places (take j sent)). rows_before j (ob_chunks ob) s = n)"
proof -
  obtain staged where a: "alloc_inv (ob_seqs ob)" and r: "rows_inv (ob_seqs ob) staged (ob_chunks ob)"
    using outbox_run_inv [OF outbox_inv_new run] by blast
  let ?sent = "alloc_sent (ob_seqs ob)"
  have exact: "rows_before j (ob_chunks ob) s = n"
    if "j \<le> length ?sent" "(s, n) \<in> set (places (take j ?sent))" for j s n
  proof (rule antisym)
    have "?sent = take j ?sent @ drop j ?sent" by simp
    then have "(s, n) \<in> set (places ?sent)" using that(2) by (metis UnI1 places_simps(3) set_append)
    then have "(s, n) \<in> set (alloc_places (ob_seqs ob))" by (simp add: alloc_places_def)
    then have "rows_total (ob_chunks ob) s \<le> n"
      using r by (fastforce simp: rows_inv_def)
    then show "rows_before j (ob_chunks ob) s \<le> n" by (rule order_trans [OF rows_before_le_total])
    show "n \<le> rows_before j (ob_chunks ob) s" using r that by (auto simp: rows_inv_def)
  qed
  have "\<exists>r. reg_upto (history ?sent) r" using a by (auto simp: alloc_inv_def)
  then have "hist_ok (history ?sent)" "\<forall>s. hist_reg (history ?sent) s \<noteq> None \<longleftrightarrow> s < hist_registered (history ?sent)"
    by (auto simp: reg_upto_def simp del: not_None_eq)
  moreover have "\<forall>(k, chunks) \<in> set (ob_chunks ob). \<forall>row \<in> set (concat chunks).
      hist_reg (history (take k ?sent)) (row_seq row) \<noteq> None"
    using r by (auto simp: rows_inv_def)
  ultimately show ?thesis using exact by (auto simp: Let_def)
qed

definition demo_heap :: "bool \<Rightarrow> nat \<Rightarrow> nat routed_heap" where
  "demo_heap split x = \<lparr>rh_routed = True, rh_drops_deletes = False, rh_is_delete = False, rh_bytes = 100,
     rh_key_change = split, rh_tuple = x\<rparr>"

lemmas outbox_alloc_defs = alloc_with_held_def alloc_new_def alloc_open_def alloc_place_def alloc_mark_def
  alloc_send_def send_registered_def send_placed_def Let_def

definition outbox_demo :: "nat outbox_op list" where
  "outbox_demo = [Dispatch 4 False True 10 PublishPartial 300 [demo_heap False 5, demo_heap True 2],
     Mark 11, Dispatch 4 False True 12 PublishCommit 100 [demo_heap False 3], Ship True, Mark 13]"

theorem outbox_keeps_protocol_witness:
  "let (ob, ok) = outbox_run outbox_demo outbox_new; sent = alloc_sent (ob_seqs ob) in
     ok \<and> hist_ok (history sent) \<and> places sent = [(0, 3), (1, 0), (2, 1)] \<and>
     (\<forall>j \<le> length sent. \<forall>(s, n) \<in> set (places (take j sent)). rows_before j (ob_chunks ob) s = n)"
proof -
  obtain ob ok where run: "outbox_run outbox_demo outbox_new = (ob, ok)" by fastforce
  have "(let (ob, ok) = outbox_run outbox_demo outbox_new in
     ok \<and> places (alloc_sent (ob_seqs ob)) = [(0, 3), (1, 0), (2, 1)])"
    by (simp add: outbox_demo_def outbox_new_def dispatch_planned_def place_rows_def rows_of_heap_def
        demo_heap_def DECODE_CHUNK_BYTES_def ship_def outbox_alloc_defs)
  with outbox_keeps_protocol [OF run] show ?thesis by (simp add: run Let_def)
qed

text \<open>
  C8: row placement loses and invents nothing. Placing the heaps of a slice appends to the staged
  chunks exactly the rows of the routed heaps in order, each tagged with the slice's
  sequence number, and returns their number, whatever the chunk limits.
\<close>
theorem place_rows_exact:
  assumes "place_rows chunk_rows snowflake seq heaps staged = (staged', n)"
  shows "concat staged' = concat staged @ concat (map (rows_of_heap snowflake seq) heaps) \<and>
     n = seq_rows staged' seq - seq_rows staged seq \<and>
     n = sum_list (map (\<lambda>h. length (rows_of_heap snowflake seq h)) heaps)"
proof -
  let ?rows = "concat (map (rows_of_heap snowflake seq) heaps)"
  have c: "concat staged' = concat staged @ ?rows" "n = length ?rows"
    using place_rows_concat [OF assms] by auto
  have "filter (\<lambda>r. row_seq r = seq) ?rows = ?rows"
    by (rule filter_True) (auto dest: rows_of_heap_seq)
  with c show ?thesis by (simp add: seq_rows_def length_concat o_def)
qed

theorem place_rows_exact_witness:
  "let r = place_rows 2 False 7 [demo_heap False 5, demo_heap True 2, demo_heap False 3] [] in
   concat (fst r) = concat [] @ concat (map (rows_of_heap False 7) [demo_heap False 5, demo_heap True 2, demo_heap False 3])
   \<and> snd r = 4 \<and> length (fst r) = 2"
proof -
  let ?hs = "[demo_heap False 5, demo_heap True 2, demo_heap False 3]"
  obtain st n where r: "place_rows 2 False 7 ?hs [] = (st, n)" by fastforce
  have "snd (place_rows 2 False 7 ?hs []) = 4 \<and> length (fst (place_rows 2 False 7 ?hs [])) = 2"
    by (simp add: place_rows_def rows_of_heap_def demo_heap_def DECODE_CHUNK_BYTES_def)
  with place_rows_exact [OF r] show ?thesis by (simp add: r Let_def)
qed

end
