(* ===== verification/Pipeline.thy ===== *)
theory Pipeline
  imports Outbox
begin

text \<open>
  The outbox of the reorder stage and the acknowledgement collector composed
  (\<open>src/src/emit/pipeline/reorder.rs\<close>, \<open>src/src/emit/pipeline/ack.rs\<close>). The collector reads one
  channel into which the outbox sends its events in order and the insert stage sends the counts of
  rows it has inserted. The locale \<open>producer\<close> states what the collector needs of the outbox, the
  relation \<open>delivered\<close> the orders in which the two can meet on the channel.
\<close>

section \<open>Meeting on the channel\<close>

text \<open>\<open>delivered sends sent j evs\<close>: after the first \<open>j\<close> events of the outbox and some insert
  acknowledgements, the collector has read \<open>evs\<close>.  A row is inserted after its chunk was sent, so
  an acknowledgement that arrives after \<open>j\<close> events counts only rows of chunks sent by then.\<close>

inductive delivered :: "(nat \<times> 'r row_chunk list) list \<Rightarrow> ack_event list \<Rightarrow> nat \<Rightarrow> ack_event list \<Rightarrow> bool"
  for sends sent where
  start: "delivered sends sent 0 []"
| from_outbox: "delivered sends sent j evs \<Longrightarrow> j < length sent \<Longrightarrow> delivered sends sent (Suc j) (evs @ [sent ! j])"
| from_insert: "delivered sends sent j evs \<Longrightarrow> \<forall>(s, n) \<in> set counts. 0 < n \<Longrightarrow>
    \<forall>s. hist_acked (history (evs @ [Acked counts])) s \<le> rows_before (Suc j) sends s \<Longrightarrow>
    delivered sends sent j (evs @ [Acked counts])"

section \<open>Interleaving two histories\<close>

lemma acked_le_rows: "hist_ok h \<Longrightarrow> hist_rows h s = Some r \<Longrightarrow> hist_acked h s \<le> r"
proof (induction h rule: rev_induct)
  case (snoc a h)
  then show ?case by (cases a) (auto simp: hist_append split: option.splits if_splits)
qed simp

text \<open>What two histories agree on when one is the other with acknowledgements woven in.\<close>

definition woven :: "ack_atom list \<Rightarrow> ack_atom list \<Rightarrow> bool" where
  "woven h0 h \<longleftrightarrow> (\<forall>s. hist_reg h s = hist_reg h0 s) \<and> (\<forall>s. hist_rows h s = hist_rows h0 s) \<and>
     hist_registered h = hist_registered h0 \<and> hist_trailing h = hist_trailing h0"

lemma woven_append: "woven h0 h \<Longrightarrow> woven (h0 @ k) (h @ k)"
  by (simp add: woven_def hist_append)

lemma acks_only:
  "hist_reg (map (\<lambda>(s, n). AAck s n) counts) s = None" "hist_rows (map (\<lambda>(s, n). AAck s n) counts) s = None"
  "hist_registered (map (\<lambda>(s, n). AAck s n) counts) = 0" "hist_trailing (map (\<lambda>(s, n). AAck s n) counts) = 0"
  by (induction counts) auto

lemma woven_acks: "woven h0 h \<Longrightarrow> woven h0 (h @ map (\<lambda>(s, n). AAck s n) counts)"
  by (simp add: woven_def hist_append acks_only option.case_eq_if)

lemma along_commit_woven:
  "along commit_order (h0 @ k) \<Longrightarrow> along commit_order h \<Longrightarrow> woven h0 h \<Longrightarrow> along commit_order (h @ k)"
proof (induction k rule: rev_induct)
  case (snoc a k)
  then have co: "along commit_order (h @ k)" "commit_order (h0 @ k) a"
    using along_prefix [of commit_order "h0 @ k" "[a]"] by (simp_all flip: append_assoc)
  have "commit_order (h @ k) a" using co(2) woven_append [OF snoc.prems(3), of k] by (cases a) (simp_all add: woven_def)
  with co(1) show ?case by (simp flip: append_assoc)
qed simp

lemma along_commit_acks: "along commit_order h \<Longrightarrow> along commit_order (h @ map (\<lambda>(s, n). AAck s n) counts)"
proof (induction counts rule: rev_induct)
  case (snoc c counts)
  then show ?case by (cases c) (simp flip: append_assoc)
qed simp

lemma hist_ok_woven:
  assumes "hist_ok (h0 @ k)" "hist_ok h" "woven h0 h"
    and "\<And>s. hist_acked k s = 0" "\<And>s n. APlace s n \<in> set k \<Longrightarrow> hist_acked h s \<le> n"
  shows "hist_ok (h @ k)"
  using assms
proof (induction k rule: rev_induct)
  case (snoc a k)
  have k: "hist_acked k s = 0" for s using snoc.prems(4) [of s] by (simp add: hist_append)
  have ok: "hist_ok (h @ k)" "atom_ok (h0 @ k) a"
    using snoc hist_ok_prefix [of "h0 @ k" "[a]"] k by (simp_all flip: append_assoc)
  have w: "woven (h0 @ k) (h @ k)" using snoc.prems(3) by (rule woven_append)
  have acked: "hist_acked (h @ k) s = hist_acked h s" for s by (simp add: hist_append k)
  have "atom_ok (h @ k) a"
  proof (cases a)
    case (APlace s n)
    then show ?thesis using ok(2) w snoc.prems(5) [of s n] by (simp add: woven_def acked)
  next
    case (AAck s n)
    then have "n = 0" using snoc.prems(4) [of s] by (simp add: hist_append)
    then show ?thesis using AAck ok w acked_le_rows [OF ok(1), of s] by (auto simp: woven_def split: option.splits)
  qed (use ok(2) w in \<open>simp_all add: woven_def\<close>)
  with ok(1) show ?case by (simp flip: append_assoc)
qed simp

lemma hist_ok_acks:
  assumes "hist_ok h" "\<And>s n. (s, n) \<in> set counts \<Longrightarrow> hist_reg h s \<noteq> None"
    and "\<And>s r. hist_rows h s = Some r \<Longrightarrow> hist_acked (h @ map (\<lambda>(s, n). AAck s n) counts) s \<le> r"
  shows "hist_ok (h @ map (\<lambda>(s, n). AAck s n) counts)"
  using assms
proof (induction counts rule: rev_induct)
  case (snoc c counts)
  obtain s n where c: "c = (s, n)" by (cases c)
  let ?k = "map (\<lambda>(s, n). AAck s n) counts"
  have bound: "hist_acked (h @ ?k) q \<le> r" if "hist_rows h q = Some r" for q r
    using snoc.prems(3) [OF that] by (simp add: hist_append)
  have reg: "hist_reg h q \<noteq> None" if "(q, m) \<in> set counts" for q m by (rule snoc.prems(2) [of q m]) (use that in simp)
  have ok: "hist_ok (h @ ?k)" by (rule snoc.IH [OF snoc.prems(1) reg bound])
  have "atom_ok (h @ ?k) (AAck s n)"
    using snoc.prems(2) [of s n] snoc.prems(3) [of s] by (auto simp: c hist_append acks_only split: option.splits)
  with ok show ?case by (simp add: c flip: append_assoc)
qed simp

lemma history_places: "APlace s n \<in> set (history evs) \<longleftrightarrow> (s, n) \<in> set (places evs)"
proof -
  have "APlace s n \<in> set (atoms ev) \<longleftrightarrow> (s, n) \<in> set (event_places ev)" for ev
    by (induction ev) (auto simp: places_def)
  then show ?thesis by (auto simp: history_def places_def)
qed

lemma hist_rows_place: "hist_rows h s = Some r \<Longrightarrow> APlace s r \<in> set h"
  by (induction h s rule: hist_rows.induct) (auto split: if_splits)

lemma history_split:
  assumes "j < length evs"
  shows "history evs = history (take j evs) @ atoms (evs ! j) @ history (drop (Suc j) evs)"
proof -
  have "history evs = history (take j evs @ evs ! j # drop (Suc j) evs)" using id_take_nth_drop [OF assms] by simp
  then show ?thesis by (simp add: history_def)
qed

section \<open>What the collector needs of a producer\<close>

locale producer =
  fixes sends :: "(nat \<times> 'r row_chunk list) list"
    and sent :: "ack_event list"
  assumes sent_ok: "hist_ok (history sent)"
    and sent_no_acks: "hist_acked (history sent) s = 0"
    and registered_first: "(k, chunks) \<in> set sends \<Longrightarrow> row \<in> set (concat chunks) \<Longrightarrow>
          hist_reg (history (take k sent)) (row_seq row) \<noteq> None"
    and placed_after: "j \<le> length sent \<Longrightarrow> (s, n) \<in> set (places (take j sent)) \<Longrightarrow> n \<le> rows_before j sends s"
    and placed_total: "(s, n) \<in> set (places sent) \<Longrightarrow> rows_total sends s \<le> n"
begin

lemma acked_placed:
  "(s, n) \<in> set (places (take j sent)) \<Longrightarrow> rows_before i sends s \<le> n"
proof -
  assume "(s, n) \<in> set (places (take j sent))"
  moreover have "places sent = places (take j sent) @ places (drop j sent)" by (simp flip: places_simps(3))
  ultimately have "rows_total sends s \<le> n" by (intro placed_total) simp
  then show ?thesis by (rule order_trans [OF rows_before_le_total])
qed

lemma row_registered:
  assumes "0 < rows_before (Suc j) sends s"
  shows "hist_reg (history (take j sent)) s \<noteq> None"
proof -
  obtain k chunks where kc: "(k, chunks) \<in> set sends" "k \<le> j" "0 < seq_rows chunks s"
    using assms by (auto simp: rows_before_def sum_list_eq_0_iff neq0_conv [symmetric] split: if_splits simp del: neq0_conv)
  then obtain row where "row \<in> set (concat chunks)" "row_seq row = s"
    by (auto simp: seq_rows_def filter_empty_conv)
  with registered_first [OF kc(1)] have "hist_reg (history (take k sent)) s \<noteq> None" by blast
  moreover have "history (take j sent) = history (take k sent) @ history (drop k (take j sent))"
    using kc(2) append_take_drop_id [of k "take j sent"] by (simp add: min_absorb1 flip: history_append)
  ultimately show ?thesis by (auto simp: hist_append)
qed

lemma delivered_inv:
  assumes "delivered sends sent j evs"
  shows "j \<le> length sent \<and> hist_ok (history evs) \<and> woven (history (take j sent)) (history evs) \<and>
    (\<forall>s. hist_acked (history evs) s \<le> rows_before (Suc j) sends s)"
  using assms
proof (induction rule: delivered.induct)
  case start
  then show ?case by (simp add: history_def woven_def)
next
  case (from_outbox j evs)
  let ?k = "atoms (sent ! j)"
  have take: "history (take (Suc j) sent) = history (take j sent) @ ?k"
    using from_outbox.hyps(2) by (simp add: take_Suc_conv_app_nth history_snoc)
  have all: "history sent = history (take j sent) @ ?k @ history (drop (Suc j) sent)"
    by (rule history_split [OF from_outbox.hyps(2)])
  have zero: "hist_acked ?k s = 0" for s using sent_no_acks [of s] unfolding all by (simp add: hist_append)
  have ok: "hist_ok (history (take j sent) @ ?k)" using sent_ok hist_ok_prefix [of "history (take j sent) @ ?k"] unfolding all by simp
  have place: "hist_acked (history evs) s \<le> n" if "APlace s n \<in> set ?k" for s n
  proof -
    have "(s, n) \<in> set (places (take (Suc j) sent))" using that take history_places [of s n "take (Suc j) sent"] by simp
    moreover have "hist_acked (history evs) s \<le> rows_before (Suc j) sends s" using from_outbox.IH by blast
    ultimately show ?thesis using acked_placed order_trans by blast
  qed
  have "hist_ok (history evs @ ?k)" using hist_ok_woven [OF ok _ _ zero place] from_outbox.IH by blast
  moreover have "hist_acked (history evs @ ?k) s \<le> rows_before (Suc (Suc j)) sends s" for s
  proof -
    have "hist_acked (history evs) s \<le> rows_before (Suc j) sends s" using from_outbox.IH by blast
    also have "\<dots> \<le> rows_before (Suc (Suc j)) sends s" by (rule rows_before_mono) simp
    finally show ?thesis by (simp add: hist_append zero)
  qed
  ultimately show ?case
    using from_outbox.IH from_outbox.hyps(2) woven_append [of "history (take j sent)" "history evs" ?k] by (simp add: history_snoc take)
next
  case (from_insert j evs counts)
  let ?h = "history evs" and ?k = "map (\<lambda>(s, n). AAck s n) counts"
  have h: "history (evs @ [Acked counts]) = ?h @ ?k" by (simp add: history_snoc)
  have w: "woven (history (take j sent)) ?h" using from_insert.IH by blast
  have bound: "hist_acked (?h @ ?k) s \<le> rows_before (Suc j) sends s" for s using from_insert.hyps(3) unfolding h by blast
  have reg: "hist_reg ?h s \<noteq> None" if "(s, n) \<in> set counts" for s n
  proof -
    have "0 < n" using that from_insert.hyps(2) by blast
    moreover have "n \<le> hist_acked ?k s" using that by (induction counts) auto
    ultimately have "0 < rows_before (Suc j) sends s" using bound [of s] by (simp add: hist_append)
    then show ?thesis using row_registered w by (simp add: woven_def)
  qed
  have rows: "hist_acked (?h @ ?k) s \<le> r" if "hist_rows ?h s = Some r" for s r
  proof -
    have "hist_rows (history (take j sent)) s = Some r" using that w by (simp add: woven_def)
    then have "(s, r) \<in> set (places (take j sent))" using hist_rows_place history_places by blast
    then show ?thesis by (rule order_trans [OF bound acked_placed])
  qed
  have "hist_ok ?h" using from_insert.IH by blast
  then have "hist_ok (?h @ ?k)" using reg rows by (rule hist_ok_acks)
  then show ?case using from_insert.IH bound woven_acks [OF w] unfolding h by blast
qed

lemma delivered_commit_order:
  assumes "delivered sends sent j evs" "along commit_order (history sent)"
  shows "along commit_order (history evs)"
  using assms(1)
proof (induction rule: delivered.induct)
  case (from_outbox j evs)
  have "along commit_order (history (take j sent) @ atoms (sent ! j))"
    by (rule along_prefix [of _ _ "history (drop (Suc j) sent)"]) (use assms(2) history_split [OF from_outbox.hyps(2)] in simp)
  then show ?case using along_commit_woven from_outbox.IH delivered_inv [OF from_outbox.hyps(1)] by (simp add: history_snoc)
next
  case (from_insert j evs counts)
  then show ?case by (simp add: history_snoc along_commit_acks)
qed (simp add: history_def)

text \<open>The collector behind this producer: no event is a fault, and no position is published while
  a row of a commit at or below it is not inserted.\<close>

lemma collector_settled: "delivered sends sent j evs \<Longrightarrow> settled (history evs) (ack_run evs (ack_new cell fatal))"
  using delivered_inv ack_run_settled by blast

lemma position_covered:
  assumes "delivered sends sent j evs" "along commit_order (history sent)"
    and "hist_reg (history evs) s = Some (l, p)" "hist_acked (history evs) s < rows_total sends s"
  shows "let e = monotone_get (ack_emitter (ack_run evs (ack_new cell fatal))) in e = monotone_get cell \<or> pos_get e < l"
proof (rule ack_run_below_incomplete [OF _ delivered_commit_order [OF assms(1,2)] assms(3)])
  show "hist_ok (history evs)" using delivered_inv [OF assms(1)] by blast
  have "rows_total sends s \<le> r" if "hist_rows (history evs) s = Some r" for r
  proof -
    have "hist_rows (history (take j sent)) s = Some r" using that delivered_inv [OF assms(1)] by (simp add: woven_def)
    then have "(s, r) \<in> set (places (take j sent))" using hist_rows_place history_places by blast
    then have "(s, r) \<in> set (places sent)" using places_simps(3) [of "take j sent" "drop j sent"] by simp
    then show ?thesis by (rule placed_total)
  qed
  then show "\<not> seq_done (history evs) s" using assms(4) by (force simp: seq_done_def)
qed

lemma delivered_all_done:
  assumes "delivered sends sent (length sent) evs" "\<forall>s. hist_acked (history evs) s = rows_total sends s"
    and "\<forall>s < hist_registered (history sent). hist_reg (history sent) s \<noteq> None \<and> (\<exists>n. (s, n) \<in> set (places sent) \<and> hist_rows (history sent) s = Some n)"
  shows "\<forall>s < hist_registered (history evs). seq_done (history evs) s"
proof (intro allI impI)
  fix s assume s: "s < hist_registered (history evs)"
  have w: "woven (history sent) (history evs)" using delivered_inv [OF assms(1)] by simp
  then obtain n where n: "hist_reg (history evs) s \<noteq> None" "(s, n) \<in> set (places sent)" "hist_rows (history evs) s = Some n"
    using s assms(3) unfolding woven_def by auto
  have "n = rows_total sends s"
    using placed_total [OF n(2)] placed_after [of "length sent" s n] rows_before_le_total [of "length sent" sends s] n(2) by simp
  then show "seq_done (history evs) s" using n assms(2) by (simp add: seq_done_def)
qed

end

section \<open>The outbox is such a producer\<close>

lemma outbox_run_producer:
  assumes "outbox_run ops outbox_new = (ob, ok)"
  shows "producer (ob_chunks ob) (alloc_sent (ob_seqs ob))"
proof -
  obtain staged where a: "alloc_inv (ob_seqs ob)" and r: "rows_inv (ob_seqs ob) staged (ob_chunks ob)"
    using outbox_run_inv [OF outbox_inv_new assms] by blast
  obtain u where up: "reg_upto (history (alloc_sent (ob_seqs ob))) u" using a by (auto simp: alloc_inv_def)
  let ?sent = "alloc_sent (ob_seqs ob)"
  have total: "\<forall>(s, n) \<in> set (alloc_places (ob_seqs ob)). rows_total (ob_chunks ob) s + seq_rows staged s = n"
    and reg: "\<forall>(k, c) \<in> set (ob_chunks ob). k \<le> length ?sent \<and>
        (\<forall>row \<in> set (concat c). row_seq row < alloc_next (ob_seqs ob) \<and> hist_reg (history (take k ?sent)) (row_seq row) \<noteq> None)"
    and before: "\<forall>j \<le> length ?sent. \<forall>(s, n) \<in> set (places (take j ?sent)). n \<le> rows_before j (ob_chunks ob) s"
    using r [unfolded rows_inv_def] by (rule conjunct1, rule conjunct1 [OF conjunct2 [OF conjunct2]], rule conjunct2 [OF conjunct2 [OF conjunct2]])
  show ?thesis
  proof
    show "hist_ok (history ?sent)" "hist_acked (history ?sent) s = 0" for s
      using up by (simp_all add: reg_upto_def)
    show "rows_total (ob_chunks ob) s \<le> n" if "(s, n) \<in> set (places ?sent)" for s n
    proof -
      have "(s, n) \<in> set (alloc_places (ob_seqs ob))" using that by (simp add: alloc_places_def)
      from bspec [OF total this] show ?thesis by simp
    qed
    show "hist_reg (history (take k ?sent)) (row_seq row) \<noteq> None"
      if "(k, chunks) \<in> set (ob_chunks ob)" "row \<in> set (concat chunks)" for k chunks row
      using reg that by blast
    show "n \<le> rows_before j (ob_chunks ob) s" if "j \<le> length ?sent" "(s, n) \<in> set (places (take j ?sent))" for j s n
      using before that by blast
  qed
qed

interpretation shipped: producer "ob_chunks (fst (outbox_run ops outbox_new))" "alloc_sent (ob_seqs (fst (outbox_run ops outbox_new)))" for ops
  by (rule outbox_run_producer [where ok = "snd (outbox_run ops outbox_new)"]) simp

text \<open>A run that ends with a successful ship holds nothing back.\<close>

lemma outbox_run_snoc:
  "outbox_run (ops @ [op]) ob = (let (ob1, ok) = outbox_run ops ob in if ok then outbox_step op ob1 else (ob1, False))"
  by (induction ops arbitrary: ob) (auto simp: Let_def split: prod.splits)

lemma ship_seqs: "ship True ob = (ob', ok) \<Longrightarrow> ob_seqs ob' = send_placed (send_registered (ob_seqs ob))"
  by (auto simp: ship_def Let_def split: if_splits)

lemma alloc_shipped:
  assumes "alloc_inv a"
  defines "b \<equiv> send_placed (send_registered a)"
  shows "reg_upto (history (alloc_sent b)) (alloc_next b) \<and> map fst (places (alloc_sent b)) = [0..<alloc_next b] \<and>
    (\<forall>s. hist_rows (history (alloc_sent b)) s = map_of (places (alloc_sent b)) s)"
proof -
  note reg = alloc_inv_send_registered [OF assms(1)]
  note plc = alloc_inv_send_placed [OF reg(1,5)]
  obtain regs pl r where b: "alloc_held b = Some \<lparr>held_registered = regs, held_placed = pl\<rparr>"
    "reg_upto (history (alloc_sent b)) r" "alloc_next b = r + length regs"
    "map fst (places (alloc_sent b) @ places pl) = [0..<alloc_next b]"
    "\<forall>s. hist_rows (history (alloc_sent b)) s = map_of (places (alloc_sent b)) s"
    using plc(1) unfolding b_def alloc_inv_def by blast
  have "map_option held_registered (alloc_held b) = Some []"
    using reg(5) by (auto simp: b_def send_placed_def alloc_send_def split: option.splits)
  then have "regs = []" by (simp add: b(1))
  moreover have "places (alloc_sent b) = alloc_places b"
    using plc(2,4) unfolding b_def by (metis (no_types))
  then have "places pl = []" by (simp add: alloc_places_def b(1))
  ultimately show ?thesis using b(2-5) by simp
qed

lemma outbox_shipped_all:
  assumes "outbox_run (ops @ [Ship True]) outbox_new = (ob, True)"
  shows "\<forall>s < hist_registered (history (alloc_sent (ob_seqs ob))). hist_reg (history (alloc_sent (ob_seqs ob))) s \<noteq> None \<and>
    (\<exists>n. (s, n) \<in> set (places (alloc_sent (ob_seqs ob))) \<and> hist_rows (history (alloc_sent (ob_seqs ob))) s = Some n)"
proof -
  obtain ob1 where run: "outbox_run ops outbox_new = (ob1, True)" and ship: "ship True ob1 = (ob, True)"
    using assms by (auto simp: outbox_run_snoc Let_def split: prod.splits if_splits)
  obtain staged where "alloc_inv (ob_seqs ob1)" using outbox_run_inv [OF outbox_inv_new run] by blast
  note all = alloc_shipped [OF this, folded ship_seqs [OF ship]]
  let ?sent = "alloc_sent (ob_seqs ob)"
  show ?thesis
  proof (intro allI impI conjI)
    fix s assume s: "s < hist_registered (history ?sent)"
    then show "hist_reg (history ?sent) s \<noteq> None" using all by (auto simp: reg_upto_def)
    have "s \<in> set (map fst (places ?sent))" using all s by (simp add: reg_upto_def)
    then obtain n where "map_of (places ?sent) s = Some n" by (metis map_of_eq_None_iff option.exhaust set_map)
    then show "\<exists>n. (s, n) \<in> set (places ?sent) \<and> hist_rows (history ?sent) s = Some n"
      using all by (auto dest: map_of_SomeD)
  qed
qed

lemma delivered_length: "delivered sends sent j evs \<Longrightarrow> j \<le> length evs"
  by (induction rule: delivered.induct) simp_all

section \<open>A run of the two\<close>

definition pipeline_demo :: "nat outbox_op list" where
  "pipeline_demo = [Dispatch 4 False True 10 PublishPartial 300 [demo_heap False 5, demo_heap True 2],
     Mark 11, Dispatch 4 False True 12 PublishCommit 100 [demo_heap False 3]]"

definition pipeline_outbox :: "nat outbox" where
  "pipeline_outbox = fst (outbox_run (pipeline_demo @ [Ship True]) outbox_new)"

lemma pipeline_demo_run: "outbox_run (pipeline_demo @ [Ship True]) outbox_new = (pipeline_outbox, True)"
  and pipeline_demo_sent: "alloc_sent (ob_seqs pipeline_outbox) =
    [Batch [Register 0 10 False, Register 1 11 True, Register 2 12 True], Batch [Placed 0 3, Placed 1 0, Placed 2 1]]"
  and pipeline_demo_chunks: "ob_chunks pipeline_outbox = [(1, [[RoutedRow 0 False 5, RoutedRow 0 True 2, RoutedRow 0 False 2], [RoutedRow 2 False 3]])]"
  by (simp_all add: pipeline_outbox_def pipeline_demo_def outbox_new_def dispatch_planned_def place_rows_def rows_of_heap_def
      demo_heap_def DECODE_CHUNK_BYTES_def ship_def outbox_alloc_defs)

lemma pipeline_demo_started:
  "delivered (ob_chunks pipeline_outbox) (alloc_sent (ob_seqs pipeline_outbox)) 1
     [Batch [Register 0 10 False, Register 1 11 True, Register 2 12 True], Acked [(0, 1), (2, 1)]]"
proof -
  let ?d = "delivered (ob_chunks pipeline_outbox) (alloc_sent (ob_seqs pipeline_outbox))"
  have "?d (Suc 0) ([] @ [alloc_sent (ob_seqs pipeline_outbox) ! 0])"
    by (rule from_outbox [OF start]) (simp add: pipeline_demo_sent)
  then have "?d 1 [Batch [Register 0 10 False, Register 1 11 True, Register 2 12 True]]" by (simp add: pipeline_demo_sent)
  from from_insert [OF this, of "[(0, 1), (2, 1)]"] show ?thesis
    by (simp add: pipeline_demo_chunks history_def rows_before_def seq_rows_def)
qed

lemma pipeline_demo_finished:
  "delivered (ob_chunks pipeline_outbox) (alloc_sent (ob_seqs pipeline_outbox)) (length (alloc_sent (ob_seqs pipeline_outbox)))
     [Batch [Register 0 10 False, Register 1 11 True, Register 2 12 True], Acked [(0, 1), (2, 1)],
      Batch [Placed 0 3, Placed 1 0, Placed 2 1], Acked [(0, 2)]]"
proof -
  let ?d = "delivered (ob_chunks pipeline_outbox) (alloc_sent (ob_seqs pipeline_outbox))"
  let ?evs = "[Batch [Register 0 10 False, Register 1 11 True, Register 2 12 True], Acked [(0, 1), (2, 1)],
      Batch [Placed 0 3, Placed 1 0, Placed 2 1]]"
  have "?d 2 ?evs" using from_outbox [OF pipeline_demo_started] by (simp add: pipeline_demo_sent numeral_2_eq_2)
  from from_insert [OF this, of "[(0, 2)]"] show ?thesis
    by (simp add: pipeline_demo_chunks pipeline_demo_sent history_def rows_before_def seq_rows_def numeral_2_eq_2)
qed

end
