(* ===== verification/Text.thy ===== *)
theory Text
  imports WS_Prelude
begin

text \<open>
  The parts of Rust's string library the source parses with: lossy UTF-8 decoding, lines,
  Unicode white space, words, and unsigned decimal numbers. Decoded text is a list of code
  points.
\<close>

type_synonym codepoints = "nat list"

section \<open>Lossy UTF-8\<close>

text \<open>One step of \<open>String::from_utf8_lossy\<close>: the code point read (the replacement character
  for an invalid sequence) and the number of bytes it takes.\<close>

definition is_cont :: "u8 \<Rightarrow> bool" where
  "is_cont b \<longleftrightarrow> 128 \<le> unat b \<and> unat b < 192"

definition byte_at :: "bytes \<Rightarrow> nat \<Rightarrow> u8" where
  "byte_at bs i = (if i < length bs then bs ! i else 0)"

definition second_ok :: "nat \<Rightarrow> nat \<Rightarrow> bool" where
  "second_ok a b \<longleftrightarrow>
     (if a = 224 then 160 \<le> b \<and> b < 192
      else if a = 237 then 128 \<le> b \<and> b < 160
      else if a = 240 then 144 \<le> b \<and> b < 192
      else if a = 244 then 128 \<le> b \<and> b < 144
      else 128 \<le> b \<and> b < 192)"

definition utf8_step :: "bytes \<Rightarrow> nat \<times> nat" where
  "utf8_step bs =
     (let a = unat (byte_at bs 0); b = unat (byte_at bs 1);
          c = unat (byte_at bs 2); d = unat (byte_at bs 3);
          bad = (\<lambda>n. (65533, n)) in
      if a < 128 then (a, 1)
      else if 194 \<le> a \<and> a < 224 then
        (if is_cont (byte_at bs 1) then ((a - 192) * 64 + (b - 128), 2) else bad 1)
      else if 224 \<le> a \<and> a < 240 then
        (if \<not> second_ok a b then bad 1
         else if \<not> is_cont (byte_at bs 2) then bad 2
         else ((a - 224) * 4096 + (b - 128) * 64 + (c - 128), 3))
      else if 240 \<le> a \<and> a < 245 then
        (if \<not> second_ok a b then bad 1
         else if \<not> is_cont (byte_at bs 2) then bad 2
         else if \<not> is_cont (byte_at bs 3) then bad 3
         else ((a - 240) * 262144 + (b - 128) * 4096 + (c - 128) * 64 + (d - 128), 4))
      else bad 1)"

lemma utf8_step_pos [simp]: "0 < snd (utf8_step bs)"
  by (simp add: utf8_step_def Let_def)

function utf8_lossy :: "bytes \<Rightarrow> codepoints" where
  "utf8_lossy [] = []"
| "utf8_lossy (x # bs) =
     fst (utf8_step (x # bs)) # utf8_lossy (drop (snd (utf8_step (x # bs)) - 1) bs)"
  by pat_completeness auto
termination
  by (relation "measure length") auto

declare utf8_lossy.simps(2) [simp del]

text \<open>An ASCII byte is a code point of its own and never part of a longer sequence, so
  decoding may be cut after it.\<close>

lemma second_ok_ge: "second_ok a b \<Longrightarrow> 128 \<le> b"
  by (auto simp: second_ok_def split: if_splits)

lemma byte_at_append: "i < length xs \<Longrightarrow> byte_at (xs @ ys) i = byte_at xs i"
  by (simp add: byte_at_def nth_append)

lemma utf8_step_ascii: "unat x < 128 \<Longrightarrow> utf8_step (x # bs) = (unat x, 1)"
  by (simp add: utf8_step_def byte_at_def)

lemma utf8_lossy_ascii: "unat x < 128 \<Longrightarrow> utf8_lossy (x # bs) = unat x # utf8_lossy bs"
  by (simp add: utf8_lossy.simps utf8_step_ascii)

lemma utf8_step_cut:
  assumes n: "unat n < 128" and ne: "pre \<noteq> []"
  shows "utf8_step (pre @ n # ys) = utf8_step pre" "snd (utf8_step pre) \<le> length pre"
proof -
  have nc: "\<not> is_cont n" "\<And>a. \<not> second_ok a (unat n)" using n by (auto simp: is_cont_def dest: second_ok_ge)
  have z: "\<not> is_cont 0" "\<And>a. \<not> second_ok a 0" using second_ok_ge by (fastforce simp: is_cont_def)+
  obtain a r where p1: "pre = a # r" using ne by (cases pre) auto
  consider "r = []" | b where "r = [b]" | b c where "r = [b, c]" | b c d e where "r = b # c # d # e"
    by (cases r rule: list.exhaust; metis list.exhaust)
  then show "utf8_step (pre @ n # ys) = utf8_step pre" "snd (utf8_step pre) \<le> length pre"
    by (cases; use nc z in \<open>auto simp: p1 utf8_step_def byte_at_def Let_def numeral_2_eq_2 numeral_3_eq_3\<close>)+
qed

lemma utf8_lossy_cut:
  "unat n < 128 \<Longrightarrow> utf8_lossy (pre @ n # ys) = utf8_lossy pre @ unat n # utf8_lossy ys"
proof (induction pre rule: length_induct)
  case (1 pre)
  show ?case
  proof (cases pre)
    case Nil
    with 1 show ?thesis by (simp add: utf8_lossy_ascii)
  next
    case (Cons a r)
    let ?k = "snd (utf8_step pre) - 1"
    note cut = utf8_step_cut(1) [OF "1.prems", of pre ys] utf8_step_cut(2) [OF "1.prems", of pre]
    have k: "?k \<le> length r" using cut(2) Cons by simp
    have "utf8_lossy (pre @ n # ys) = fst (utf8_step pre) # utf8_lossy (drop ?k r @ n # ys)"
      using cut k Cons utf8_lossy.simps(2) [of a "r @ n # ys"] by simp
    also have "utf8_lossy (drop ?k r @ n # ys) = utf8_lossy (drop ?k r) @ unat n # utf8_lossy ys"
      using "1.IH" "1.prems" Cons by simp
    finally show ?thesis
      using utf8_lossy.simps(2) [of a r] Cons by simp
  qed
qed

text \<open>No other sequence decodes to an ASCII code point.\<close>

lemma utf8_step_wide: "\<not> unat (byte_at bs 0) < 128 \<Longrightarrow> 128 \<le> fst (utf8_step bs)"
  by (auto simp: utf8_step_def Let_def second_ok_def split: if_splits)

lemma utf8_lossy_newline: "10 \<in> set (utf8_lossy bs) \<Longrightarrow> 10 \<in> set bs"
proof (induction bs rule: utf8_lossy.induct)
  case (2 x bs)
  from "2.prems" consider "fst (utf8_step (x # bs)) = 10"
    | "10 \<in> set (utf8_lossy (drop (snd (utf8_step (x # bs)) - 1) bs))"
    by (auto simp: utf8_lossy.simps(2))
  then show ?case
  proof cases
    case 1
    then have "unat x < 128" using utf8_step_wide [of "x # bs"] by (auto simp: byte_at_def)
    with 1 have "unat x = 10" by (simp add: utf8_step_ascii)
    then have "x = 10" by (simp add: word_unat_eq_iff)
    then show ?thesis by simp
  next
    case 2
    then show ?thesis using "2.IH" by (auto dest: in_set_dropD)
  qed
qed simp

section \<open>Lines and words\<close>

definition is_whitespace :: "nat \<Rightarrow> bool" where
  "is_whitespace c \<longleftrightarrow> 9 \<le> c \<and> c \<le> 13 \<or> c = 32 \<or> c = 133 \<or> c = 160 \<or> c = 5760 \<or>
     8192 \<le> c \<and> c \<le> 8202 \<or> c = 8232 \<or> c = 8233 \<or> c = 8239 \<or> c = 8287 \<or> c = 12288"

fun split_inclusive :: "'a \<Rightarrow> 'a list \<Rightarrow> 'a list list" where
  "split_inclusive nl [] = []"
| "split_inclusive nl (x # xs) =
     (if x = nl then [x] # split_inclusive nl xs
      else case split_inclusive nl xs of [] \<Rightarrow> [[x]] | l # ls \<Rightarrow> (x # l) # ls)"

definition strip_eol :: "codepoints \<Rightarrow> codepoints" where
  "strip_eol l =
     (if l \<noteq> [] \<and> last l = 10
      then (let l' = butlast l in if l' \<noteq> [] \<and> last l' = 13 then butlast l' else l')
      else l)"

definition text_lines :: "codepoints \<Rightarrow> codepoints list" where
  "text_lines t = map strip_eol (split_inclusive 10 t)"

definition trim_start :: "codepoints \<Rightarrow> codepoints" where
  "trim_start = dropWhile is_whitespace"

function split_whitespace :: "codepoints \<Rightarrow> codepoints list" where
  "split_whitespace [] = []"
| "split_whitespace (c # cs) =
     (if is_whitespace c then split_whitespace cs
      else (c # takeWhile (\<lambda>x. \<not> is_whitespace x) cs) # split_whitespace (dropWhile (\<lambda>x. \<not> is_whitespace x) cs))"
  by pat_completeness auto
termination
  by (relation "measure length") (auto simp: le_imp_less_Suc length_dropWhile_le)

lemma concat_split_inclusive: "concat (split_inclusive nl xs) = xs"
  by (induction nl xs rule: split_inclusive.induct) (auto split: list.splits)

lemma split_inclusive_eq_Nil [simp]: "split_inclusive nl xs = [] \<longleftrightarrow> xs = []"
  by (metis concat.simps(1) concat_split_inclusive split_inclusive.simps(1))

lemma split_inclusive_cut: "split_inclusive nl (xs @ nl # ys) = split_inclusive nl (xs @ [nl]) @ split_inclusive nl ys"
proof (induction xs)
  case (Cons x xs)
  then show ?case by (cases "split_inclusive nl (xs @ [nl])") auto
qed simp

lemma split_inclusive_none: "nl \<notin> set xs \<Longrightarrow> xs \<noteq> [] \<Longrightarrow> split_inclusive nl xs = [xs]"
proof (induction xs)
  case (Cons x xs)
  then show ?case by (cases "xs = []") auto
qed simp

lemma split_inclusive_first: "nl \<notin> set xs \<Longrightarrow> split_inclusive nl (xs @ nl # ys) = (xs @ [nl]) # split_inclusive nl ys"
  by (induction xs) auto

lemma split_inclusive_cons:
  "split_inclusive nl xs = a # l # ls \<Longrightarrow> \<exists>w ys. a = w @ [nl] \<and> nl \<notin> set w \<and> xs = a @ ys \<and> split_inclusive nl ys = l # ls"
proof (cases "nl \<in> set xs")
  case True
  assume eq: "split_inclusive nl xs = a # l # ls"
  obtain w ys where "xs = w @ nl # ys" "nl \<notin> set w" using split_list_first [OF True] by blast
  with eq show ?thesis by (auto simp: split_inclusive_first)
next
  case False
  assume "split_inclusive nl xs = a # l # ls"
  with False split_inclusive_none [of nl xs] show ?thesis by (cases "xs = []") auto
qed

lemma split_inclusive_prefix:
  "split_inclusive nl xs = as @ bs \<Longrightarrow> bs \<noteq> [] \<Longrightarrow> split_inclusive nl (concat as) = as"
proof (induction as arbitrary: xs)
  case (Cons a as)
  obtain l ls where "as @ bs = l # ls" using Cons.prems(2) by (cases "as @ bs") auto
  then obtain w ys where w: "a = w @ [nl]" "nl \<notin> set w" "split_inclusive nl ys = as @ bs"
    using split_inclusive_cons [of nl xs a l ls] Cons.prems(1) by auto
  then show ?case using Cons.IH [OF w(3) Cons.prems(2)] by (simp add: split_inclusive_first)
qed simp

lemma split_inclusive_utf8: "split_inclusive 10 (utf8_lossy bs) = map utf8_lossy (split_inclusive 10 bs)"
proof (induction bs rule: length_induct)
  case (1 bs)
  show ?case
  proof (cases "10 \<in> set bs")
    case True
    then obtain w ys where bs: "bs = w @ 10 # ys" "10 \<notin> set w" using split_list_first by force
    have cut: "utf8_lossy (w @ 10 # zs) = utf8_lossy w @ 10 # utf8_lossy zs" for zs
      using utf8_lossy_cut [of 10 w zs] by simp
    have "10 \<notin> set (utf8_lossy w)" using bs(2) utf8_lossy_newline by blast
    then show ?thesis
      using bs "1.IH" cut [of "[]"] by (simp add: split_inclusive_first cut)
  next
    case False
    then have "10 \<notin> set (utf8_lossy bs)" using utf8_lossy_newline by blast
    moreover have "utf8_lossy bs \<noteq> []" if "bs \<noteq> []" using that by (cases bs) (simp_all add: utf8_lossy.simps(2))
    ultimately show ?thesis
      using False by (cases "bs = []") (simp_all add: split_inclusive_none)
  qed
qed

lemma text_lines_utf8: "text_lines (utf8_lossy bs) = map (\<lambda>l. strip_eol (utf8_lossy l)) (split_inclusive 10 bs)"
  by (simp add: text_lines_def split_inclusive_utf8)

lemma split_whitespace_trim: "split_whitespace (trim_start l) = split_whitespace l"
  unfolding trim_start_def by (induction l) auto

lemma split_whitespace_snoc: "is_whitespace w \<Longrightarrow> split_whitespace (l @ [w]) = split_whitespace l"
proof (induction l rule: split_whitespace.induct)
  case (2 c cs)
  show ?case
  proof (cases "\<forall>x\<in>set cs. \<not> is_whitespace x")
    case True
    then have t: "takeWhile (\<lambda>x. \<not> is_whitespace x) cs = cs" "dropWhile (\<lambda>x. \<not> is_whitespace x) cs = []"
      by (simp_all add: takeWhile_eq_all_conv)
    from 2 True show ?thesis by (auto simp: takeWhile_append dropWhile_append t)
  next
    case False
    with 2 show ?thesis by (auto simp: takeWhile_append dropWhile_append)
  qed
qed simp

lemma split_whitespace_strip_eol: "split_whitespace (strip_eol l) = split_whitespace l"
proof -
  have ws: "is_whitespace 10" "is_whitespace 13" by (simp_all add: is_whitespace_def)
  have snoc: "l = butlast l @ [x]" if "l \<noteq> []" "last l = x" for l and x :: nat
    using that by (metis append_butlast_last_id)
  show ?thesis
    using snoc [of l 10] snoc [of "butlast l" 13] split_whitespace_snoc [OF ws(1), of "butlast l"]
      split_whitespace_snoc [OF ws(2), of "butlast (butlast l)"]
    by (auto simp: strip_eol_def Let_def)
qed

lemma trim_start_hd: "trim_start l \<noteq> [] \<Longrightarrow> \<not> is_whitespace (hd (trim_start l))"
  unfolding trim_start_def by (induction l) auto

section \<open>Unsigned decimal numbers\<close>

text \<open>\<open>str::parse\<close> at an unsigned type with \<open>w\<close> bits: an optional plus sign, at least one
  digit, no overflow.\<close>

fun parse_digits :: "nat \<Rightarrow> nat \<Rightarrow> codepoints \<Rightarrow> nat option" where
  "parse_digits bound acc [] = Some acc"
| "parse_digits bound acc (c # cs) =
     (if 48 \<le> c \<and> c \<le> 57
      then let v = acc * 10 + (c - 48) in if v < bound then parse_digits bound v cs else None
      else None)"

definition parse_unsigned :: "nat \<Rightarrow> codepoints \<Rightarrow> nat option" where
  "parse_unsigned bound s =
     (case s of [] \<Rightarrow> None
      | c # cs \<Rightarrow> if c = 43 \<and> cs \<noteq> [] then parse_digits bound 0 cs else parse_digits bound 0 s)"

definition parse_u32 :: "codepoints \<Rightarrow> u32 option" where
  "parse_u32 s = map_option word_of_nat (parse_unsigned (2 ^ 32) s)"

lemma parse_u32_hash: "parse_u32 (35 # s) = None"
  by (simp add: parse_u32_def parse_unsigned_def)

lemma parse_u32_Nil: "parse_u32 [] = None"
  by (simp add: parse_u32_def parse_unsigned_def)

end
