(* ===== verification/Timeline.thy ===== *)
theory Timeline
  imports Text Positions
begin

text \<open>
  Timeline histories (\<open>src/src/source/timeline.rs\<close>): parsing the bytes the source serves,
  the branch that owns a position, and the branch decisions of a restart. The parser of a
  switchpoint (\<open>parse_pg_lsn\<close>) belongs to another crate and is an argument. The text
  of a syntax error is kept as its cause.
\<close>

section \<open>Data\<close>

datatype syntax_reason = NumericExpected codepoints | SwitchpointExpected | BadSwitchpoint codepoints

datatype history_error =
    Syntax nat syntax_reason
  | NonIncreasing nat u32 u32
  | TargetNotAbove u32 u32

record history_entry =
  he_tli :: u32
  he_begin :: u64
  he_end :: "u64 option"

definition he_covers :: "history_entry \<Rightarrow> u64 \<Rightarrow> bool" where
  "he_covers e lsn \<longleftrightarrow> he_begin e \<le> lsn \<and> (case he_end e of None \<Rightarrow> True | Some end_lsn \<Rightarrow> lsn < end_lsn)"

record timeline_history =
  th_target :: u32
  th_entries :: "history_entry list"
  th_raw :: bytes

definition history_root :: "u32 \<Rightarrow> timeline_history" where
  "history_root target = \<lparr>th_target = target,
     th_entries = [\<lparr>he_tli = target, he_begin = 0, he_end = None\<rparr>], th_raw = []\<rparr>"

section \<open>Parsing\<close>

text \<open>One line: \<open>None\<close> for a blank or comment line, otherwise the timeline and its
  switchpoint.\<close>

definition parse_line :: "(codepoints \<Rightarrow> u64 option) \<Rightarrow> codepoints \<Rightarrow> (syntax_reason, (u32 \<times> u64) option) result" where
  "parse_line parse_pg_lsn line =
     (let trimmed = trim_start line in
      if trimmed = [] \<or> hd trimmed = 35 then Inr None
      else
        let fields = split_whitespace trimmed;
            tli_field = (case fields of [] \<Rightarrow> [] | f # _ \<Rightarrow> f)
        in case parse_u32 tli_field of
             None \<Rightarrow> Inl (NumericExpected tli_field)
           | Some tli \<Rightarrow>
               (case tl fields of
                  [] \<Rightarrow> Inl SwitchpointExpected
                | switchpoint # _ \<Rightarrow>
                    (case parse_pg_lsn switchpoint of
                       None \<Rightarrow> Inl (BadSwitchpoint switchpoint)
                     | Some end_lsn \<Rightarrow> Inr (Some (tli, end_lsn)))))"

fun parse_lines :: "(codepoints \<Rightarrow> u64 option) \<Rightarrow> nat \<Rightarrow> codepoints list \<Rightarrow> history_entry list \<Rightarrow> u64 \<Rightarrow>
    (history_error, history_entry list \<times> u64) result" where
  "parse_lines parse_pg_lsn line_no [] entries prev_end = Inr (entries, prev_end)"
| "parse_lines parse_pg_lsn line_no (line # rest) entries prev_end =
     (case parse_line parse_pg_lsn line of
        Inl reason \<Rightarrow> Inl (Syntax line_no reason)
      | Inr None \<Rightarrow> parse_lines parse_pg_lsn (Suc line_no) rest entries prev_end
      | Inr (Some (tli, end_lsn)) \<Rightarrow>
          if entries \<noteq> [] \<and> tli \<le> he_tli (last entries)
          then Inl (NonIncreasing line_no tli (he_tli (last entries)))
          else parse_lines parse_pg_lsn (Suc line_no) rest
                 (entries @ [\<lparr>he_tli = tli, he_begin = prev_end, he_end = Some end_lsn\<rparr>]) end_lsn)"

definition history_parse :: "(codepoints \<Rightarrow> u64 option) \<Rightarrow> u32 \<Rightarrow> bytes \<Rightarrow> (history_error, timeline_history) result" where
  "history_parse parse_pg_lsn target raw =
     (case parse_lines parse_pg_lsn 1 (text_lines (utf8_lossy raw)) [] 0 of
        Inl e \<Rightarrow> Inl e
      | Inr (entries, prev_end) \<Rightarrow>
          if entries \<noteq> [] \<and> target \<le> he_tli (last entries)
          then Inl (TargetNotAbove target (he_tli (last entries)))
          else Inr \<lparr>th_target = target,
                    th_entries = entries @ [\<lparr>he_tli = target, he_begin = prev_end, he_end = None\<rparr>],
                    th_raw = raw\<rparr>)"

section \<open>Queries\<close>

definition line_names :: "u32 \<Rightarrow> bytes \<Rightarrow> bool" where
  "line_names tli line \<longleftrightarrow>
     (case split_whitespace (utf8_lossy line) of [] \<Rightarrow> False | f # _ \<Rightarrow> parse_u32 f = Some tli)"

fun raw_before :: "u32 \<Rightarrow> bytes list \<Rightarrow> bytes \<Rightarrow> bytes option" where
  "raw_before tli [] seen = None"
| "raw_before tli (line # rest) seen =
     (if line_names tli line then Some seen else raw_before tli rest (seen @ line))"

definition raw_for :: "timeline_history \<Rightarrow> u32 \<Rightarrow> bytes option" where
  "raw_for h tli =
     (if tli = th_target h then Some (th_raw h)
      else if tli \<le> he_tli (hd (th_entries h)) then None
      else raw_before tli (split_inclusive 10 (th_raw h)) [])"

definition tli_of_point :: "timeline_history \<Rightarrow> u64 \<Rightarrow> u32 option" where
  "tli_of_point h lsn = map_option he_tli (find (\<lambda>e. he_covers e lsn) (th_entries h))"

definition tli_of_segment :: "timeline_history \<Rightarrow> u64 \<Rightarrow> u64 \<Rightarrow> u32 option" where
  "tli_of_segment h lsn seg_size =
     map_option he_tli (find (\<lambda>e. he_begin e div seg_size \<le> lsn div seg_size) (rev (th_entries h)))"

definition begin_of :: "timeline_history \<Rightarrow> u32 \<Rightarrow> u64 option" where
  "begin_of h tli = map_option he_begin (find (\<lambda>e. he_tli e = tli) (th_entries h))"

definition history_contains :: "timeline_history \<Rightarrow> u32 \<Rightarrow> bool" where
  "history_contains h tli \<longleftrightarrow> list_ex (\<lambda>e. he_tli e = tli) (th_entries h)"

definition switchpoint_of :: "timeline_history \<Rightarrow> u32 \<Rightarrow> u64 option" where
  "switchpoint_of h tli = Option.bind (find (\<lambda>e. he_tli e = tli) (th_entries h)) he_end"

fun entry_after :: "u32 \<Rightarrow> history_entry list \<Rightarrow> u32 option" where
  "entry_after tli [] = None"
| "entry_after tli (e # es) =
     (if he_tli e = tli then (case es of [] \<Rightarrow> None | e' # _ \<Rightarrow> Some (he_tli e')) else entry_after tli es)"

definition successor_of :: "timeline_history \<Rightarrow> u32 \<Rightarrow> u32 option" where
  "successor_of h tli = entry_after tli (th_entries h)"

definition proves_ancestor :: "timeline_history \<Rightarrow> u32 \<Rightarrow> u64 \<Rightarrow> bool" where
  "proves_ancestor h tli lsn \<longleftrightarrow> tli_of_point h lsn = Some tli"

definition resume_branch :: "timeline_history \<Rightarrow> u32 \<Rightarrow> u64 \<Rightarrow> u64 \<Rightarrow> u32 option" where
  "resume_branch h stored_timeline aligned seg_size =
     (case tli_of_segment h aligned seg_size of
        None \<Rightarrow> None
      | Some serves \<Rightarrow>
          if proves_ancestor h stored_timeline aligned then Some stored_timeline
          else if history_contains h stored_timeline \<and> stored_timeline \<le> serves then Some serves
          else None)"

definition floor_branch :: "timeline_history \<Rightarrow> u64 \<Rightarrow> u32 \<Rightarrow> u32 \<Rightarrow> u64 \<Rightarrow> u32" where
  "floor_branch h floor_lsn live_timeline stream_timeline seg_size =
     min (case tli_of_segment h floor_lsn seg_size of None \<Rightarrow> live_timeline | Some t \<Rightarrow> t) stream_timeline"

definition shadow_boot_branch :: "timeline_history \<Rightarrow> u32 \<Rightarrow> u64 \<Rightarrow> u32 \<Rightarrow> u32" where
  "shadow_boot_branch h stored_timeline aligned start_timeline =
     (let behind = min stored_timeline
            (case tli_of_point h aligned of None \<Rightarrow> start_timeline | Some t \<Rightarrow> t)
      in if behind < start_timeline \<and> history_contains h behind then behind else start_timeline)"

definition branch_exhausted :: "timeline_history \<Rightarrow> u32 \<Rightarrow> u64 \<Rightarrow> bool" where
  "branch_exhausted h tli next_lsn \<longleftrightarrow> switchpoint_of h tli = Some next_lsn"

section \<open>The chain a parsed history forms\<close>

text \<open>Entries built from a list of ancestors: each begins where the one before it ended.\<close>

fun chain_entries :: "u64 \<Rightarrow> (u32 \<times> u64) list \<Rightarrow> u32 \<Rightarrow> history_entry list" where
  "chain_entries b [] target = [\<lparr>he_tli = target, he_begin = b, he_end = None\<rparr>]"
| "chain_entries b ((t, e) # items) target =
     \<lparr>he_tli = t, he_begin = b, he_end = Some e\<rparr> # chain_entries e items target"

text \<open>The ancestors a text lists, when every line is well formed.\<close>

fun line_items :: "(codepoints \<Rightarrow> u64 option) \<Rightarrow> codepoints list \<Rightarrow> (u32 \<times> u64) list option" where
  "line_items p [] = Some []"
| "line_items p (l # ls) =
     (case parse_line p l of
        Inl _ \<Rightarrow> None
      | Inr None \<Rightarrow> line_items p ls
      | Inr (Some i) \<Rightarrow> map_option (Cons i) (line_items p ls))"

definition above_last :: "history_entry list \<Rightarrow> u32 \<Rightarrow> bool" where
  "above_last es t \<longleftrightarrow> es = [] \<or> he_tli (last es) < t"

lemma chain_entries_ne [simp]: "chain_entries b items t \<noteq> []"
  by (cases items) (auto split: prod.splits)

lemma parse_lines_iff:
  "(\<exists>es pe. parse_lines p n ls entries prev = Inr (es, pe) \<and> above_last es target \<and>
      hist = es @ [\<lparr>he_tli = target, he_begin = pe, he_end = None\<rparr>]) \<longleftrightarrow>
   (\<exists>items. line_items p ls = Some items \<and>
      sorted_wrt (<) ((if entries = [] then [] else [he_tli (last entries)]) @ map fst items @ [target]) \<and>
      hist = entries @ chain_entries prev items target)"
proof (induction p n ls entries prev rule: parse_lines.induct)
  case (1 p n entries prev)
  then show ?case by (auto simp: above_last_def)
next
  case (2 p n l ls entries prev)
  show ?case
  proof (cases "parse_line p l")
    case (Inl r)
    then show ?thesis by simp
  next
    case (Inr o')
    show ?thesis
    proof (cases o')
      case None
      then show ?thesis using Inr "2.IH"(1) [OF Inr None] by simp
    next
      case (Some i)
      obtain t e where i: "i = (t, e)" by (cases i)
      show ?thesis
      proof (cases "entries \<noteq> [] \<and> t \<le> he_tli (last entries)")
        case True
        then show ?thesis using Inr Some i by auto
      next
        case False
        have "parse_lines p n (l # ls) entries prev = parse_lines p (Suc n) ls
            (entries @ [\<lparr>he_tli = t, he_begin = prev, he_end = Some e\<rparr>]) e"
          using False Inr Some i by auto
        then show ?thesis
          using "2.IH"(2) [OF Inr Some i [symmetric] False] False Inr Some i
          by (auto simp: not_le) (fastforce intro: less_trans)+
      qed
    qed
  qed
qed

lemma history_parse_iff:
  "history_parse p target raw = Inr h \<longleftrightarrow>
   (\<exists>items. line_items p (text_lines (utf8_lossy raw)) = Some items \<and>
      sorted_wrt (<) (map fst items @ [target]) \<and>
      h = \<lparr>th_target = target, th_entries = chain_entries 0 items target, th_raw = raw\<rparr>)"
proof -
  have "history_parse p target raw = Inr h \<longleftrightarrow>
    (\<exists>es pe. parse_lines p 1 (text_lines (utf8_lossy raw)) [] 0 = Inr (es, pe) \<and> above_last es target \<and>
       th_entries h = es @ [\<lparr>he_tli = target, he_begin = pe, he_end = None\<rparr>]) \<and>
    th_target h = target \<and> th_raw h = raw"
    by (cases h) (auto simp: history_parse_def above_last_def split: sum.splits prod.splits if_splits)
  then show ?thesis
    unfolding parse_lines_iff by (cases h) auto
qed

lemma chain_tlis: "map he_tli (chain_entries b items target) = map fst items @ [target]"
  by (induction b items target rule: chain_entries.induct) auto

lemma chain_hd: "he_begin (hd (chain_entries b items target)) = b"
  by (cases items) auto

lemma chain_last: "he_end (last (chain_entries b items target)) = None"
  by (induction b items target rule: chain_entries.induct) auto

lemma chain_links:
  "Suc i < length (chain_entries b items target) \<Longrightarrow>
   he_end (chain_entries b items target ! i) = Some (he_begin (chain_entries b items target ! Suc i))"
proof (induction b items target arbitrary: i rule: chain_entries.induct)
  case (2 b t e items target)
  show ?case
  proof (cases i)
    case 0
    then show ?thesis using chain_hd [of e items target] by (cases "chain_entries e items target") auto
  next
    case (Suc j)
    with 2 show ?thesis by simp
  qed
qed simp

text \<open>The branches tile the positions: some branch covers every position, and only one when the
  switchpoints do not go back.\<close>

lemma chain_covered: "b \<le> lsn \<Longrightarrow> \<exists>e \<in> set (chain_entries b items target). he_covers e lsn"
proof (induction b items target rule: chain_entries.induct)
  case (2 b t e items target)
  then show ?case by (cases "lsn < e") (auto simp: he_covers_def not_less)
qed (simp add: he_covers_def)

lemma chain_begin_ge:
  "sorted (map he_begin (chain_entries b items target)) \<Longrightarrow> x \<in> set (chain_entries b items target) \<Longrightarrow> b \<le> he_begin x"
  by (cases items) auto

lemma chain_cover_unique:
  "sorted (map he_begin (chain_entries b items target)) \<Longrightarrow>
   x \<in> set (chain_entries b items target) \<Longrightarrow> y \<in> set (chain_entries b items target) \<Longrightarrow>
   he_covers x lsn \<Longrightarrow> he_covers y lsn \<Longrightarrow> x = y"
proof (induction b items target rule: chain_entries.induct)
  case (2 b t e items target)
  have srt: "sorted (map he_begin (chain_entries e items target))" using "2.prems"(1) by simp
  have late: "e \<le> he_begin z" if "z \<in> set (chain_entries e items target)" for z
    using chain_begin_ge [OF srt that] .
  show ?case
    using "2.IH" [OF srt] "2.prems" late
    by (auto simp: he_covers_def) (meson leD order_trans)+
qed simp

lemma chain_tli_inj:
  "sorted_wrt (<) (map fst items @ [target]) \<Longrightarrow> x \<in> set (chain_entries b items target) \<Longrightarrow>
   y \<in> set (chain_entries b items target) \<Longrightarrow> he_tli x = he_tli y \<Longrightarrow> x = y"
proof -
  assume "sorted_wrt (<) (map fst items @ [target])"
  then have "distinct (map he_tli (chain_entries b items target))"
    unfolding chain_tlis by (simp only: strict_sorted_iff)
  then show "x \<in> set (chain_entries b items target) \<Longrightarrow> y \<in> set (chain_entries b items target) \<Longrightarrow>
    he_tli x = he_tli y \<Longrightarrow> x = y"
    by (simp add: distinct_map inj_on_def)
qed

lemma find_SomeI: "x \<in> set xs \<Longrightarrow> P x \<Longrightarrow> \<exists>y. find P xs = Some y \<and> y \<in> set xs \<and> P y"
  by (induction xs) auto

lemma find_SomeD: "find P xs = Some y \<Longrightarrow> y \<in> set xs \<and> P y"
  by (induction xs) (auto split: if_splits)

section \<open>Cutting a history back to an ancestor\<close>

lemma parse_line_item:
  assumes "parse_line p (strip_eol (utf8_lossy l)) = Inr x"
  shows "line_names tli l \<longleftrightarrow> (\<exists>e. x = Some (tli, e))"
proof -
  let ?t = "trim_start (strip_eol (utf8_lossy l))"
  have words: "split_whitespace (utf8_lossy l) = split_whitespace ?t"
    by (simp add: split_whitespace_trim split_whitespace_strip_eol)
  show ?thesis
  proof (cases "?t = [] \<or> hd ?t = 35")
    case True
    then have "x = None" using assms by (auto simp: parse_line_def Let_def)
    moreover have "\<not> line_names tli l"
    proof (cases "?t = []")
      case True
      then show ?thesis by (simp add: line_names_def words)
    next
      case False
      then have "hd ?t = 35" "\<not> is_whitespace (hd ?t)"
        using \<open>?t = [] \<or> hd ?t = 35\<close> by (auto simp: is_whitespace_def)
      then show ?thesis using False by (cases ?t) (auto simp: line_names_def words parse_u32_hash)
    qed
    ultimately show ?thesis by simp
  next
    case False
    then show ?thesis
      using assms trim_start_hd [of "strip_eol (utf8_lossy l)"]
      by (cases ?t) (auto simp: parse_line_def line_names_def words Let_def split: option.splits list.splits)
  qed
qed

lemma raw_before_spec:
  "line_items p (map (\<lambda>l. strip_eol (utf8_lossy l)) ls) = Some items \<Longrightarrow> tli \<in> fst ` set items \<Longrightarrow>
   \<exists>as b bs. ls = as @ b # bs \<and> raw_before tli ls seen = Some (seen @ concat as) \<and>
     line_items p (map (\<lambda>l. strip_eol (utf8_lossy l)) as) = Some (takeWhile (\<lambda>i. fst i \<noteq> tli) items)"
proof (induction ls arbitrary: items seen)
  case (Cons l ls)
  obtain x where x: "parse_line p (strip_eol (utf8_lossy l)) = Inr x"
    using Cons.prems(1) by (cases "parse_line p (strip_eol (utf8_lossy l))") auto
  note names = parse_line_item [OF x, of tli]
  show ?case
  proof (cases "line_names tli l")
    case True
    with names Cons.prems x show ?thesis
      by (intro exI [of _ "[]"] exI [of _ l] exI [of _ ls]) auto
  next
    case False
    then obtain rest where rest: "line_items p (map (\<lambda>l. strip_eol (utf8_lossy l)) ls) = Some rest"
      "tli \<in> fst ` set rest" and items: "items = (case x of None \<Rightarrow> rest | Some i \<Rightarrow> i # rest)"
      using Cons.prems x names by (cases x) force+
    obtain as b bs where "ls = as @ b # bs" "raw_before tli ls (seen @ l) = Some ((seen @ l) @ concat as)"
      "line_items p (map (\<lambda>l. strip_eol (utf8_lossy l)) as) = Some (takeWhile (\<lambda>i. fst i \<noteq> tli) rest)"
      using Cons.IH [OF rest, of "seen @ l"] by blast
    then show ?thesis using False x items names
      by (intro exI [of _ "l # as"] exI [of _ b] exI [of _ bs]) (auto split: option.splits)
  qed
qed simp

lemma chain_prefix:
  "tli \<in> fst ` set items \<or> tli = target \<Longrightarrow>
   chain_entries b (takeWhile (\<lambda>i. fst i \<noteq> tli) items) tli =
     takeWhile (\<lambda>e. he_tli e \<noteq> tli) (chain_entries b items target) @
     [\<lparr>he_tli = tli, he_begin = the (map_option he_begin (find (\<lambda>e. he_tli e = tli) (chain_entries b items target))),
       he_end = None\<rparr>]"
  by (induction b items target rule: chain_entries.induct) auto

lemma sorted_cut:
  "sorted_wrt (<) (map fst items) \<Longrightarrow> (tli :: u32) \<in> fst ` set items \<Longrightarrow>
   sorted_wrt (<) (map fst (takeWhile (\<lambda>i. fst i \<noteq> tli) items) @ [tli])"
proof (induction items)
  case (Cons i items)
  show ?case
  proof (cases "fst i = tli")
    case False
    with Cons have "sorted_wrt (<) (map fst (takeWhile (\<lambda>i. fst i \<noteq> tli) items) @ [tli])"
      "\<forall>x \<in> fst ` set items. fst i < x" "tli \<in> fst ` set items"
      by auto
    with False show ?thesis by (auto dest!: set_takeWhileD)
  qed simp
qed simp

section \<open>Properties of timeline histories\<close>

text \<open>
  C12: a history that parses is a chain. Its timelines strictly increase, the oldest begins at
  zero, each branch ends exactly where the next begins, the target is the last branch and the only
  open one, and the bytes are kept as served. Some branch serves every position; when the
  switchpoints do not go back, exactly one covers it and \<open>tli_of_point\<close> names it, a
  switchpoint belonging to the descendant.
\<close>
theorem history_parse_chain:
  assumes parse: "history_parse p target raw = Inr h"
  shows "sorted_wrt (<) (map he_tli (th_entries h)) \<and>
     he_begin (hd (th_entries h)) = 0 \<and>
     (\<forall>i. Suc i < length (th_entries h) \<longrightarrow> he_end (th_entries h ! i) = Some (he_begin (th_entries h ! Suc i))) \<and>
     he_tli (last (th_entries h)) = target \<and> he_end (last (th_entries h)) = None \<and> th_raw h = raw \<and>
     (\<forall>lsn. tli_of_point h lsn \<noteq> None) \<and>
     (sorted (map he_begin (th_entries h)) \<longrightarrow>
        (\<forall>e \<in> set (th_entries h). \<forall>lsn. he_covers e lsn \<longleftrightarrow> tli_of_point h lsn = Some (he_tli e)))"
proof -
  obtain items where items: "sorted_wrt (<) (map fst items @ [target])"
    and h: "th_entries h = chain_entries 0 items target" "th_raw h = raw"
    using parse by (auto simp: history_parse_iff)
  have covered: "\<exists>e. find (\<lambda>e. he_covers e lsn) (th_entries h) = Some e \<and> e \<in> set (th_entries h) \<and> he_covers e lsn" for lsn
    using chain_covered [of 0 lsn items target] find_SomeI by (fastforce simp: h)
  have tl: "he_tli (last (th_entries h)) = target"
    using arg_cong [OF chain_tlis [of 0 items target], of last] by (simp add: h last_map)
  have point: "he_covers e lsn \<longleftrightarrow> tli_of_point h lsn = Some (he_tli e)"
    if "sorted (map he_begin (th_entries h))" "e \<in> set (th_entries h)" for e lsn
  proof -
    obtain e0 where e0: "find (\<lambda>e. he_covers e lsn) (th_entries h) = Some e0" "e0 \<in> set (th_entries h)"
      "he_covers e0 lsn" using covered by blast
    then have eq: "tli_of_point h lsn = Some (he_tli e0)" by (simp add: tli_of_point_def)
    have "he_covers e lsn \<Longrightarrow> e = e0"
      using chain_cover_unique [of 0 items target e e0 lsn] that e0 by (simp add: h)
    moreover have "he_tli e0 = he_tli e \<Longrightarrow> e0 = e"
      using chain_tli_inj [OF items, of e0 0 e] that e0 by (simp add: h)
    ultimately show ?thesis using eq e0(3) by auto
  qed
  have total: "tli_of_point h lsn \<noteq> None" for lsn
    using covered [of lsn] by (auto simp: tli_of_point_def)
  have "sorted_wrt (<) (map he_tli (th_entries h))" "he_begin (hd (th_entries h)) = 0"
    "\<forall>i. Suc i < length (th_entries h) \<longrightarrow> he_end (th_entries h ! i) = Some (he_begin (th_entries h ! Suc i))"
    "he_end (last (th_entries h)) = None"
    using items by (simp_all add: h chain_tlis chain_hd chain_last chain_links)
  with tl total point h(2) show ?thesis by blast
qed

definition demo_lsn :: "codepoints \<Rightarrow> u64 option" where
  "demo_lsn s = (case s of [c] \<Rightarrow> if 48 \<le> c \<and> c \<le> 57 then Some (word_of_nat (c - 48)) else None | _ \<Rightarrow> None)"

definition demo_history :: bytes where
  "demo_history = [49, 9, 53, 9, 120, 10, 35, 10, 32, 50, 32, 57, 13, 10]"

theorem history_parse_chain_witness:
  "history_parse demo_lsn 3 demo_history = Inr \<lparr>th_target = 3,
     th_entries = [\<lparr>he_tli = 1, he_begin = 0, he_end = Some 5\<rparr>, \<lparr>he_tli = 2, he_begin = 5, he_end = Some 9\<rparr>,
       \<lparr>he_tli = 3, he_begin = 9, he_end = None\<rparr>], th_raw = demo_history\<rparr> \<and>
   (\<forall>lsn. tli_of_point \<lparr>th_target = 3,
     th_entries = [\<lparr>he_tli = 1, he_begin = 0, he_end = Some 5\<rparr>, \<lparr>he_tli = 2, he_begin = 5, he_end = Some 9\<rparr>,
       \<lparr>he_tli = 3, he_begin = 9, he_end = None\<rparr>], th_raw = demo_history\<rparr> lsn \<noteq> None)"
proof -
  let ?h = "\<lparr>th_target = 3, th_entries = [\<lparr>he_tli = 1, he_begin = 0, he_end = Some 5\<rparr>,
     \<lparr>he_tli = 2, he_begin = 5, he_end = Some 9\<rparr>, \<lparr>he_tli = 3, he_begin = 9, he_end = None\<rparr>],
     th_raw = demo_history\<rparr>"
  have p: "history_parse demo_lsn 3 demo_history = Inr ?h"
    by (simp add: history_parse_def demo_history_def utf8_lossy_ascii text_lines_def strip_eol_def
        parse_line_def trim_start_def is_whitespace_def parse_u32_def parse_unsigned_def demo_lsn_def word_le_nat_alt)
  from history_parse_chain [OF p] p show ?thesis by blast
qed

text \<open>
  C13: the served bytes prove every ancestor. For each branch of a parsed history except the oldest,
  \<open>raw_for\<close> returns a prefix of the served bytes which is itself a history of that
  branch: it parses, and to the same chain cut at the branch, open from the position where
  the branch began.
\<close>
theorem raw_for_parses:
  assumes parse: "history_parse p target raw = Inr h"
    and tli: "history_contains h tli" "tli \<noteq> he_tli (hd (th_entries h)) \<or> tli = target"
  shows "\<exists>r h'. raw_for h tli = Some r \<and> history_parse p tli r = Inr h' \<and>
     th_entries h' = takeWhile (\<lambda>e. he_tli e \<noteq> tli) (th_entries h) @
       [\<lparr>he_tli = tli, he_begin = the (begin_of h tli), he_end = None\<rparr>]"
proof -
  obtain items where items: "line_items p (text_lines (utf8_lossy raw)) = Some items"
    "sorted_wrt (<) (map fst items @ [target])"
    and h: "h = \<lparr>th_target = target, th_entries = chain_entries 0 items target, th_raw = raw\<rparr>"
    using parse by (auto simp: history_parse_iff)
  show ?thesis
  proof (cases "tli = target")
    case True
    then have t: "takeWhile (\<lambda>i. fst i \<noteq> tli) items = items"
      using items(2) by (auto simp: takeWhile_eq_all_conv sorted_wrt_append)
    have "chain_entries 0 items tli = takeWhile (\<lambda>e. he_tli e \<noteq> tli) (chain_entries 0 items tli) @
       [\<lparr>he_tli = tli, he_begin = the (map_option he_begin (find (\<lambda>e. he_tli e = tli) (chain_entries 0 items tli))),
         he_end = None\<rparr>]"
      by (rule chain_prefix [of tli items tli 0, unfolded t]) simp
    then have E: "th_entries h = takeWhile (\<lambda>e. he_tli e \<noteq> tli) (th_entries h) @
       [\<lparr>he_tli = tli, he_begin = the (begin_of h tli), he_end = None\<rparr>]"
      unfolding h begin_of_def timeline_history.simps True .
    show ?thesis
      by (intro exI [of _ raw] exI [of _ h] conjI E) (use parse True in \<open>simp_all add: raw_for_def h\<close>)
  next
    case False
    have "tli \<in> set (map he_tli (th_entries h))"
      using tli(1) by (auto simp: history_contains_def list_ex_iff)
    then have mem: "tli \<in> fst ` set items" using False by (simp add: h chain_tlis del: set_map) auto
    then obtain i0 rest where i0: "items = i0 # rest" by (cases items) auto
    then have "fst i0 < tli"
      using tli(2) False items(2) mem by (cases i0) (auto simp: h)
    let ?ls = "split_inclusive 10 raw"
    obtain as b bs where as: "?ls = as @ b # bs" "raw_before tli ?ls [] = Some (concat as)"
      "line_items p (map (\<lambda>l. strip_eol (utf8_lossy l)) as) = Some (takeWhile (\<lambda>i. fst i \<noteq> tli) items)"
      using raw_before_spec [OF _ mem, of p ?ls "[]"] items(1) by (auto simp: text_lines_utf8)
    have raw: "raw_for h tli = Some (concat as)"
      using False i0 \<open>fst i0 < tli\<close> as(2) by (cases i0) (simp add: raw_for_def h)
    have ls: "text_lines (utf8_lossy (concat as)) = map (\<lambda>l. strip_eol (utf8_lossy l)) as"
      using split_inclusive_prefix [OF as(1)] by (simp add: text_lines_utf8)
    have "sorted_wrt (<) (map fst (takeWhile (\<lambda>i. fst i \<noteq> tli) items) @ [tli])"
      using items(2) mem by (intro sorted_cut) (simp_all add: sorted_wrt_append)
    then have "history_parse p tli (concat as) = Inr \<lparr>th_target = tli,
       th_entries = chain_entries 0 (takeWhile (\<lambda>i. fst i \<noteq> tli) items) tli, th_raw = concat as\<rparr>"
      using as(3) by (simp add: history_parse_iff ls)
    then show ?thesis
      using mem raw chain_prefix [of tli items target 0] by (simp add: h begin_of_def)
  qed
qed

theorem raw_for_parses_witness:
  "history_parse demo_lsn 3 demo_history = Inr \<lparr>th_target = 3,
     th_entries = chain_entries 0 [(1, 5), (2, 9)] 3, th_raw = demo_history\<rparr> \<and>
   (\<exists>r h'. raw_for \<lparr>th_target = 3, th_entries = chain_entries 0 [(1, 5), (2, 9)] 3, th_raw = demo_history\<rparr> 2
      = Some r \<and> history_parse demo_lsn 2 r = Inr h' \<and> map he_tli (th_entries h') = [1, 2])"
proof -
  let ?h = "\<lparr>th_target = 3 :: u32, th_entries = chain_entries 0 [(1, 5), (2, 9)] 3, th_raw = demo_history\<rparr>"
  have p: "history_parse demo_lsn 3 demo_history = Inr ?h"
    by (simp add: history_parse_def demo_history_def utf8_lossy_ascii text_lines_def strip_eol_def
        parse_line_def trim_start_def is_whitespace_def parse_u32_def parse_unsigned_def demo_lsn_def word_le_nat_alt)
  have c: "history_contains ?h 2" "2 \<noteq> he_tli (hd (th_entries ?h)) \<or> 2 = (3 :: u32)"
    by (simp_all add: history_contains_def)
  from raw_for_parses [OF p c] p show ?thesis by auto
qed

lemma tli_of_segment_entry:
  assumes "history_parse p target raw = Inr h"
  shows "\<exists>e \<in> set (th_entries h). tli_of_segment h lsn seg = Some (he_tli e) \<and> he_begin e div seg \<le> lsn div seg"
proof -
  obtain items where h: "th_entries h = chain_entries 0 items target"
    using assms by (auto simp: history_parse_iff)
  have hd: "hd (th_entries h) \<in> set (th_entries h)" "he_begin (hd (th_entries h)) div seg \<le> lsn div seg"
    using chain_hd [of 0 items target] by (simp_all add: h)
  obtain e where "find (\<lambda>e. he_begin e div seg \<le> lsn div seg) (rev (th_entries h)) = Some e"
    "e \<in> set (rev (th_entries h))" "he_begin e div seg \<le> lsn div seg"
    using find_SomeI [of "hd (th_entries h)" "rev (th_entries h)" "\<lambda>e. he_begin e div seg \<le> lsn div seg"] hd
    by auto
  then show ?thesis by (auto simp: tli_of_segment_def)
qed

lemma begin_of_entry:
  assumes "history_parse p target raw = Inr h" "e \<in> set (th_entries h)"
  shows "begin_of h (he_tli e) = Some (he_begin e)"
proof -
  obtain items where items: "sorted_wrt (<) (map fst items @ [target])" "th_entries h = chain_entries 0 items target"
    using assms(1) by (auto simp: history_parse_iff)
  obtain x where "find (\<lambda>x. he_tli x = he_tli e) (th_entries h) = Some x" "x \<in> set (th_entries h)"
    "he_tli x = he_tli e"
    using find_SomeI [OF assms(2), of "\<lambda>x. he_tli x = he_tli e"] by auto
  with chain_tli_inj [OF items(1), of x 0 e] assms(2) items(2) show ?thesis by (simp add: begin_of_def)
qed

text \<open>
  C14: a run can resume from what it recorded. The branch stored with a floor
  (\<open>floor_branch\<close>, clamped to the branch being streamed) is never refused by
  \<open>resume_branch\<close> at that floor, and the branch selected for the restart is on the chain, not
  older than the stored one, and began no later than the segment of the floor.
\<close>
theorem resume_accepts_own_floor:
  assumes parse: "history_parse p target raw = Inr h" and stream: "history_contains h stream"
  shows "\<exists>r b. resume_branch h (floor_branch h floor_lsn live stream seg) floor_lsn seg = Some r \<and>
     history_contains h r \<and> floor_branch h floor_lsn live stream seg \<le> r \<and>
     begin_of h r = Some b \<and> b div seg \<le> floor_lsn div seg"
proof -
  obtain e where e: "e \<in> set (th_entries h)" "tli_of_segment h floor_lsn seg = Some (he_tli e)"
    "he_begin e div seg \<le> floor_lsn div seg"
    using tli_of_segment_entry [OF parse] by blast
  let ?s = "floor_branch h floor_lsn live stream seg"
  have s: "?s \<le> he_tli e" "history_contains h ?s"
    using e stream by (auto simp: floor_branch_def min_def history_contains_def list_ex_iff)
  show ?thesis
  proof (cases "proves_ancestor h ?s floor_lsn")
    case True
    then obtain x where x: "x \<in> set (th_entries h)" "he_covers x floor_lsn" "he_tli x = ?s"
      unfolding proves_ancestor_def tli_of_point_def by (auto dest: find_SomeD)
    then have "he_begin x div seg \<le> floor_lsn div seg"
      by (auto simp: he_covers_def word_le_nat_alt unat_div intro: div_le_mono)
    with x True e(2) s(2) begin_of_entry [OF parse x(1)] show ?thesis
      by (intro exI [of _ ?s] exI [of _ "he_begin x"]) (simp add: resume_branch_def)
  next
    case False
    with e s begin_of_entry [OF parse e(1)] show ?thesis
      by (intro exI [of _ "he_tli e"] exI [of _ "he_begin e"])
        (auto simp: resume_branch_def history_contains_def list_ex_iff)
  qed
qed

theorem resume_accepts_own_floor_witness:
  "let h = \<lparr>th_target = 3 :: u32, th_entries = chain_entries 0 [(1, 5), (2, 9)] 3, th_raw = demo_history\<rparr> in
   history_parse demo_lsn 3 demo_history = Inr h \<and> floor_branch h 8 3 2 4 = 2 \<and>
   (\<exists>r. resume_branch h (floor_branch h 8 3 2 4) 8 4 = Some r \<and> history_contains h r)"
proof -
  let ?h = "\<lparr>th_target = 3 :: u32, th_entries = chain_entries 0 [(1, 5), (2, 9)] 3, th_raw = demo_history\<rparr>"
  have p: "history_parse demo_lsn 3 demo_history = Inr ?h"
    by (simp add: history_parse_def demo_history_def utf8_lossy_ascii text_lines_def strip_eol_def
        parse_line_def trim_start_def is_whitespace_def parse_u32_def parse_unsigned_def demo_lsn_def word_le_nat_alt)
  have c: "history_contains ?h 2" by (simp add: history_contains_def)
  have f: "floor_branch ?h 8 3 2 4 = 2" by code_simp
  from resume_accepts_own_floor [OF p c, of 8 3 4] p f show ?thesis by (auto simp: Let_def)
qed

end
