(* ===== verification/Atomic_File.thy ===== *)
theory Atomic_File
  imports WS_Prelude
begin

text \<open>
  Crash-safe file replacement (\<open>write_atomic\<close> in \<open>src/src/fs.rs\<close>) and the source stamp
  check. The directory and the file contents have a live state and the state a crash is
  certain to keep: data not yet synced may read back as anything, a directory entry not yet
  synced may be the old or the new one, and a rename moves an entry in one step. The locale
  \<open>atomic_file\<close> is what the state files of the program rely on.
\<close>

section \<open>The interface\<close>

text \<open>\<open>after k b d\<close>: the disk after the first \<open>k\<close> steps of replacing the file by
  \<open>b\<close>; \<open>quiet d c\<close>: no replacement is under way and the file holds \<open>c\<close>;
  \<open>reads d c\<close>: a reader after a crash may find \<open>c\<close>.\<close>

locale atomic_file =
  fixes after :: "nat \<Rightarrow> 'b \<Rightarrow> 'd \<Rightarrow> 'd"
    and quiet :: "'d \<Rightarrow> 'b option \<Rightarrow> bool"
    and reads :: "'d \<Rightarrow> 'b option \<Rightarrow> bool"
    and steps :: nat
  assumes partial: "quiet d c \<Longrightarrow> reads (after k b d) c' \<Longrightarrow> c' = c \<or> c' = Some b"
    and complete: "quiet d c \<Longrightarrow> quiet (after steps b d) (Some b)"
    and quiet_reads: "quiet d c \<Longrightarrow> reads d c' \<Longrightarrow> c' = c"
begin

definition writes :: "'b list \<Rightarrow> 'd \<Rightarrow> 'd" where
  "writes bs d = fold (after steps) bs d"

lemma writes_quiet: "quiet d c \<Longrightarrow> quiet (writes bs d) (last (c # map Some bs))"
  unfolding writes_def
proof (induction bs arbitrary: d c)
  case (Cons b bs)
  from Cons.IH [OF complete [OF Cons.prems]] show ?case by simp
qed simp

lemma writes_interrupted:
  "quiet d c \<Longrightarrow> reads (after k b (writes bs d)) c' \<Longrightarrow> c' = last (c # map Some bs) \<or> c' = Some b"
  by (rule partial [OF writes_quiet])

end

section \<open>The disk\<close>

record disk =
  live_dir :: "string \<Rightarrow> nat option"
  kept_dir :: "string \<Rightarrow> nat option"
  live_data :: "nat \<Rightarrow> bytes"
  kept_data :: "nat \<Rightarrow> bytes option"
  next_inode :: nat

datatype disk_op = OpenTmp | WriteAll bytes | SyncAll | Rename | SyncDir

definition tmp_name :: "string \<Rightarrow> string" where
  "tmp_name name = name @ ''.tmp''"

text \<open>The handle \<open>f\<close> of \<open>write_atomic\<close> is the inode the temporary name was opened
  as.\<close>

fun disk_step :: "string \<Rightarrow> disk_op \<Rightarrow> disk \<Rightarrow> disk" where
  "disk_step name OpenTmp d =
     (case live_dir d (tmp_name name) of
        Some i \<Rightarrow> d\<lparr>live_data := (live_data d)(i := []), kept_data := (kept_data d)(i := None)\<rparr>
      | None \<Rightarrow> d\<lparr>live_dir := (live_dir d)(tmp_name name := Some (next_inode d)),
                 live_data := (live_data d)(next_inode d := []),
                 kept_data := (kept_data d)(next_inode d := None),
                 next_inode := Suc (next_inode d)\<rparr>)"
| "disk_step name (WriteAll bs) d =
     (case live_dir d (tmp_name name) of
        Some i \<Rightarrow> d\<lparr>live_data := (live_data d)(i := live_data d i @ bs), kept_data := (kept_data d)(i := None)\<rparr>
      | None \<Rightarrow> d)"
| "disk_step name SyncAll d =
     (case live_dir d (tmp_name name) of
        Some i \<Rightarrow> d\<lparr>kept_data := (kept_data d)(i := Some (live_data d i))\<rparr>
      | None \<Rightarrow> d)"
| "disk_step name Rename d =
     (case live_dir d (tmp_name name) of
        Some i \<Rightarrow> d\<lparr>live_dir := (live_dir d)(name := Some i, tmp_name name := None)\<rparr>
      | None \<Rightarrow> d)"
| "disk_step name SyncDir d = d\<lparr>kept_dir := live_dir d\<rparr>"

definition write_atomic :: "bytes \<Rightarrow> disk_op list" where
  "write_atomic bs = [OpenTmp, WriteAll bs, SyncAll, Rename, SyncDir]"

text \<open>The disk after the first \<open>k\<close> steps: an error or a crash stops the sequence there.\<close>

definition write_prefix :: "string \<Rightarrow> nat \<Rightarrow> bytes \<Rightarrow> disk \<Rightarrow> disk" where
  "write_prefix name k bs d = fold (disk_step name) (take k (write_atomic bs)) d"

definition crash_reads :: "string \<Rightarrow> disk \<Rightarrow> bytes option \<Rightarrow> bool" where
  "crash_reads name d c \<longleftrightarrow>
     (\<exists>ent \<in> {live_dir d name, kept_dir d name}.
        case ent of
          None \<Rightarrow> c = None
        | Some i \<Rightarrow> (case kept_data d i of Some bs \<Rightarrow> c = Some bs | None \<Rightarrow> c \<noteq> None))"

text \<open>Between replacements: the entry is synced, its data is synced, and the inode is not the
  one a stale temporary file names.\<close>

definition disk_quiet :: "string \<Rightarrow> disk \<Rightarrow> bytes option \<Rightarrow> bool" where
  "disk_quiet name d c \<longleftrightarrow>
     live_dir d name = kept_dir d name \<and>
     (case live_dir d name of
        None \<Rightarrow> c = None
      | Some i \<Rightarrow> c \<noteq> None \<and> kept_data d i = c \<and> live_dir d (tmp_name name) \<noteq> Some i \<and> i < next_inode d) \<and>
     (case live_dir d (tmp_name name) of None \<Rightarrow> True | Some j \<Rightarrow> j < next_inode d)"

lemma tmp_name_neq [simp]: "tmp_name name \<noteq> name" "name \<noteq> tmp_name name"
  by (simp_all add: tmp_name_def)

text \<open>The inode the temporary file is opened as, and the disk after each step.\<close>

definition tmp_inode :: "string \<Rightarrow> disk \<Rightarrow> nat" where
  "tmp_inode name d = (case live_dir d (tmp_name name) of Some i \<Rightarrow> i | None \<Rightarrow> next_inode d)"

lemma open_tmp:
  "live_dir (disk_step name OpenTmp d) = (live_dir d)(tmp_name name := Some (tmp_inode name d))"
  "kept_dir (disk_step name OpenTmp d) = kept_dir d"
  "live_data (disk_step name OpenTmp d) = (live_data d)(tmp_inode name d := [])"
  "kept_data (disk_step name OpenTmp d) = (kept_data d)(tmp_inode name d := None)"
  "next_inode d \<le> next_inode (disk_step name OpenTmp d)"
  "disk_quiet name d c \<Longrightarrow> tmp_inode name d < next_inode (disk_step name OpenTmp d)"
  by (auto simp: tmp_inode_def fun_eq_iff disk_quiet_def split: option.splits)

lemma quiet_tmp:
  assumes "disk_quiet name d c"
  shows "kept_dir d name = live_dir d name" "live_dir d name \<noteq> Some (tmp_inode name d)"
    "case live_dir d name of None \<Rightarrow> c = None | Some i \<Rightarrow> kept_data d i = c \<and> c \<noteq> None \<and> i < next_inode d"
  using assms by (auto simp: disk_quiet_def tmp_inode_def split: option.splits)

lemma write_prefix_reads:
  assumes q: "disk_quiet name d c" and r: "crash_reads name (write_prefix name k bs d) c'"
  shows "c' = c \<or> c' = Some bs"
proof -
  let ?d = "disk_step name OpenTmp d"
  have steps: "take k (write_atomic bs) = [] \<or> (\<exists>ops \<in> {[], [WriteAll bs], [WriteAll bs, SyncAll],
     [WriteAll bs, SyncAll, Rename], [WriteAll bs, SyncAll, Rename, SyncDir]}. take k (write_atomic bs) = OpenTmp # ops)"
  proof -
    consider "k = 0" | "k = 1" | "k = 2" | "k = 3" | "k = 4" | "5 \<le> k" by linarith
    then show ?thesis by cases (simp_all add: write_atomic_def)
  qed
  from steps show ?thesis
  proof
    assume "take k (write_atomic bs) = []"
    then show ?thesis using r quiet_tmp [OF q]
      by (auto simp: write_prefix_def crash_reads_def split: option.splits)
  next
    assume "\<exists>ops \<in> {[], [WriteAll bs], [WriteAll bs, SyncAll], [WriteAll bs, SyncAll, Rename],
       [WriteAll bs, SyncAll, Rename, SyncDir]}. take k (write_atomic bs) = OpenTmp # ops"
    then obtain ops where "ops \<in> {[], [WriteAll bs], [WriteAll bs, SyncAll], [WriteAll bs, SyncAll, Rename],
       [WriteAll bs, SyncAll, Rename, SyncDir]}" "crash_reads name (fold (disk_step name) ops ?d) c'"
      using r unfolding write_prefix_def by (metis fold_simps(2))
    then show ?thesis using quiet_tmp [OF q]
      by (auto simp: crash_reads_def open_tmp(1-4) simp del: disk_step.simps(1) split: option.splits if_splits)
  qed
qed

lemma write_prefix_complete:
  assumes q: "disk_quiet name d c"
  shows "disk_quiet name (write_prefix name 5 bs d) (Some bs)"
proof -
  have "take 5 (write_atomic bs) = OpenTmp # [WriteAll bs, SyncAll, Rename, SyncDir]"
    by (simp add: write_atomic_def)
  then have "write_prefix name 5 bs d = fold (disk_step name) [WriteAll bs, SyncAll, Rename, SyncDir] (disk_step name OpenTmp d)"
    by (simp only: write_prefix_def fold_simps)
  then show ?thesis
    using open_tmp(6) [OF q] by (simp add: disk_quiet_def open_tmp(1-4) del: disk_step.simps(1))
qed

lemma disk_quiet_reads: "disk_quiet name d c \<Longrightarrow> crash_reads name d c' \<Longrightarrow> c' = c"
  by (auto simp: crash_reads_def disk_quiet_def split: option.splits)

interpretation replaced: atomic_file "write_prefix name" "disk_quiet name" "crash_reads name" 5
  for name
  by unfold_locales (fact write_prefix_reads write_prefix_complete disk_quiet_reads)+

section \<open>The source stamp\<close>

datatype stamp_error = ForeignStamp u64 u64

definition check_source :: "u64 option \<Rightarrow> u64 \<Rightarrow> (stamp_error, bool) result" where
  "check_source stored live =
     (case stored of
        None \<Rightarrow> Inr True
      | Some s \<Rightarrow> if s \<noteq> live then Inl (ForeignStamp s live) else Inr False)"

section \<open>Property\<close>

text \<open>
  C11: state files are replaced atomically. After any number of completed replacements and one
  more cut off after any of its steps, by an error or a crash, a reader finds the last
  completed content or the new one, never a torn or missing file; a completed replacement
  survives.
\<close>
theorem write_atomic_crash_safe:
  assumes "disk_quiet name d c"
  shows "(crash_reads name (write_prefix name k bs (fold (\<lambda>b. write_prefix name 5 b) done d)) c' \<longrightarrow>
      c' = last (c # map Some done) \<or> c' = Some bs) \<and>
    (crash_reads name (write_prefix name 5 bs (fold (\<lambda>b. write_prefix name 5 b) done d)) c' \<longrightarrow> c' = Some bs)"
  using replaced.writes_interrupted [OF assms] replaced.complete [OF replaced.writes_quiet [OF assms]]
    disk_quiet_reads
  unfolding replaced.writes_def by (metis (no_types, lifting))

definition empty_disk :: disk where
  "empty_disk = \<lparr>live_dir = (\<lambda>_. None), kept_dir = (\<lambda>_. None), live_data = (\<lambda>_. []),
     kept_data = (\<lambda>_. None), next_inode = 0\<rparr>"

theorem write_atomic_crash_safe_witness:
  "let d = write_prefix ''f'' 4 [2] (fold (\<lambda>b. write_prefix ''f'' 5 b) [[1]] empty_disk) in
   disk_quiet ''f'' empty_disk None \<and> crash_reads ''f'' d (Some [1]) \<and>
   \<not> crash_reads ''f'' d None \<and> \<not> crash_reads ''f'' d (Some [])"
proof -
  have q: "disk_quiet ''f'' empty_disk None" by (simp add: disk_quiet_def empty_disk_def)
  have "crash_reads ''f'' (write_prefix ''f'' 4 [2] (fold (\<lambda>b. write_prefix ''f'' 5 b) [[1]] empty_disk)) (Some [1])"
    by (simp add: crash_reads_def write_prefix_def write_atomic_def empty_disk_def tmp_name_def)
  with q write_atomic_crash_safe [OF q, of 4 "[2]" "[[1]]"] show ?thesis by (auto simp: Let_def)
qed

end
