(* ===== verification/Manifest.thy ===== *)
theory Manifest
  imports Timeline Atomic_File
begin

text \<open>
  The resume manifest (\<open>src/src/source/manifest.rs\<close>), the functions that build it in the
  stream binary (\<open>resume_manifest\<close> and \<open>commit_fork_resume\<close> in
  \<open>src/src/bin/stream/source_recovery.rs\<close>) and \<open>align_down\<close> of
  \<open>src/src/source/wal_stream.rs\<close>. The WAL segment size is a constant of another crate and an
  argument \<open>seg\<close>; the theorems that need it assume only that it is not zero. The
  TOML encoding of a manifest is an argument too.
\<close>

definition align_down :: "u64 \<Rightarrow> u64 \<Rightarrow> u64" where
  "align_down lsn seg_size = lsn - (lsn mod seg_size)"

record source_identity =
  si_system_id :: u64
  si_timeline :: u32
  si_timeline_begin :: "switchpoint_k pos"

record lsn_set =
  ls_source_received :: "source_received_k pos"
  ls_filter_durable :: "filter_durable_k pos"
  ls_shadow_replay :: "shadow_replay_k pos"
  ls_drain :: "drain_k pos"
  ls_emitter_ack :: "resume_safe_k pos"
  ls_shadow_flush :: "shadow_flush_k pos"

record manifest =
  mf_version :: u32
  mf_floor :: "floor_k pos"
  mf_source :: source_identity
  mf_stream_timeline :: u32
  mf_lsn :: lsn_set

datatype manifest_error = MfIo | MfParse | MfVersion u32 | MfForeignSource source_identity source_identity

definition MANIFEST_VERSION :: u32 where
  "MANIFEST_VERSION = 2"

definition resolved_floor :: "u64 \<Rightarrow> resume_safe_k pos \<Rightarrow> filter_durable_k pos \<Rightarrow> floor_k pos" where
  "resolved_floor seg emitter_ack filter_durable =
     Pos (min (align_down (pos_get emitter_ack) seg) (pos_get filter_durable))"

datatype shadow_floor = ShadowFloor "u64 option"

definition shadow_floor_new :: "u64 \<Rightarrow> bool \<Rightarrow> u64 \<Rightarrow> u64 \<Rightarrow> shadow_floor" where
  "shadow_floor_new seg shadow_holds_data live persisted =
     (if \<not> shadow_holds_data then ShadowFloor None
      else
        let at = (if live \<noteq> 0 then live else persisted)
        in ShadowFloor (if at \<noteq> 0 then Some (align_down at seg) else None))"

definition shadow_unbounded :: shadow_floor where
  "shadow_unbounded = ShadowFloor None"

fun shadow_bound :: "shadow_floor \<Rightarrow> 'k pos \<Rightarrow> 'k pos" where
  "shadow_bound (ShadowFloor (Some at)) p = Pos (min (pos_get p) at)"
| "shadow_bound (ShadowFloor None) p = p"

record floor_inputs =
  fi_resume_safe :: "resume_safe_k pos"
  fi_filter_durable :: "filter_durable_k pos"
  fi_shadow :: shadow_floor
  fi_published :: "floor_k pos"
  fi_fork :: "floor_k pos option"

definition inputs_floor :: "u64 \<Rightarrow> floor_inputs \<Rightarrow> floor_k pos" where
  "inputs_floor seg fi =
     (case fi_fork fi of
        Some fork \<Rightarrow> fork
      | None \<Rightarrow> max (shadow_bound (fi_shadow fi) (resolved_floor seg (fi_resume_safe fi) (fi_filter_durable fi)))
                    (fi_published fi))"

definition resolve_start :: "u64 \<Rightarrow> raw_start_k pos \<Rightarrow> floor_k pos option \<Rightarrow> bool \<Rightarrow>
    filter_durable_k pos option \<Rightarrow> shadow_floor \<Rightarrow> floor_k pos" where
  "resolve_start seg raw_start floor_opt pinned archive_end shadow =
     (let raw = (retag raw_start :: resume_safe_k pos);
          unbounded = (- 1 :: u64);
          established = (case floor_opt of Some f \<Rightarrow> if pos_is_zero f then None else Some f | None \<Rightarrow> None);
          inputs =
            (if pinned then
               \<lparr>fi_resume_safe = raw, fi_filter_durable = Pos unbounded, fi_shadow = shadow_unbounded,
                fi_published = pos_zero, fi_fork = None\<rparr>
             else case established of
                 Some f \<Rightarrow> \<lparr>fi_resume_safe = Pos unbounded, fi_filter_durable = retag f, fi_shadow = shadow,
                            fi_published = pos_zero, fi_fork = None\<rparr>
               | None \<Rightarrow> \<lparr>fi_resume_safe = raw,
                          fi_filter_durable = (case archive_end of Some e \<Rightarrow> e | None \<Rightarrow> Pos unbounded),
                          fi_shadow = shadow, fi_published = pos_zero, fi_fork = None\<rparr>)
      in inputs_floor seg inputs)"

definition resolve_resume_lsn :: "raw_start_k pos option \<Rightarrow> raw_start_k pos option \<Rightarrow>
    resume_safe_k pos option \<Rightarrow> source_received_k pos \<Rightarrow> raw_start_k pos" where
  "resolve_resume_lsn start_lsn bootstrap_end_lsn manifest_ack_lsn greenfield_head =
     (case (start_lsn, bootstrap_end_lsn, manifest_ack_lsn) of
        (Some s, _, _) \<Rightarrow> s
      | (None, Some l, _) \<Rightarrow> l
      | (None, None, Some c) \<Rightarrow> if \<not> pos_is_zero c then retag c else retag greenfield_head
      | (None, None, None) \<Rightarrow> retag greenfield_head)"

definition retention_cutoff :: "shadow_replay_k pos \<Rightarrow> u64 \<Rightarrow> shadow_replay_k pos option \<Rightarrow> shadow_replay_k pos" where
  "retention_cutoff shadow_replay retention_bytes redo =
     Pos (min (sat_sub (pos_get shadow_replay) retention_bytes)
              (case redo of None \<Rightarrow> - 1 | Some r \<Rightarrow> pos_get r))"

text \<open>Loading: \<open>content\<close> is what the file reads as, \<open>None\<close> when it does not exist.\<close>

definition manifest_load :: "(bytes \<Rightarrow> manifest option) \<Rightarrow> bytes option \<Rightarrow> source_identity \<Rightarrow>
    (manifest_error, manifest option) result" where
  "manifest_load from_toml content live =
     (case content of
        None \<Rightarrow> Inr None
      | Some text \<Rightarrow>
          (case from_toml text of
             None \<Rightarrow> Inl MfParse
           | Some m \<Rightarrow>
               if mf_version m \<noteq> MANIFEST_VERSION then Inl (MfVersion (mf_version m))
               else if si_system_id (mf_source m) \<noteq> si_system_id live
               then Inl (MfForeignSource (mf_source m) live)
               else Inr (Some m)))"

text \<open>Writing: \<open>k\<close> steps of the replacement happen; all five make the floor durable.\<close>

definition manifest_write :: "(manifest \<Rightarrow> bytes) \<Rightarrow> nat \<Rightarrow> manifest \<Rightarrow> disk \<Rightarrow>
    disk \<times> (manifest_error, floor_k pos durable) result" where
  "manifest_write to_toml k m d =
     (write_prefix ''manifest.toml'' k (to_toml m) d,
      if 5 \<le> k then Inr (Durable (mf_floor m)) else Inl MfIo)"

section \<open>Building the manifest\<close>

definition resume_manifest :: "u64 \<Rightarrow> timeline_history \<Rightarrow> source_identity \<Rightarrow> floor_k pos \<Rightarrow> shadow_floor \<Rightarrow>
    u32 \<Rightarrow> lsn_set \<Rightarrow> manifest" where
  "resume_manifest seg history identity published_floor shadow stream_timeline lsn =
     (let floor_pos = inputs_floor seg \<lparr>fi_resume_safe = ls_emitter_ack lsn,
            fi_filter_durable = ls_filter_durable lsn, fi_shadow = shadow,
            fi_published = published_floor, fi_fork = None\<rparr>;
          floor_timeline = floor_branch history (pos_get floor_pos) (si_timeline identity) stream_timeline seg
      in \<lparr>mf_version = MANIFEST_VERSION, mf_floor = floor_pos,
          mf_source = \<lparr>si_system_id = si_system_id identity, si_timeline = floor_timeline,
            si_timeline_begin = Pos (case begin_of history floor_timeline of None \<Rightarrow> 0 | Some b \<Rightarrow> b)\<rparr>,
          mf_stream_timeline = stream_timeline, mf_lsn = lsn\<rparr>)"

record fork_resume =
  fr_floor :: "floor_k pos"
  fr_timeline :: u32
  fr_switch_lsn :: "switchpoint_k pos"

definition fork_manifest :: "u64 \<Rightarrow> source_identity \<Rightarrow> fork_resume \<Rightarrow> lsn_set \<Rightarrow> floor_k pos \<Rightarrow> manifest" where
  "fork_manifest seg identity resume lsn published =
     \<lparr>mf_version = MANIFEST_VERSION,
      mf_floor = inputs_floor seg \<lparr>fi_resume_safe = ls_emitter_ack lsn,
        fi_filter_durable = ls_filter_durable lsn, fi_shadow = ShadowFloor None,
        fi_published = published, fi_fork = Some (fr_floor resume)\<rparr>,
      mf_source = \<lparr>si_system_id = si_system_id identity, si_timeline = fr_timeline resume,
        si_timeline_begin = fr_switch_lsn resume\<rparr>,
      mf_stream_timeline = fr_timeline resume, mf_lsn = lsn\<rparr>"

text \<open>\<open>commit_fork_resume\<close>: persist, then rebase the floor cell and every cell a pruner
  reads. A failed write leaves the cells alone.\<close>

definition commit_fork_resume :: "u64 \<Rightarrow> (manifest \<Rightarrow> bytes) \<Rightarrow> nat \<Rightarrow> source_identity \<Rightarrow> fork_resume \<Rightarrow> lsn_set \<Rightarrow>
    floor_k pos monotone \<Rightarrow> floor_k pos monotone list \<Rightarrow> disk \<Rightarrow>
    disk \<times> (manifest_error, floor_k pos monotone \<times> floor_k pos monotone list) result" where
  "commit_fork_resume seg to_toml k identity resume lsn resume_floor gc_floors d =
     (case manifest_write to_toml k (fork_manifest seg identity resume lsn (monotone_get resume_floor)) d of
        (d', Inl e) \<Rightarrow> (d', Inl e)
      | (d', Inr persisted) \<Rightarrow>
          (d', Inr (fst (monotone_rebase resume_floor persisted),
                    map (\<lambda>c. fst (monotone_rebase c persisted)) gc_floors)))"

section \<open>Lemmas\<close>

lemma unat_align_down: "unat (align_down lsn seg) = unat lsn - unat lsn mod unat seg"
proof -
  have "lsn mod seg \<le> lsn" by (simp add: word_le_nat_alt unat_mod)
  then show ?thesis by (simp add: align_down_def unat_sub unat_mod)
qed

lemma align_down_le: "align_down lsn seg \<le> lsn"
  by (simp add: word_le_nat_alt unat_align_down)

lemma align_down_aligned: "align_down lsn seg mod seg = 0"
  by (rule word_unat_eq_iff [THEN iffD2])
    (simp add: unat_mod unat_align_down minus_mod_eq_mult_div)

lemma align_down_idem: "lsn mod seg = 0 \<Longrightarrow> align_down lsn seg = lsn"
  by (simp add: align_down_def)

lemma align_down_mono: "a \<le> b \<Longrightarrow> align_down a seg \<le> align_down b seg"
  by (simp add: word_le_nat_alt unat_align_down minus_mod_eq_mult_div div_le_mono)

lemma align_down_greatest: "x \<le> lsn \<Longrightarrow> x mod seg = 0 \<Longrightarrow> x \<le> align_down lsn seg"
  using align_down_mono [of x lsn seg] by (simp add: align_down_idem)

lemma shadow_bound_get: "pos_get (shadow_bound s p) = (case s of ShadowFloor None \<Rightarrow> pos_get p | ShadowFloor (Some a) \<Rightarrow> min (pos_get p) a)"
  by (auto split: shadow_floor.split option.split)

lemma shadow_bound_le: "shadow_bound s p \<le> p"
  by (auto simp: less_eq_pos_def shadow_bound_get split: shadow_floor.split option.split)

lemma shadow_bound_idem [simp]: "shadow_bound s (shadow_bound s p) = shadow_bound s p"
  by (rule pos.expand) (auto simp: shadow_bound_get split: shadow_floor.split option.split)

lemma shadow_bound_mono: "p \<le> q \<Longrightarrow> shadow_bound s p \<le> shadow_bound s q"
  unfolding less_eq_pos_def shadow_bound_get
  by (auto split: shadow_floor.split option.split simp: min_le_iff_disj)

lemma min_aligned: "a mod seg = 0 \<Longrightarrow> b mod seg = 0 \<Longrightarrow> min a b mod seg = (0 :: u64)"
  by (simp add: min_def)

definition shadow_aligned :: "u64 \<Rightarrow> shadow_floor \<Rightarrow> bool" where
  "shadow_aligned seg s \<longleftrightarrow> (case s of ShadowFloor None \<Rightarrow> True | ShadowFloor (Some a) \<Rightarrow> a mod seg = 0)"

lemma shadow_floor_new_aligned: "shadow_aligned seg (shadow_floor_new seg h l p)"
  by (simp add: shadow_aligned_def shadow_floor_new_def Let_def align_down_aligned)

lemma shadow_bound_aligned:
  "shadow_aligned seg s \<Longrightarrow> pos_get p mod seg = 0 \<Longrightarrow> pos_get (shadow_bound s p) mod seg = 0"
  by (auto simp: shadow_aligned_def shadow_bound_get min_aligned split: shadow_floor.splits option.splits)

lemma resolved_floor_bounds:
  "pos_get (resolved_floor seg a f) \<le> pos_get a" "pos_get (resolved_floor seg a f) \<le> pos_get f"
  using align_down_le [of "pos_get a" seg] by (auto simp: resolved_floor_def min_le_iff_disj)

lemma resolved_floor_aligned: "pos_get f mod seg = 0 \<Longrightarrow> pos_get (resolved_floor seg a f) mod seg = 0"
  by (simp add: resolved_floor_def min_aligned align_down_aligned)

end
