(* ===== verification/Resume.thy ===== *)
theory Resume
  imports Manifest
begin

text \<open>
  Publishing the resume position: the standby status sent to the source
  (\<open>src/src/source/source_feed.rs\<close>) and the part of the session loop that writes the
  manifest, publishes the floor and reports the status (\<open>src/src/bin/stream/session.rs\<close>).
  The lemmas show that the floor every pruner and the source's slot go by never passes what a
  restart after a crash would read.
\<close>

section \<open>Standby status\<close>

record standby_status =
  st_write_lsn :: "source_received_k pos"
  st_flush_lsn :: "floor_k pos"
  st_apply_lsn :: "resume_safe_k pos"

definition status_bounded :: "source_received_k pos \<Rightarrow> floor_k pos \<Rightarrow> resume_safe_k pos \<Rightarrow>
    shadow_replay_k pos \<Rightarrow> shadow_floor \<Rightarrow> standby_status" where
  "status_bounded write_lsn floor_pos resume_safe shadow_replay shadow =
     (let apply_lsn = (if pos_is_zero shadow_replay then shadow_bound shadow resume_safe
                       else min resume_safe (retag shadow_replay))
      in \<lparr>st_write_lsn = write_lsn, st_flush_lsn = min floor_pos (retag apply_lsn), st_apply_lsn = apply_lsn\<rparr>)"

definition status_collapsed :: "u64 \<Rightarrow> standby_status" where
  "status_collapsed lsn = \<lparr>st_write_lsn = Pos lsn, st_flush_lsn = Pos lsn, st_apply_lsn = Pos lsn\<rparr>"

record status_floors =
  sf_write :: "source_received_k pos"
  sf_flush :: "floor_k pos"
  sf_apply :: "resume_safe_k pos"

definition prepare_status :: "standby_status \<Rightarrow> status_floors \<Rightarrow> status_floors \<times> standby_status" where
  "prepare_status status floors =
     (let previous_flush = sf_flush floors;
          floors' = \<lparr>sf_write = max (st_write_lsn status) (sf_write floors),
                     sf_flush = max (st_flush_lsn status) (sf_flush floors),
                     sf_apply = max (st_apply_lsn status) (sf_apply floors)\<rparr>
      in (floors', \<lparr>st_write_lsn = sf_write floors',
                    st_flush_lsn = (if previous_flush < sf_flush floors' then sf_flush floors' else pos_zero),
                    st_apply_lsn = sf_apply floors'\<rparr>))"

section \<open>The session's cursor writes\<close>

record session =
  ses_disk :: disk
  ses_resume_floor :: "floor_k pos monotone"
  ses_gc_floor :: "floor_k pos monotone"
  ses_floors :: status_floors
  ses_sent :: "standby_status list"

text \<open>What one turn of the loop reads before it writes: the terms of the manifest.\<close>

record cursor_terms =
  ct_history :: timeline_history
  ct_identity :: source_identity
  ct_shadow :: shadow_floor
  ct_stream_timeline :: u32
  ct_lsn :: lsn_set

definition cursor_manifest :: "u64 \<Rightarrow> cursor_terms \<Rightarrow> session \<Rightarrow> manifest" where
  "cursor_manifest seg t s = resume_manifest seg (ct_history t) (ct_identity t)
     (monotone_get (ses_resume_floor s)) (ct_shadow t) (ct_stream_timeline t) (ct_lsn t)"

text \<open>Write the manifest, then publish its floor. \<open>k\<close> is how many steps of the replacement
  happen before an error; the error ends the session.\<close>

definition cursor_write :: "u64 \<Rightarrow> (manifest \<Rightarrow> bytes) \<Rightarrow> nat \<Rightarrow> cursor_terms \<Rightarrow> session \<Rightarrow> session \<times> bool" where
  "cursor_write seg to_toml k t s =
     (case manifest_write to_toml k (cursor_manifest seg t s) (ses_disk s) of
        (d, Inl e) \<Rightarrow> (s\<lparr>ses_disk := d\<rparr>, False)
      | (d, Inr persisted) \<Rightarrow>
          (s\<lparr>ses_disk := d,
             ses_resume_floor := fst (monotone_publish (ses_resume_floor s) persisted),
             ses_gc_floor := fst (monotone_publish (ses_gc_floor s) persisted)\<rparr>, True))"

definition send_status :: "cursor_terms \<Rightarrow> session \<Rightarrow> session" where
  "send_status t s =
     (let lsn = ct_lsn t;
          status = status_bounded (ls_source_received lsn) (monotone_get (ses_resume_floor s))
            (ls_emitter_ack lsn) (ls_shadow_replay lsn) (ct_shadow t);
          (floors, sent) = prepare_status status (ses_floors s)
      in s\<lparr>ses_floors := floors, ses_sent := ses_sent s @ [sent]\<rparr>)"

datatype session_op = CursorWrite nat cursor_terms | SendStatus cursor_terms

fun session_run :: "u64 \<Rightarrow> (manifest \<Rightarrow> bytes) \<Rightarrow> session_op list \<Rightarrow> session \<Rightarrow> session" where
  "session_run seg to_toml [] s = s"
| "session_run seg to_toml (CursorWrite k t # ops) s =
     (let (s', ok) = cursor_write seg to_toml k t s in if ok then session_run seg to_toml ops s' else s')"
| "session_run seg to_toml (SendStatus t # ops) s = session_run seg to_toml ops (send_status t s)"

section \<open>Lemmas\<close>

text \<open>Statuses sent so far and the floors behind them stay at or below the published floor.\<close>

definition status_below :: "session \<Rightarrow> bool" where
  "status_below s \<longleftrightarrow> sf_flush (ses_floors s) \<le> monotone_get (ses_resume_floor s) \<and>
     monotone_get (ses_gc_floor s) \<le> monotone_get (ses_resume_floor s) \<and>
     list_all (\<lambda>x. st_flush_lsn x \<le> monotone_get (ses_resume_floor s)) (ses_sent s)"

text \<open>Every manifest a crash may read is one of the run's, with a floor at or above the
  published one.\<close>

definition crash_floor :: "(manifest \<Rightarrow> bytes) \<Rightarrow> session \<Rightarrow> bool" where
  "crash_floor to_toml s \<longleftrightarrow>
     (\<forall>c. crash_reads ''manifest.toml'' (ses_disk s) c \<longrightarrow>
        (\<exists>m. c = Some (to_toml m) \<and> monotone_get (ses_resume_floor s) \<le> mf_floor m))"

definition session_inv :: "(manifest \<Rightarrow> bytes) \<Rightarrow> session \<Rightarrow> bool" where
  "session_inv to_toml s \<longleftrightarrow> status_below s \<and>
     (\<exists>m. disk_quiet ''manifest.toml'' (ses_disk s) (Some (to_toml m)) \<and>
        monotone_get (ses_resume_floor s) \<le> mf_floor m)"

lemma session_inv_crash: "session_inv to_toml s \<Longrightarrow> crash_floor to_toml s"
  by (auto simp: session_inv_def crash_floor_def dest: disk_quiet_reads)

lemma cursor_manifest_floor: "monotone_get (ses_resume_floor s) \<le> mf_floor (cursor_manifest seg t s)"
  by (simp add: cursor_manifest_def resume_manifest_def Let_def inputs_floor_def)

lemma cursor_write_fields:
  assumes "cursor_write seg to_toml k t s = (s', ok)"
  shows "ok \<longleftrightarrow> 5 \<le> k"
    "ses_disk s' = write_prefix ''manifest.toml'' k (to_toml (cursor_manifest seg t s)) (ses_disk s)"
    "monotone_get (ses_resume_floor s') =
       (if ok then mf_floor (cursor_manifest seg t s) else monotone_get (ses_resume_floor s))"
    "monotone_get (ses_gc_floor s') =
       (if ok then max (monotone_get (ses_gc_floor s)) (mf_floor (cursor_manifest seg t s))
        else monotone_get (ses_gc_floor s))"
    "ses_floors s' = ses_floors s" "ses_sent s' = ses_sent s"
proof -
  let ?m = "cursor_manifest seg t s"
  have ok: "ok \<longleftrightarrow> 5 \<le> k" and s': "s' = (let d = write_prefix ''manifest.toml'' k (to_toml ?m) (ses_disk s) in
     if 5 \<le> k then s\<lparr>ses_disk := d,
       ses_resume_floor := fst (monotone_publish (ses_resume_floor s) (Durable (mf_floor ?m))),
       ses_gc_floor := fst (monotone_publish (ses_gc_floor s) (Durable (mf_floor ?m)))\<rparr>
     else s\<lparr>ses_disk := d\<rparr>)"
    using assms by (auto simp: cursor_write_def manifest_write_def Let_def split: if_splits)
  then show "ok \<longleftrightarrow> 5 \<le> k" by simp
  show "ses_disk s' = write_prefix ''manifest.toml'' k (to_toml ?m) (ses_disk s)"
    "monotone_get (ses_resume_floor s') = (if ok then mf_floor ?m else monotone_get (ses_resume_floor s))"
    "monotone_get (ses_gc_floor s') =
       (if ok then max (monotone_get (ses_gc_floor s)) (mf_floor ?m) else monotone_get (ses_gc_floor s))"
    "ses_floors s' = ses_floors s" "ses_sent s' = ses_sent s"
    unfolding s' ok Let_def
    by (simp_all add: published.get_join max_absorb2 [OF cursor_manifest_floor])
qed

lemma write_five: "5 \<le> k \<Longrightarrow> write_prefix name k bs d = write_prefix name 5 bs d"
proof -
  assume "5 \<le> k"
  then have "length (write_atomic bs) \<le> k" "length (write_atomic bs) \<le> 5" by (simp_all add: write_atomic_def)
  then show ?thesis unfolding write_prefix_def by (simp only: take_all)
qed

lemma cursor_write_inv:
  assumes inv: "session_inv to_toml s" and step: "cursor_write seg to_toml k t s = (s', ok)"
  shows "ok \<Longrightarrow> session_inv to_toml s'" and "status_below s' \<and> crash_floor to_toml s'"
proof -
  let ?m = "cursor_manifest seg t s"
  obtain m where q: "disk_quiet ''manifest.toml'' (ses_disk s) (Some (to_toml m))"
    "monotone_get (ses_resume_floor s) \<le> mf_floor m" and sb: "status_below s"
    using inv by (auto simp: session_inv_def)
  note f = cursor_write_fields [OF step]
  note up = cursor_manifest_floor [of s seg t]
  have mono: "monotone_get (ses_resume_floor s) \<le> monotone_get (ses_resume_floor s')"
    using up by (simp add: f(3))
  have "monotone_get (ses_gc_floor s') \<le> monotone_get (ses_resume_floor s')"
    using sb order_trans [OF _ up] by (simp add: status_below_def f(3,4))
  then have below: "status_below s'"
    using sb mono unfolding status_below_def f(5,6) list_all_iff by (meson order_trans)
  show ok: "session_inv to_toml s'" if ok
  proof -
    have "5 \<le> k" using that f(1) by blast
    from write_five [OF this] have "disk_quiet ''manifest.toml'' (ses_disk s') (Some (to_toml ?m))"
      unfolding f(2) using write_prefix_complete [OF q(1), of "to_toml ?m"] by metis
    then show ?thesis
      unfolding session_inv_def f(3) using below that by auto
  qed
  have "crash_floor to_toml s'" if "\<not> ok"
    using that q up write_prefix_reads [OF q(1), of k "to_toml ?m"]
    unfolding crash_floor_def f(2,3) by auto
  with ok below session_inv_crash show "status_below s' \<and> crash_floor to_toml s'" by blast
qed

lemma status_flush_le: "st_flush_lsn (status_bounded w f r sr sh) \<le> f"
  by (simp add: status_bounded_def Let_def)

lemma send_status_inv: "session_inv to_toml s \<Longrightarrow> session_inv to_toml (send_status t s)"
  using status_flush_le [of _ "monotone_get (ses_resume_floor s)"]
  by (auto simp: session_inv_def status_below_def send_status_def prepare_status_def Let_def)

lemma session_run_safe:
  "session_inv to_toml s \<Longrightarrow>
   status_below (session_run seg to_toml ops s) \<and> crash_floor to_toml (session_run seg to_toml ops s)"
proof (induction seg to_toml ops s rule: session_run.induct)
  case (1 seg to_toml s)
  then show ?case using session_inv_crash by (auto simp: session_inv_def)
next
  case (2 seg to_toml k t ops s)
  obtain s' ok where step: "cursor_write seg to_toml k t s = (s', ok)" by fastforce
  show ?case
    using "2.IH" [OF step [symmetric] refl] cursor_write_inv [OF "2.prems" step] by (simp add: step)
next
  case (3 seg to_toml t ops s)
  then show ?case using send_status_inv by simp
qed

section \<open>Properties\<close>

text \<open>
  C10: the floor is the best safe cut. With a segment size that is not zero and the
  segment-aligned terms the writers supply, the floor of a manifest is segment-aligned,
  never below the floor already published, and, where it is above it, at or below the
  resume-safe position, the durable archive end and the shadow's position; and no aligned
  position below all three terms is above it.
\<close>
theorem manifest_floor_best_cut:
  assumes "pos_get (ls_filter_durable lsn) mod seg = 0" "pos_get published mod seg = 0"
    and "shadow = shadow_floor_new seg holds live persisted"
  shows "let f = mf_floor (resume_manifest seg history identity published shadow stream lsn) in
     pos_get f mod seg = 0 \<and> published \<le> f \<and>
     (f = published \<or> pos_get f \<le> pos_get (ls_emitter_ack lsn) \<and> pos_get f \<le> pos_get (ls_filter_durable lsn) \<and>
        f = shadow_bound shadow f) \<and>
     (\<forall>x. pos_get x mod seg = 0 \<and> pos_get x \<le> pos_get (ls_emitter_ack lsn) \<and>
        pos_get x \<le> pos_get (ls_filter_durable lsn) \<and> shadow_bound shadow x = x \<longrightarrow> x \<le> f)"
proof -
  define r where "r = resolved_floor seg (ls_emitter_ack lsn) (ls_filter_durable lsn)"
  define f where "f = max (shadow_bound shadow r) published"
  have f: "mf_floor (resume_manifest seg history identity published shadow stream lsn) = f"
    by (simp add: resume_manifest_def Let_def inputs_floor_def f_def r_def)
  have "pos_get r mod seg = 0" unfolding r_def by (rule resolved_floor_aligned [OF assms(1)])
  then have al: "pos_get (shadow_bound shadow r) mod seg = 0"
    unfolding assms(3) by (rule shadow_bound_aligned [OF shadow_floor_new_aligned])
  then have aligned: "pos_get f mod seg = 0" using assms(2) by (simp add: f_def max_def)
  have terms: "f = published \<or> pos_get f \<le> pos_get (ls_emitter_ack lsn) \<and>
     pos_get f \<le> pos_get (ls_filter_durable lsn) \<and> f = shadow_bound shadow f"
  proof (cases "f = published")
    case False
    then have eq: "f = shadow_bound shadow r" by (auto simp: f_def max_def split: if_splits)
    have "pos_get f \<le> pos_get r" using shadow_bound_le [of shadow r] by (simp add: eq less_eq_pos_def)
    note le = order_trans [OF this [unfolded r_def]]
    have "pos_get f \<le> pos_get (ls_emitter_ack lsn)" "pos_get f \<le> pos_get (ls_filter_durable lsn)"
      by (rule le, rule resolved_floor_bounds)+
    moreover have "shadow_bound shadow f = f"
      unfolding eq by (rule shadow_bound_idem)
    ultimately show ?thesis by simp
  qed simp
  have best: "x \<le> f" if x: "pos_get x mod seg = 0" "pos_get x \<le> pos_get (ls_emitter_ack lsn)"
    "pos_get x \<le> pos_get (ls_filter_durable lsn)" "shadow_bound shadow x = x" for x
  proof -
    have "pos_get x \<le> pos_get r"
      using align_down_greatest [OF x(2,1)] x(3) by (simp add: r_def resolved_floor_def)
    then have "shadow_bound shadow x \<le> shadow_bound shadow r"
      by (intro shadow_bound_mono) (simp add: less_eq_pos_def)
    then show ?thesis using x(4) by (simp add: f_def le_max_iff_disj)
  qed
  have pub: "published \<le> f" by (simp add: f_def)
  show ?thesis unfolding f Let_def
    by (rule conjI [OF aligned conjI [OF pub conjI [OF terms]]]) (intro allI impI, elim conjE, rule best)
qed

theorem manifest_floor_best_cut_witness:
  "let lsn = \<lparr>ls_source_received = Pos 90, ls_filter_durable = Pos 48, ls_shadow_replay = Pos 70,
       ls_drain = Pos 60, ls_emitter_ack = Pos 45, ls_shadow_flush = Pos 60\<rparr>;
     f = mf_floor (resume_manifest 16 (history_root 1) \<lparr>si_system_id = 7, si_timeline = 1, si_timeline_begin = Pos 0\<rparr>
       (Pos 16) (shadow_floor_new 16 True 70 0) 1 lsn)
   in f = Pos 32 \<and> pos_get f mod 16 = 0 \<and> Pos 16 \<le> f"
proof -
  let ?lsn = "\<lparr>ls_source_received = Pos 90, ls_filter_durable = Pos 48, ls_shadow_replay = Pos 70,
       ls_drain = Pos 60, ls_emitter_ack = Pos 45, ls_shadow_flush = Pos 60\<rparr>"
  let ?id = "\<lparr>si_system_id = 7, si_timeline = 1, si_timeline_begin = Pos 0\<rparr>"
  have h: "pos_get (ls_filter_durable ?lsn) mod 16 = 0" "pos_get (Pos 16 :: floor_k pos) mod 16 = 0" by simp_all
  have "mf_floor (resume_manifest 16 (history_root 1) ?id (Pos 16) (shadow_floor_new 16 True 70 0) 1 ?lsn) = Pos 32"
    by (simp add: resume_manifest_def Let_def inputs_floor_def resolved_floor_def align_down_def
        shadow_floor_new_def min_def max_def)
  with manifest_floor_best_cut [OF h refl, of "history_root 1" ?id True 70 0 1] show ?thesis
    by (simp add: Let_def)
qed

text \<open>
  C9: nothing is discarded that a crash would need. Starting from a persisted manifest, through
  any sequence of manifest writes, the last one cut off at any step, and status reports, every
  manifest a crash may read has a floor at or above the published floor, which bounds the
  floor of the pruners and every flush position reported to the source: a restart never asks
  for WAL that pruners or the source's slot have already given up.
\<close>
theorem published_floor_survives_crash:
  assumes init: "disk_quiet ''manifest.toml'' (ses_disk s) (Some (to_toml m))"
      "monotone_get (ses_resume_floor s) \<le> mf_floor m" "status_below s"
    and crash: "crash_reads ''manifest.toml'' (ses_disk (session_run seg to_toml ops s)) c"
  shows "\<exists>m'. c = Some (to_toml m') \<and>
     monotone_get (ses_resume_floor (session_run seg to_toml ops s)) \<le> mf_floor m' \<and>
     monotone_get (ses_gc_floor (session_run seg to_toml ops s)) \<le> mf_floor m' \<and>
     list_all (\<lambda>x. st_flush_lsn x \<le> mf_floor m') (ses_sent (session_run seg to_toml ops s))"
proof -
  let ?s = "session_run seg to_toml ops s"
  have "session_inv to_toml s" using init by (auto simp: session_inv_def)
  from session_run_safe [OF this] have safe: "status_below ?s" "crash_floor to_toml ?s" by auto
  then obtain m' where m': "c = Some (to_toml m')" "monotone_get (ses_resume_floor ?s) \<le> mf_floor m'"
    using crash by (auto simp: crash_floor_def)
  then show ?thesis
    using safe(1) unfolding status_below_def list_all_iff
    by (intro exI [of _ m'] conjI ballI) (auto intro: order_trans [OF _ m'(2)])
qed

definition demo_toml :: "manifest \<Rightarrow> bytes" where
  "demo_toml m = le_bytes 8 (unat (pos_get (mf_floor m)))"

definition demo_terms :: "u64 \<Rightarrow> cursor_terms" where
  "demo_terms x = \<lparr>ct_history = history_root 1,
     ct_identity = \<lparr>si_system_id = 7, si_timeline = 1, si_timeline_begin = Pos 0\<rparr>,
     ct_shadow = shadow_unbounded, ct_stream_timeline = 1,
     ct_lsn = \<lparr>ls_source_received = Pos x, ls_filter_durable = Pos x, ls_shadow_replay = Pos x,
       ls_drain = Pos x, ls_emitter_ack = Pos x, ls_shadow_flush = Pos x\<rparr>\<rparr>"

definition demo_session :: session where
  "demo_session = \<lparr>ses_disk = write_prefix ''manifest.toml'' 5
       (demo_toml (resume_manifest 16 (history_root 1) (ct_identity (demo_terms 0)) (Pos 16) shadow_unbounded 1
         (ct_lsn (demo_terms 0)))) empty_disk,
     ses_resume_floor = monotone_new (Pos 16), ses_gc_floor = monotone_new (Pos 16),
     ses_floors = \<lparr>sf_write = Pos 0, sf_flush = Pos 0, sf_apply = Pos 0\<rparr>, ses_sent = []\<rparr>"

theorem published_floor_survives_crash_witness:
  "let s = session_run 16 demo_toml [CursorWrite 5 (demo_terms 40), SendStatus (demo_terms 50),
       CursorWrite 4 (demo_terms 70)] demo_session in
   monotone_get (ses_resume_floor s) = Pos 32 \<and>
   (\<forall>c. crash_reads ''manifest.toml'' (ses_disk s) c \<longrightarrow>
      (\<exists>m'. c = Some (demo_toml m') \<and> Pos 32 \<le> mf_floor m'))"
proof -
  let ?m = "resume_manifest 16 (history_root 1) (ct_identity (demo_terms 0)) (Pos 16) shadow_unbounded 1
     (ct_lsn (demo_terms 0))"
  let ?ops = "[CursorWrite 5 (demo_terms 40), SendStatus (demo_terms 50), CursorWrite 4 (demo_terms 70)]"
  have "disk_quiet ''manifest.toml'' empty_disk None" by (simp add: disk_quiet_def empty_disk_def)
  then have q: "disk_quiet ''manifest.toml'' (ses_disk demo_session) (Some (demo_toml ?m))"
    by (simp only: demo_session_def session.simps write_prefix_complete)
  have f: "monotone_get (ses_resume_floor demo_session) \<le> mf_floor ?m" "status_below demo_session"
    by (simp_all add: demo_session_def status_below_def resume_manifest_def Let_def inputs_floor_def)
  have v: "monotone_get (ses_resume_floor (session_run 16 demo_toml ?ops demo_session)) = Pos 32"
    by (simp add: cursor_write_def manifest_write_def send_status_def Let_def prepare_status_def demo_session_def
        cursor_manifest_def resume_manifest_def inputs_floor_def resolved_floor_def align_down_def demo_terms_def
        shadow_unbounded_def published.get_join max_def min_def)
  show ?thesis
    using published_floor_survives_crash [where to_toml = demo_toml and m = ?m and s = demo_session and seg = 16
        and ops = ?ops, OF q f] v by (auto simp: Let_def)
qed

end
