(* ===== verification/Retention.thy ===== *)
theory Retention
  imports Manifest
begin

text \<open>
  Trimming the directory of filtered segments (\<open>src/src/ops/retention.rs\<close>). A directory is
  the list of its file names and sizes in the order the operating system lists them; names are
  byte strings. The parser of a segment name belongs to another crate: \<open>seg_start\<close> gives
  the start position of the segment a name stands for, \<open>name_len\<close> the length of such a
  name and \<open>seg\<close> the segment size.
\<close>

datatype file_kind = SegmentFile | ManifestFile | PartialFile

record trim_report =
  tr_segments_removed :: nat
  tr_manifests_removed :: nat
  tr_partials_removed :: nat
  tr_bytes_freed :: u64

definition trim_report_default :: trim_report where
  "trim_report_default = \<lparr>tr_segments_removed = 0, tr_manifests_removed = 0, tr_partials_removed = 0, tr_bytes_freed = 0\<rparr>"

definition is_ascii_hexdigit :: "char \<Rightarrow> bool" where
  "is_ascii_hexdigit c \<longleftrightarrow>
     (let n = of_char c :: nat in 48 \<le> n \<and> n \<le> 57 \<or> 65 \<le> n \<and> n \<le> 70 \<or> 97 \<le> n \<and> n \<le> 102)"

definition all_hex :: "string \<Rightarrow> bool" where
  "all_hex s \<longleftrightarrow> list_all is_ascii_hexdigit s"

definition strip_suffix :: "string \<Rightarrow> string \<Rightarrow> string option" where
  "strip_suffix suf s =
     (if length suf \<le> length s \<and> drop (length s - length suf) s = suf
      then Some (take (length s - length suf) s) else None)"

definition is_stem :: "nat \<Rightarrow> string \<Rightarrow> bool" where
  "is_stem name_len stem \<longleftrightarrow> length stem = name_len \<and> all_hex stem"

definition classify :: "nat \<Rightarrow> string \<Rightarrow> string option \<times> file_kind" where
  "classify name_len name =
     (if is_stem name_len name then (Some name, SegmentFile)
      else case strip_suffix ''.manifest.json'' name of
        Some stem \<Rightarrow>
          if is_stem name_len stem then (Some stem, ManifestFile)
          else (case strip_suffix ''.partial.manifest.json'' name of
            Some stem' \<Rightarrow> if is_stem name_len stem' then (Some stem', ManifestFile) else (None, SegmentFile)
          | None \<Rightarrow> (None, SegmentFile))
      | None \<Rightarrow>
          (case (case strip_suffix ''.partial'' name of Some st \<Rightarrow> Some st | None \<Rightarrow> strip_suffix ''.tmp'' name) of
            Some stem \<Rightarrow> if is_stem name_len stem then (Some stem, PartialFile) else (None, SegmentFile)
          | None \<Rightarrow> (None, SegmentFile)))"

definition segment_end :: "(string \<Rightarrow> u64 option) \<Rightarrow> nat \<Rightarrow> u64 \<Rightarrow> string \<Rightarrow> u64 option" where
  "segment_end seg_start name_len seg name =
     map_option (\<lambda>s. sat_add s seg) (Option.bind (fst (classify name_len name)) seg_start)"

definition count_removed :: "file_kind \<Rightarrow> u64 \<Rightarrow> trim_report \<Rightarrow> trim_report" where
  "count_removed kind fsize r =
     (let r = r\<lparr>tr_bytes_freed := sat_add (tr_bytes_freed r) fsize\<rparr> in
      case kind of
        SegmentFile \<Rightarrow> r\<lparr>tr_segments_removed := Suc (tr_segments_removed r)\<rparr>
      | ManifestFile \<Rightarrow> r\<lparr>tr_manifests_removed := Suc (tr_manifests_removed r)\<rparr>
      | PartialFile \<Rightarrow> r\<lparr>tr_partials_removed := Suc (tr_partials_removed r)\<rparr>)"

text \<open>One sweep: the files kept, and the report or the error of a failed removal
  (\<open>remove_ok\<close>), which ends the sweep.\<close>

fun trim_files :: "(string \<Rightarrow> u64 option) \<Rightarrow> nat \<Rightarrow> u64 \<Rightarrow> u64 \<Rightarrow> (string \<Rightarrow> bool) \<Rightarrow>
    (string \<times> u64) list \<Rightarrow> trim_report \<Rightarrow> (string \<times> u64) list \<times> (unit, trim_report) result" where
  "trim_files seg_start name_len seg cutoff remove_ok [] r = ([], Inr r)"
| "trim_files seg_start name_len seg cutoff remove_ok ((name, fsize) # rest) r =
     (let keep_going = (\<lambda>r'. trim_files seg_start name_len seg cutoff remove_ok rest r');
          kept = (\<lambda>(fs, res). ((name, fsize) # fs, res))
      in case segment_end seg_start name_len seg name of
           None \<Rightarrow> kept (keep_going r)
         | Some end_lsn \<Rightarrow>
             if cutoff < end_lsn then kept (keep_going r)
             else if \<not> remove_ok name then ((name, fsize) # rest, Inl ())
             else keep_going (count_removed (snd (classify name_len name)) fsize r))"

definition trim_below_lsn :: "(string \<Rightarrow> u64 option) \<Rightarrow> nat \<Rightarrow> u64 \<Rightarrow> shadow_replay_k pos \<Rightarrow> (string \<Rightarrow> bool) \<Rightarrow>
    (string \<times> u64) list \<Rightarrow> (string \<times> u64) list \<times> (unit, trim_report) result" where
  "trim_below_lsn seg_start name_len seg cutoff remove_ok files =
     trim_files seg_start name_len seg (pos_get cutoff) remove_ok files trim_report_default"

definition max_segment_end :: "(string \<Rightarrow> u64 option) \<Rightarrow> nat \<Rightarrow> u64 \<Rightarrow> (string \<times> u64) list \<Rightarrow> filter_durable_k pos option" where
  "max_segment_end seg_start name_len seg files =
     fold (\<lambda>(name, _) max_end.
       if snd (classify name_len name) \<noteq> SegmentFile then max_end
       else case segment_end seg_start name_len seg name of
              None \<Rightarrow> max_end
            | Some e \<Rightarrow> Some (case max_end of None \<Rightarrow> Pos e | Some m \<Rightarrow> max m (Pos e)))
       files None"

section \<open>Lemmas\<close>

definition trimmable :: "(string \<Rightarrow> u64 option) \<Rightarrow> nat \<Rightarrow> u64 \<Rightarrow> u64 \<Rightarrow> string \<Rightarrow> bool" where
  "trimmable seg_start name_len seg cutoff name \<longleftrightarrow>
     (case segment_end seg_start name_len seg name of None \<Rightarrow> False | Some e \<Rightarrow> e \<le> cutoff)"

definition removed_total :: "trim_report \<Rightarrow> nat" where
  "removed_total r = tr_segments_removed r + tr_manifests_removed r + tr_partials_removed r"

lemma removed_total_count [simp]: "removed_total (count_removed k fsize r) = Suc (removed_total r)"
  by (cases k) (simp_all add: removed_total_def count_removed_def Let_def)

lemma trim_files_ok:
  assumes "trim_files ss nl seg cutoff ok files r = (kept, Inr r')"
  shows "kept = filter (\<lambda>(name, _). \<not> trimmable ss nl seg cutoff name) files \<and>
     removed_total r' = removed_total r + length (filter (\<lambda>(name, _). trimmable ss nl seg cutoff name) files)"
  using assms
proof (induction ss nl seg cutoff ok files r arbitrary: kept rule: trim_files.induct)
  case (2 ss nl seg cutoff ok name fsize rest r)
  then show ?case
    by (cases "segment_end ss nl seg name")
      (auto simp: Let_def trimmable_def not_less split: if_splits prod.splits)
qed simp

lemma trim_files_keeps:
  "(name, fsize) \<in> set files \<Longrightarrow> \<not> trimmable ss nl seg cutoff name \<Longrightarrow>
   (name, fsize) \<in> set (fst (trim_files ss nl seg cutoff ok files r))"
proof (induction ss nl seg cutoff ok files r rule: trim_files.induct)
  case (2 ss nl seg cutoff ok n s rest r)
  then show ?case
    by (cases "segment_end ss nl seg n") (auto simp: Let_def trimmable_def not_less case_prod_unfold)
qed simp

section \<open>Property\<close>

text \<open>
  C15: trimming never removes WAL the shadow needs. With the cutoff computed from the shadow's replay
  position, the retained bytes and the last restartpoint, a sweep, interrupted by a failed
  removal or not, keeps every file that is not a segment artifact and every artifact of a
  segment that ends above the restartpoint or within the retained bytes before the replay
  position. A sweep that succeeds removes all others and counts each of them once.
\<close>
theorem retention_trim_safe:
  assumes "trim_below_lsn ss nl seg (retention_cutoff replay bytes redo) ok files = (kept, res)"
  shows "(\<forall>f \<in> set files. (case segment_end ss nl seg (fst f) of
            None \<Rightarrow> True
          | Some e \<Rightarrow> (case redo of None \<Rightarrow> False | Some rd \<Rightarrow> pos_get rd < e) \<or>
                      unat (pos_get replay) - unat bytes < unat e) \<longrightarrow> f \<in> set kept) \<and>
     (\<forall>r. res = Inr r \<longrightarrow>
        kept = filter (\<lambda>(name, _). \<not> trimmable ss nl seg (pos_get (retention_cutoff replay bytes redo)) name) files \<and>
        removed_total r = length files - length kept)"
proof -
  let ?cut = "pos_get (retention_cutoff replay bytes redo)"
  have run: "trim_files ss nl seg ?cut ok files trim_report_default = (kept, res)"
    using assms by (simp add: trim_below_lsn_def)
  have cut: "?cut < e" if "(case redo of None \<Rightarrow> False | Some rd \<Rightarrow> pos_get rd < e) \<or>
      unat (pos_get replay) - unat bytes < unat e" for e
    using that unfolding retention_cutoff_def pos.sel min_less_iff_disj
    by (auto simp: word_less_nat_alt unat_sat_sub split: option.splits)
  have keep: "f \<in> set kept" if "f \<in> set files" "case segment_end ss nl seg (fst f) of
            None \<Rightarrow> True
          | Some e \<Rightarrow> (case redo of None \<Rightarrow> False | Some rd \<Rightarrow> pos_get rd < e) \<or>
                      unat (pos_get replay) - unat bytes < unat e" for f
  proof -
    have "\<not> trimmable ss nl seg ?cut (fst f)"
      using that(2) cut by (fastforce simp: trimmable_def not_le split: option.splits)
    with that(1) trim_files_keeps [of "fst f" "snd f" files ss nl seg ?cut ok trim_report_default] run
    show ?thesis by simp
  qed
  moreover have "kept = filter (\<lambda>(name, _). \<not> trimmable ss nl seg ?cut name) files \<and>
      removed_total r = length files - length kept" if "res = Inr r" for r
  proof -
    have all: "kept = filter (\<lambda>(name, _). \<not> trimmable ss nl seg ?cut name) files"
      "removed_total r = length (filter (\<lambda>(name, _). trimmable ss nl seg ?cut name) files)"
      using trim_files_ok [of ss nl seg ?cut ok files trim_report_default kept r] run that
      by (simp_all add: removed_total_def trim_report_default_def)
    have "length files = length kept + removed_total r"
      using sum_length_filter_compl [of "\<lambda>(name, _). \<not> trimmable ss nl seg ?cut name" files]
      by (simp add: all case_prod_unfold)
    with all show ?thesis by simp
  qed
  ultimately show ?thesis by blast
qed

theorem retention_trim_safe_witness:
  "let ss = (\<lambda>s. if s = ''A1'' then Some 16 else if s = ''A2'' then Some 32 else None);
       files = [(''A1'', 5), (''notes'', 9), (''A2.partial'', 7), (''A2'', 8)];
       (kept, res) = trim_below_lsn ss 2 16 (retention_cutoff (Pos 90) 20 (Some (Pos 40))) (\<lambda>_. True) files
   in kept = [(''notes'', 9), (''A2.partial'', 7), (''A2'', 8)] \<and> (\<exists>r. res = Inr r \<and> removed_total r = 1)"
proof -
  let ?ss = "\<lambda>s. if s = ''A1'' then Some 16 else if s = ''A2'' then Some (32 :: u64) else None"
  let ?files = "[(''A1'', 5), (''notes'', 9), (''A2.partial'', 7), (''A2'', 8)] :: (string \<times> u64) list"
  obtain kept res where run: "trim_below_lsn ?ss 2 16 (retention_cutoff (Pos 90) 20 (Some (Pos 40))) (\<lambda>_. True) ?files = (kept, res)"
    by fastforce
  have "kept = [(''notes'', 9), (''A2.partial'', 7), (''A2'', 8)] \<and> (\<exists>r. res = Inr r)"
    using run by (simp add: trim_below_lsn_def retention_cutoff_def segment_end_def classify_def is_stem_def
        all_hex_def is_ascii_hexdigit_def strip_suffix_def sat_add_def sat_sub_def count_removed_def Let_def) auto
  with retention_trim_safe [OF run] show ?thesis by (auto simp: run Let_def)
qed

end
