(* ===== verification/Retire_Ledger.thy ===== *)
theory Retire_Ledger
  imports Positions Atomic_File
begin

text \<open>
  The ledger of deferred TOAST mirror retirements (\<open>src/src/toast/toast_retire.rs\<close>) and
  the loop that works it off (\<open>flush_due_retires\<close> in
  \<open>src/src/emit/pipeline/reorder.rs\<close>). The ledger is kept in memory and in a file; a
  write of the file that reports an error may or may not have landed, as \<open>Atomic_File\<close> shows.
  The decoding of TOML values is an argument.
\<close>

record retire_entry =
  re_db_oid :: u32
  re_toast_relid :: u32
  re_commit_lsn :: "commit_k pos"

record retire_ledger =
  rl_system_id :: u64
  rl_entries :: "retire_entry list"
  rl_file :: "retire_entry list option"

datatype ledger_error = RlIo | RlParse | RlVersion u32 | RlLegacyOwner | RlForeign stamp_error

datatype write_outcome = WriteOk | WriteLost | WriteLanded

section \<open>Operations\<close>

definition ledger_persist :: "write_outcome \<Rightarrow> retire_ledger \<Rightarrow> retire_ledger \<times> (ledger_error, unit) result" where
  "ledger_persist out l =
     (if out = WriteLost then l else l\<lparr>rl_file := Some (rl_entries l)\<rparr>,
      if out = WriteOk then Inr () else Inl RlIo)"

definition ledger_due :: "floor_k pos \<Rightarrow> retire_ledger \<Rightarrow> retire_entry list" where
  "ledger_due cut_pos l = filter (\<lambda>e. retag (re_commit_lsn e) < cut_pos) (rl_entries l)"

definition ledger_push :: "write_outcome \<Rightarrow> retire_entry \<Rightarrow> retire_ledger \<Rightarrow>
    retire_ledger \<times> (ledger_error, unit) result" where
  "ledger_push out e l =
     (if e \<in> set (rl_entries l) then (l, Inr ())
      else ledger_persist out (l\<lparr>rl_entries := rl_entries l @ [e]\<rparr>))"

definition ledger_remove :: "write_outcome \<Rightarrow> retire_entry \<Rightarrow> retire_ledger \<Rightarrow>
    retire_ledger \<times> (ledger_error, unit) result" where
  "ledger_remove out e l =
     (let kept = filter (\<lambda>x. x \<noteq> e) (rl_entries l) in
      if length kept = length (rl_entries l) then (l\<lparr>rl_entries := kept\<rparr>, Inr ())
      else ledger_persist out (l\<lparr>rl_entries := kept\<rparr>))"





text \<open>Working off what is due: wipe the mirror, then drop the entry. Per entry, \<open>wipe\<close> says
  whether the wipe succeeds and \<open>out\<close> what the write of the ledger does. The entries wiped so
  far are returned.\<close>

fun retire_loop :: "(retire_entry \<Rightarrow> bool) \<Rightarrow> (retire_entry \<Rightarrow> write_outcome) \<Rightarrow> retire_entry list \<Rightarrow>
    retire_ledger \<Rightarrow> retire_entry list \<Rightarrow> retire_ledger \<times> retire_entry list \<times> bool" where
  "retire_loop wipe out [] l wiped = (l, wiped, True)"
| "retire_loop wipe out (e # es) l wiped =
     (if \<not> wipe e then (l, wiped, False)
      else case ledger_remove (out e) e l of
             (l', Inl _) \<Rightarrow> (l', wiped @ [e], False)
           | (l', Inr _) \<Rightarrow> retire_loop wipe out es l' (wiped @ [e]))"

definition flush_due_retires :: "bool \<Rightarrow> floor_k pos \<Rightarrow> (retire_entry \<Rightarrow> bool) \<Rightarrow> (retire_entry \<Rightarrow> write_outcome) \<Rightarrow>
    retire_ledger \<Rightarrow> retire_ledger \<times> retire_entry list \<times> bool" where
  "flush_due_retires stores_chunks cut_pos wipe out l =
     (if \<not> stores_chunks \<or> rl_entries l = [] then (l, [], True)
      else retire_loop wipe out (ledger_due cut_pos l) l [])"

section \<open>The file keeps every entry until its mirror is wiped\<close>

text \<open>In step: the file holds what is in memory (a ledger that was never written is empty).\<close>

definition ledger_synced :: "retire_ledger \<Rightarrow> bool" where
  "ledger_synced l \<longleftrightarrow> distinct (rl_entries l) \<and>
     (case rl_file l of None \<Rightarrow> rl_entries l = [] | Some f \<Rightarrow> f = rl_entries l)"

definition file_entries :: "retire_ledger \<Rightarrow> retire_entry set" where
  "file_entries l = (case rl_file l of None \<Rightarrow> {} | Some f \<Rightarrow> set f)"

lemma ledger_synced_file: "ledger_synced l \<Longrightarrow> file_entries l = set (rl_entries l)"
  by (auto simp: ledger_synced_def file_entries_def split: option.splits)

lemma ledger_push_synced:
  assumes "ledger_synced l" "ledger_push out e l = (l', r)"
  shows "r = Inr () \<Longrightarrow> ledger_synced l' \<and> set (rl_entries l') = insert e (set (rl_entries l))"
    and "file_entries l \<subseteq> file_entries l' \<and> file_entries l' \<subseteq> insert e (file_entries l)"
  using assms
  by (auto simp: ledger_push_def ledger_persist_def ledger_synced_def file_entries_def
      split: if_splits option.splits)

lemma ledger_remove_synced:
  assumes "ledger_synced l" "ledger_remove out e l = (l', r)"
  shows "r = Inr () \<Longrightarrow> ledger_synced l' \<and> rl_entries l' = filter (\<lambda>x. x \<noteq> e) (rl_entries l)"
    and "file_entries l - {e} \<subseteq> file_entries l' \<and> file_entries l' \<subseteq> file_entries l"
proof -
  have nochange: "filter (\<lambda>x. x \<noteq> e) (rl_entries l) = rl_entries l"
    if "length (filter (\<lambda>x. x \<noteq> e) (rl_entries l)) = length (rl_entries l)"
    using that by (metis filter_id_conv length_filter_less less_irrefl)
  show "r = Inr () \<Longrightarrow> ledger_synced l' \<and> rl_entries l' = filter (\<lambda>x. x \<noteq> e) (rl_entries l)"
    "file_entries l - {e} \<subseteq> file_entries l' \<and> file_entries l' \<subseteq> file_entries l"
    using assms nochange
    by (auto simp: ledger_remove_def ledger_persist_def ledger_synced_def file_entries_def Let_def
        split: if_splits option.splits)
qed

lemma retire_loop_safe:
  assumes "ledger_synced l" "retire_loop wipe out es l wiped = (l', wiped', ok)" "distinct es"
  shows "file_entries l \<subseteq> file_entries l' \<union> set wiped' \<and>
     set wiped \<subseteq> set wiped' \<and> set wiped' \<subseteq> set wiped \<union> set es \<and>
     file_entries l' \<subseteq> file_entries l \<and> file_entries l - set es \<subseteq> file_entries l' \<and>
     (ok \<longrightarrow> ledger_synced l' \<and> set wiped' = set wiped \<union> set es \<and>
        rl_entries l' = filter (\<lambda>x. x \<notin> set es) (rl_entries l))"
  using assms
proof (induction wipe out es l wiped rule: retire_loop.induct)
  case (2 wipe out e es l wiped)
  show ?case
  proof (cases "wipe e")
    case False
    with "2.prems" show ?thesis by auto
  next
    case True
    obtain l1 r where rm: "ledger_remove (out e) e l = (l1, r)" by fastforce
    note one = ledger_remove_synced [OF "2.prems"(1) rm]
    show ?thesis
    proof (cases r)
      case (Inl x)
      with True rm "2.prems"(2) one(2) show ?thesis by auto
    next
      case (Inr u)
      have loop: "retire_loop wipe out es l1 (wiped @ [e]) = (l', wiped', ok)"
        using True rm Inr "2.prems"(2) by simp
      have synced: "ledger_synced l1" "rl_entries l1 = filter (\<lambda>x. x \<noteq> e) (rl_entries l)"
        using one(1) Inr by (auto simp: unit_eq)
      have "filter (\<lambda>x. x \<notin> set es) (rl_entries l1) = filter (\<lambda>x. x \<notin> set (e # es)) (rl_entries l)"
        by (auto simp: synced(2) intro: filter_cong)
      with "2.IH" [of l1 r u, OF _ _ Inr synced(1) loop] True rm Inr "2.prems"(3) one(2)
      show ?thesis by auto
    qed
  qed
qed auto

lemma ledger_synced_due: "ledger_synced l \<Longrightarrow> distinct (ledger_due cut_pos l)"
  by (simp add: ledger_synced_def ledger_due_def)

section \<open>Properties\<close>

text \<open>
  C16: no retirement is lost and none is early. Working off the ledger, whatever wipe or ledger
  write fails on the way, every entry the file held is still in it or its mirror was wiped;
  only entries whose dropping commit lies below the persisted floor are wiped or leave the
  file; and when nothing fails exactly those have left both memory and file.
\<close>
theorem flush_keeps_or_wipes:
  assumes "ledger_synced l" "flush_due_retires stores cut_pos wipe out l = (l', wiped, ok)"
  shows "file_entries l \<subseteq> file_entries l' \<union> set wiped \<and>
     file_entries l' \<subseteq> file_entries l \<and>
     (\<forall>e \<in> set wiped \<union> (file_entries l - file_entries l'). retag (re_commit_lsn e) < cut_pos) \<and>
     (stores \<and> ok \<longrightarrow> ledger_synced l' \<and>
        rl_entries l' = filter (\<lambda>e. \<not> retag (re_commit_lsn e) < cut_pos) (rl_entries l))"
proof (cases "stores \<and> rl_entries l \<noteq> []")
  case False
  with assms show ?thesis by (auto simp: flush_due_retires_def)
next
  case True
  have loop: "retire_loop wipe out (ledger_due cut_pos l) l [] = (l', wiped, ok)"
    using assms(2) True by (auto simp: flush_due_retires_def)
  have due: "e \<in> set (ledger_due cut_pos l) \<Longrightarrow> retag (re_commit_lsn e) < cut_pos" for e
    by (simp add: ledger_due_def)
  have eq: "filter (\<lambda>x. x \<notin> set (ledger_due cut_pos l)) (rl_entries l) =
     filter (\<lambda>e. \<not> retag (re_commit_lsn e) < cut_pos) (rl_entries l)"
    by (auto simp: ledger_due_def intro: filter_cong)
  show ?thesis
    using retire_loop_safe [OF assms(1) loop ledger_synced_due [OF assms(1)]] due
    unfolding eq by auto
qed

definition demo_entry :: "u32 \<Rightarrow> u64 \<Rightarrow> retire_entry" where
  "demo_entry r c = \<lparr>re_db_oid = 5, re_toast_relid = r, re_commit_lsn = Pos c\<rparr>"

theorem flush_keeps_or_wipes_witness:
  "let l = \<lparr>rl_system_id = 7, rl_entries = [demo_entry 1 10, demo_entry 2 20, demo_entry 3 30],
            rl_file = Some [demo_entry 1 10, demo_entry 2 20, demo_entry 3 30]\<rparr>;
       (l', wiped, ok) = flush_due_retires True (Pos 25) (\<lambda>_. True) (\<lambda>e. if e = demo_entry 2 20 then WriteLost else WriteOk) l
   in ledger_synced l \<and> \<not> ok \<and> wiped = [demo_entry 1 10, demo_entry 2 20] \<and>
      file_entries l \<subseteq> file_entries l' \<union> set wiped"
proof -
  let ?l = "\<lparr>rl_system_id = 7, rl_entries = [demo_entry 1 10, demo_entry 2 20, demo_entry 3 30],
            rl_file = Some [demo_entry 1 10, demo_entry 2 20, demo_entry 3 30]\<rparr>"
  let ?out = "\<lambda>e. if e = demo_entry 2 20 then WriteLost else WriteOk"
  obtain l' wiped ok where r: "flush_due_retires True (Pos 25) (\<lambda>_. True) ?out ?l = (l', wiped, ok)"
    by (metis prod_cases3)
  have s: "ledger_synced ?l" by (simp add: ledger_synced_def demo_entry_def)
  have "\<not> ok \<and> wiped = [demo_entry 1 10, demo_entry 2 20]"
    using r by (simp add: flush_due_retires_def ledger_due_def ledger_remove_def ledger_persist_def demo_entry_def
        retag_def Let_def)
  with flush_keeps_or_wipes [OF s r] s show ?thesis by (simp add: r Let_def)
qed




end
