(* ===== verification/Xid_Ceiling.thy ===== *)
theory Xid_Ceiling
  imports WS_Prelude
begin

text \<open>
  Transaction id ceilings sampled along the WAL (\<open>src/src/toast/xid_ceiling.rs\<close>). Transaction
  ids wrap; \<open>follows\<close> is the modular order of PostgreSQL. The ceiling at a position must never
  be older than an id seen at or before it, else a value would be taken for a reused one.
\<close>

definition SAMPLE_BYTES :: u64 where
  "SAMPLE_BYTES = 2 ^ 20"

definition SAMPLE_CAP :: nat where
  "SAMPLE_CAP = 16 * 1024"

definition follows :: "u32 \<Rightarrow> u32 \<Rightarrow> bool" where
  "follows a b \<longleftrightarrow> sint (a - b) > 0"

record xid_ceiling =
  xc_max_xid :: u32
  xc_next_sample_lsn :: u64
  xc_samples :: "(u64 \<times> u32) list"

definition ceiling_new :: xid_ceiling where
  "ceiling_new = \<lparr>xc_max_xid = 0, xc_next_sample_lsn = 0, xc_samples = []\<rparr>"

definition ceiling_observe :: "u64 \<Rightarrow> u32 \<Rightarrow> xid_ceiling \<Rightarrow> xid_ceiling" where
  "ceiling_observe lsn xid c =
     (let have_xid = xc_max_xid c;
          c = (if xid \<noteq> 0 \<and> (have_xid = 0 \<or> follows xid have_xid) then c\<lparr>xc_max_xid := xid\<rparr> else c)
      in if lsn < xc_next_sample_lsn c then c
         else
           let c = c\<lparr>xc_next_sample_lsn := lsn + SAMPLE_BYTES\<rparr> in
           if xc_max_xid c = 0 then c
           else
             let samples = xc_samples c @ [(lsn, xc_max_xid c)]
             in c\<lparr>xc_samples := drop (length samples - SAMPLE_CAP) samples\<rparr>)"

text \<open>\<open>partition_point\<close> on the samples, which are sorted by position: the first sample at or
  after the position.\<close>

definition ceiling_at :: "u64 \<Rightarrow> xid_ceiling \<Rightarrow> u32" where
  "ceiling_at lsn c = (case dropWhile (\<lambda>(sample_lsn, _). sample_lsn < lsn) (xc_samples c) of
     [] \<Rightarrow> 0 | (_, xid) # _ \<Rightarrow> xid)"

definition ceiling_run :: "(u64 \<times> u32) list \<Rightarrow> xid_ceiling" where
  "ceiling_run obs = fold (\<lambda>(lsn, xid) c. ceiling_observe lsn xid c) obs ceiling_new"

section \<open>Modular order within half the circle\<close>

lemma sint_pos_iff: "sint (w :: u32) > 0 \<longleftrightarrow> 0 < unat w \<and> unat w < 2 ^ 31"
proof -
  define u where "u = uint w"
  have u: "0 \<le> u" "u < 4294967296" using uint_lt2p [of w] by (simp_all add: u_def)
  have s: "sint w = (u + 2147483648) mod 4294967296 - 2147483648"
    using int_word_sint [of "uint w", where 'a = 32] by (simp add: u_def)
  have "int (unat w) = u" by (simp add: u_def)
  then have n: "unat w = nat u" by linarith
  show ?thesis
  proof (cases "u < 2147483648")
    case True
    then have "(u + 2147483648) mod 4294967296 = u + 2147483648" using u by (intro mod_pos_pos_trivial) auto
    with True s n show ?thesis by (auto simp: nat_less_iff)
  next
    case False
    have "(u + 2147483648) mod 4294967296 = (u - 2147483648) mod 4294967296"
      using mod_add_self2 [of "u - 2147483648" 4294967296] by (simp add: add.commute)
    also have "\<dots> = u - 2147483648" using False u by (intro mod_pos_pos_trivial) auto
    finally show ?thesis using False s n u by (auto simp: nat_less_iff)
  qed
qed

lemma sint_diff_pos:
  "unat p < 2 ^ 31 \<Longrightarrow> unat q < 2 ^ 31 \<Longrightarrow> sint (p - q :: u32) > 0 \<longleftrightarrow> unat q < unat p"
  unfolding sint_pos_iff by (auto simp: unat_sub_if' split: if_splits)

definition in_window :: "u32 \<Rightarrow> u32 \<Rightarrow> bool" where
  "in_window base x \<longleftrightarrow> unat (x - base) < 2 ^ 31"

lemma follows_window:
  assumes "in_window base a" "in_window base b"
  shows "follows a b \<longleftrightarrow> unat (b - base) < unat (a - base)"
proof -
  have "a - b = (a - base) - (b - base)" by simp
  then show ?thesis
    using sint_diff_pos [of "a - base" "b - base"] assms by (simp only: follows_def in_window_def)
qed

section \<open>Invariant\<close>

definition offset :: "u32 \<Rightarrow> u32 \<Rightarrow> nat" where
  "offset base x = unat (x - base)"

text \<open>After observing \<open>obs\<close>: the running maximum and each sample dominate everything seen so
  far, respectively at or before the sample.\<close>

definition ceiling_inv :: "u32 \<Rightarrow> (u64 \<times> u32) list \<Rightarrow> xid_ceiling \<Rightarrow> bool" where
  "ceiling_inv base obs c \<longleftrightarrow>
     (xc_max_xid c \<noteq> 0 \<longrightarrow> in_window base (xc_max_xid c)) \<and>
     (\<forall>(l, x) \<in> set obs. x \<noteq> 0 \<longrightarrow> xc_max_xid c \<noteq> 0 \<and> offset base x \<le> offset base (xc_max_xid c)) \<and>
     (\<forall>(l, m) \<in> set (xc_samples c). m \<noteq> 0 \<and> in_window base m \<and>
        (\<forall>(l', x) \<in> set obs. l' \<le> l \<and> x \<noteq> 0 \<longrightarrow> offset base x \<le> offset base m))"

definition max_step :: "u32 \<Rightarrow> u32 \<Rightarrow> u32" where
  "max_step xid m = (if xid \<noteq> 0 \<and> (m = 0 \<or> follows xid m) then xid else m)"

lemma ceiling_observe_fields:
  "xc_max_xid (ceiling_observe lsn xid c) = max_step xid (xc_max_xid c)"
  "set (xc_samples (ceiling_observe lsn xid c)) \<subseteq> set (xc_samples c) \<union>
     (if max_step xid (xc_max_xid c) = 0 then {} else {(lsn, max_step xid (xc_max_xid c))})"
  by (auto simp: ceiling_observe_def max_step_def Let_def dest!: in_set_dropD split: if_splits)

lemma max_step_window:
  assumes "m \<noteq> 0 \<longrightarrow> in_window base m" "x \<noteq> 0 \<longrightarrow> in_window base x"
  shows "max_step x m \<noteq> 0 \<longrightarrow> in_window base (max_step x m)"
    "m \<noteq> 0 \<Longrightarrow> max_step x m \<noteq> 0 \<and> offset base m \<le> offset base (max_step x m)"
    "x \<noteq> 0 \<Longrightarrow> max_step x m \<noteq> 0 \<and> offset base x \<le> offset base (max_step x m)"
  using assms follows_window [of base x m] by (auto simp: max_step_def offset_def)

lemma ceiling_observe_inv:
  assumes inv: "ceiling_inv base obs c" and win: "x \<noteq> 0 \<longrightarrow> in_window base x"
    and fwd: "\<forall>(l, y) \<in> set obs. l \<le> lsn" "\<forall>(l, m) \<in> set (xc_samples c). l < lsn"
  shows "ceiling_inv base (obs @ [(lsn, x)]) (ceiling_observe lsn x c)"
proof -
  let ?c = "ceiling_observe lsn x c" and ?m = "max_step x (xc_max_xid c)"
  have mw: "xc_max_xid c \<noteq> 0 \<longrightarrow> in_window base (xc_max_xid c)" using inv by (simp add: ceiling_inv_def)
  note mx = max_step_window [OF mw win]
  have seen: "?m \<noteq> 0 \<and> offset base y \<le> offset base ?m" if "(l, y) \<in> set (obs @ [(lsn, x)])" "y \<noteq> 0" for l y
    using that inv mx(2,3) by (fastforce simp: ceiling_inv_def)
  have "m \<noteq> 0 \<and> in_window base m \<and> (l' \<le> l \<and> y \<noteq> 0 \<longrightarrow> offset base y \<le> offset base m)"
    if sm: "(l, m) \<in> set (xc_samples ?c)" and ob: "(l', y) \<in> set (obs @ [(lsn, x)])" for l m l' y
  proof (cases "(l, m) \<in> set (xc_samples c)")
    case True
    then have "l < lsn" using fwd(2) by auto
    then show ?thesis using inv True ob by (fastforce simp: ceiling_inv_def)
  next
    case False
    with sm ceiling_observe_fields(2) [of lsn x c] have "?m \<noteq> 0" "m = ?m" by (auto split: if_splits)
    with mx(1) seen ob show ?thesis by auto
  qed
  then have samples: "\<forall>(l, m) \<in> set (xc_samples ?c). m \<noteq> 0 \<and> in_window base m \<and>
      (\<forall>(l', y) \<in> set (obs @ [(lsn, x)]). l' \<le> l \<and> y \<noteq> 0 \<longrightarrow> offset base y \<le> offset base m)"
    by fastforce
  show ?thesis
    unfolding ceiling_inv_def ceiling_observe_fields(1)
    using mx(1) seen samples by blast
qed

section \<open>Property\<close>

text \<open>Positions move forward past every sample taken.\<close>

definition forward :: "(u64 \<times> u32) list \<Rightarrow> (u64 \<times> u32) \<Rightarrow> bool" where
  "forward h a \<longleftrightarrow> list_all (\<lambda>(l, _). l < fst a) h"

lemma ceiling_run_snoc: "ceiling_run (obs @ [(l, x)]) = ceiling_observe l x (ceiling_run obs)"
  by (simp add: ceiling_run_def)

lemma ceiling_samples_seen: "fst ` set (xc_samples (ceiling_run obs)) \<subseteq> fst ` set obs"
proof (induction obs rule: rev_induct)
  case Nil
  then show ?case by (simp add: ceiling_run_def ceiling_new_def)
next
  case (snoc a obs)
  obtain l x where a: "a = (l, x)" by (cases a)
  have "set (xc_samples (ceiling_run (obs @ [a]))) \<subseteq> set (xc_samples (ceiling_run obs)) \<union> {(l, max_step x (xc_max_xid (ceiling_run obs)))}"
    using ceiling_observe_fields(2) [of l x "ceiling_run obs"] by (auto simp: a ceiling_run_snoc split: if_splits)
  from image_mono [OF this, of fst] snoc show ?case by (auto simp: a)
qed

lemma ceiling_run_inv:
  "along forward obs \<Longrightarrow> \<forall>(l, x) \<in> set obs. x \<noteq> 0 \<longrightarrow> in_window base x \<Longrightarrow>
   ceiling_inv base obs (ceiling_run obs)"
proof (induction obs rule: rev_induct)
  case Nil
  then show ?case by (simp add: ceiling_run_def ceiling_new_def ceiling_inv_def)
next
  case (snoc a obs)
  obtain l x where a: "a = (l, x)" by (cases a)
  have before: "\<forall>(l', y) \<in> set obs. l' < l" using snoc.prems(1) by (auto simp: a forward_def list_all_iff)
  have "\<forall>(l', m) \<in> set (xc_samples (ceiling_run obs)). l' < l"
    using ceiling_samples_seen [of obs] before by fastforce
  moreover have "\<forall>(l', y) \<in> set obs. l' \<le> l" using before by (auto intro: less_imp_le)
  moreover have "ceiling_inv base obs (ceiling_run obs)" using snoc by auto
  ultimately show ?case
    using ceiling_observe_inv [of base obs "ceiling_run obs" x l] snoc.prems(2)
    by (simp add: a ceiling_run_snoc)
qed

text \<open>
  C18: the ceiling never convicts an original value. For records observed in WAL order whose
  transaction ids lie within half the id circle, the ceiling returned for a position, when
  there is one, is not older than any id of a record at or before that position: no such id
  follows it.
\<close>
theorem ceiling_dominates:
  assumes "along forward obs" "\<forall>(l, x) \<in> set obs. x \<noteq> 0 \<longrightarrow> in_window base x"
    and "ceiling_at lsn (ceiling_run obs) \<noteq> 0"
    and "(l, x) \<in> set obs" "l \<le> lsn" "x \<noteq> 0"
  shows "\<not> follows x (ceiling_at lsn (ceiling_run obs))"
proof -
  let ?c = "ceiling_run obs"
  obtain s m rest where d: "dropWhile (\<lambda>(sample_lsn, _). sample_lsn < lsn) (xc_samples ?c) = (s, m) # rest"
    "ceiling_at lsn ?c = m"
    using assms(3) by (auto simp: ceiling_at_def split: list.splits)
  have "(s, m) \<in> set (xc_samples ?c)" using d(1) by (metis list.set_intros(1) set_dropWhileD)
  moreover have "lsn \<le> s" using hd_dropWhile [of "\<lambda>(sample_lsn, _). sample_lsn < lsn" "xc_samples ?c"] d(1)
    by (simp add: not_less)
  ultimately have "in_window base m \<and> offset base x \<le> offset base m"
    using ceiling_run_inv [OF assms(1,2)] assms(4,6) order_trans [OF assms(5)]
    unfolding ceiling_inv_def by blast
  moreover have "in_window base x" using assms(2,4,6) by blast
  ultimately show ?thesis by (simp add: d(2) follows_window offset_def)
qed

theorem ceiling_dominates_witness:
  "let obs = [(10, 4294967290), (20, 3), (2000000, 0)] in
   along forward obs \<and> ceiling_at 15 (ceiling_run obs) = 3 \<and> \<not> follows 4294967290 (ceiling_at 15 (ceiling_run obs))"
proof -
  let ?obs = "[(10, 4294967290), (20, 3), (2000000, 0)] :: (u64 \<times> u32) list"
  have h: "along forward ?obs" "\<forall>(l, x) \<in> set ?obs. x \<noteq> 0 \<longrightarrow> in_window 4294967200 x"
    by (simp_all add: along_def forward_def in_window_def upt_rec nth_Cons')
  have s: "ceiling_at 15 (ceiling_run ?obs) = 3"
    by (simp add: ceiling_run_def ceiling_new_def ceiling_observe_def ceiling_at_def SAMPLE_BYTES_def SAMPLE_CAP_def
        follows_def Let_def)
  from ceiling_dominates [OF h, of 15 10 4294967290] h s show ?thesis by (simp add: Let_def)
qed

end
