(* ===== verification/WAL_Page.thy ===== *)
theory WAL_Page
  imports WS_Prelude
begin

text \<open>
  WAL page headers (\<open>src/src/source/wal_page.rs\<close>). The numbers of PostgreSQL's on-disk
  format come from another crate and are the fields of \<open>wal_format\<close>, the first argument of
  every definition that reads them; \<open>format_ok\<close> states what the source relies on.
  Offsets are naturals, header fields keep their width.
\<close>

unbundle bit_operations_syntax

record wal_format =
  wf_page_size :: nat
  wf_rec_header :: nat
  wf_align :: nat
  wf_magic_pg15 :: u16
  wf_long_header :: u16

definition SHORT_HEADER_SIZE :: nat where
  "SHORT_HEADER_SIZE = 20"

definition LONG_HEADER_SIZE :: nat where
  "LONG_HEADER_SIZE = SHORT_HEADER_SIZE + 16"

definition XLP_ALL_FLAGS :: u16 where
  "XLP_ALL_FLAGS = 0x0007"

datatype walk_error =
    BadPageMagic nat u16
  | UnsupportedSourceVersion nat u16
  | BadPageInfo nat u16
  | ZeroRecord nat
  | ShortRecord nat nat
  | Truncated nat

datatype page_header =
    ShortHeaderIncomplete
  | LongHeaderIncomplete
  | ZeroPage
  | ValidHeader u16 nat nat

text \<open>The mask expression of \<open>align_up\<close>. Offsets into a buffer are far below the
  width of \<open>usize\<close>, so the expression is read over the integers.\<close>

definition align_up :: "nat \<Rightarrow> nat \<Rightarrow> nat" where
  "align_up n align = nat ((int n + int align - 1) AND NOT (int align - 1))"

definition u16_at :: "bytes \<Rightarrow> nat \<Rightarrow> u16" where
  "u16_at bs i = word_of_nat (le_nat (slice i (i + 2) bs))"

definition u32_at :: "bytes \<Rightarrow> nat \<Rightarrow> u32" where
  "u32_at bs i = word_of_nat (le_nat (slice i (i + 4) bs))"

definition parse_page_header :: "wal_format \<Rightarrow> bytes \<Rightarrow> nat \<Rightarrow> (walk_error, page_header) result" where
  "parse_page_header fmt bs page_start =
     (if page_start + SHORT_HEADER_SIZE > length bs then Inr ShortHeaderIncomplete
      else
        let magic = u16_at bs page_start;
            info = u16_at bs (page_start + 2)
        in if magic = 0 \<and> info = 0 then Inr ZeroPage
           else if magic AND 0xFF00 \<noteq> 0xD100 then Inl (BadPageMagic page_start magic)
           else if magic < wf_magic_pg15 fmt then Inl (UnsupportedSourceVersion page_start magic)
           else if info AND NOT XLP_ALL_FLAGS \<noteq> 0 then Inl (BadPageInfo page_start info)
           else
             let is_long = (info AND wf_long_header fmt \<noteq> 0);
                 header_size = (if is_long then LONG_HEADER_SIZE else SHORT_HEADER_SIZE)
             in if page_start + header_size > length bs then Inr LongHeaderIncomplete
                else Inr (ValidHeader magic (page_start + align_up header_size (wf_align fmt))
                       (unat (u32_at bs (page_start + 16)))))"

section \<open>Alignment\<close>

lemma and_not_mask: "(x :: int) AND NOT (mask k) = x div 2 ^ k * 2 ^ k"
proof -
  have "x AND NOT (mask k) = push_bit k (drop_bit k x)"
    by (rule bit_eqI) (auto simp: bit_simps)
  then show ?thesis by (simp add: push_bit_eq_mult drop_bit_eq_div)
qed

lemma align_up_eq: "align_up n (2 ^ k) = (n + 2 ^ k - 1) div 2 ^ k * 2 ^ k"
proof -
  have "(1 :: nat) \<le> 2 ^ k" by simp
  then have conv: "int n + int (2 ^ k) - 1 = int (n + 2 ^ k - 1)" by linarith
  have "(int n + int (2 ^ k) - 1) AND NOT (int (2 ^ k) - 1) = (int n + int (2 ^ k) - 1) div 2 ^ k * 2 ^ k"
    by (metis and_not_mask mask_eq_exp_minus_1 of_nat_numeral of_nat_power)
  also have "\<dots> = int ((n + 2 ^ k - 1) div 2 ^ k * 2 ^ k)"
    unfolding conv by (metis of_nat_mult of_nat_numeral of_nat_power zdiv_int)
  finally show ?thesis by (simp only: align_up_def nat_int)
qed

lemma align_up_bounds:
  assumes "align = 2 ^ k"
  shows "n \<le> align_up n align" "align_up n align < n + align" "align_up n align mod align = 0"
proof -
  have pos: "0 < align" using assms by simp
  have eq: "align_up n align = (n + align - 1) div align * align" by (simp add: assms align_up_eq)
  have "n + align - 1 = (n + align - 1) div align * align + (n + align - 1) mod align" by simp
  moreover have "(n + align - 1) mod align < align" using pos by simp
  ultimately show "n \<le> align_up n align" "align_up n align < n + align" using pos unfolding eq by linarith+
  show "align_up n align mod align = 0" by (simp add: eq)
qed

lemma align_up_le:
  assumes "align = 2 ^ k" "n \<le> m" "m mod align = 0"
  shows "align_up n align \<le> m"
proof -
  obtain q where q: "m = align * q" using assms(3) by (metis dvdE mod_0_imp_dvd)
  have "align_up n align < align * Suc q" using align_up_bounds(2) [OF assms(1), of n] assms(2) q by simp
  moreover obtain r where "align_up n align = align * r"
    using align_up_bounds(3) [OF assms(1), of n] by (metis dvdE mod_0_imp_dvd)
  ultimately have "r < Suc q" by (metis mult_less_cancel1)
  with \<open>align_up n align = align * r\<close> show ?thesis by (simp add: q)
qed

text \<open>What the source relies on: a power-of-two alignment that divides the page size, room for the
  page header and a record header on a page, and a record header that holds the length
  field.\<close>

definition format_ok :: "wal_format \<Rightarrow> bool" where
  "format_ok fmt \<longleftrightarrow> wf_align fmt \<in> {1, 2, 4, 8, 16, 32, 64} \<and> wf_page_size fmt mod wf_align fmt = 0 \<and>
     100 + wf_rec_header fmt \<le> wf_page_size fmt \<and> wf_page_size fmt < 2 ^ 32 \<and> 4 \<le> wf_rec_header fmt"

definition pg_format :: wal_format where
  "pg_format = \<lparr>wf_page_size = 8192, wf_rec_header = 24, wf_align = 8, wf_magic_pg15 = 0xD110, wf_long_header = 2\<rparr>"

lemma pg_format_ok: "format_ok pg_format"
  by (simp add: format_ok_def pg_format_def)

lemma format_align: "format_ok fmt \<Longrightarrow> \<exists>k \<le> 6. wf_align fmt = 2 ^ k"
proof -
  assume "format_ok fmt"
  then have "wf_align fmt \<in> (\<lambda>k. 2 ^ k) ` {0, 1, 2, 3, 4, 5, 6}" by (auto simp: format_ok_def)
  then obtain k where "k \<in> {0, 1, 2, 3, 4, 5, 6 :: nat}" "wf_align fmt = 2 ^ k" by blast
  then show ?thesis by (intro exI [of _ k]) auto
qed

lemma format_align_up:
  assumes "format_ok fmt"
  shows "n \<le> align_up n (wf_align fmt)" "align_up n (wf_align fmt) < n + wf_align fmt"
    "align_up n (wf_align fmt) mod wf_align fmt = 0"
    "n \<le> m \<Longrightarrow> m mod wf_align fmt = 0 \<Longrightarrow> align_up n (wf_align fmt) \<le> m"
proof -
  obtain k where k: "wf_align fmt = 2 ^ k" using format_align [OF assms] by blast
  show "n \<le> align_up n (wf_align fmt)" "align_up n (wf_align fmt) < n + wf_align fmt"
    "align_up n (wf_align fmt) mod wf_align fmt = 0"
    using align_up_bounds [OF k] by simp_all
  show "n \<le> m \<Longrightarrow> m mod wf_align fmt = 0 \<Longrightarrow> align_up n (wf_align fmt) \<le> m"
    by (rule align_up_le [OF k])
qed

lemma parse_page_header_valid:
  assumes "format_ok fmt" "parse_page_header fmt bs page_start = Inr (ValidHeader magic data_start rem)"
  shows "magic \<noteq> 0" "page_start + SHORT_HEADER_SIZE \<le> length bs" "page_start < data_start"
    "data_start \<le> page_start + 100"
proof -
  obtain hs where hs: "hs \<in> {SHORT_HEADER_SIZE, LONG_HEADER_SIZE}" "data_start = page_start + align_up hs (wf_align fmt)"
    and rest: "magic AND 0xFF00 = 0xD100" "page_start + SHORT_HEADER_SIZE \<le> length bs"
    using assms(2) by (auto simp: parse_page_header_def Let_def split: if_splits)
  then show "magic \<noteq> 0" "page_start + SHORT_HEADER_SIZE \<le> length bs" by auto
  have "0 < hs" "hs \<le> 36"
    using hs(1) by (auto simp: SHORT_HEADER_SIZE_def LONG_HEADER_SIZE_def)
  moreover have "wf_align fmt \<le> 64" using assms(1) by (auto simp: format_ok_def)
  ultimately show "page_start < data_start" "data_start \<le> page_start + 100"
    using format_align_up(1,2) [OF assms(1), of hs] hs(2) by simp_all
qed

section \<open>A page header depends on its own bytes only\<close>

lemma slice_drop: "slice i j (drop n xs) = slice (i + n) (j + n) xs"
  by (simp add: slice_def add.commute)

lemma u_at_drop: "u16_at (drop n bs) i = u16_at bs (i + n)" "u32_at (drop n bs) i = u32_at bs (i + n)"
  by (simp_all add: u16_at_def u32_at_def slice_drop add.assoc add.left_commute add.commute)

lemma parse_valid_append:
  assumes "parse_page_header fmt bs p = Inr (ValidHeader m d r)"
  shows "parse_page_header fmt (bs @ ys) p = Inr (ValidHeader m d r)"
proof -
  have len: "p + 20 \<le> length bs"
    using assms by (auto simp: parse_page_header_def SHORT_HEADER_SIZE_def split: if_splits)
  have "u16_at (bs @ ys) p = u16_at bs p" "u16_at (bs @ ys) (p + 2) = u16_at bs (p + 2)"
    "u32_at (bs @ ys) (p + 16) = u32_at bs (p + 16)"
    using len by (simp_all add: u16_at_def u32_at_def slice_append_left)
  with assms show ?thesis by (auto simp: parse_page_header_def Let_def split: if_splits)
qed

lemma parse_valid_drop:
  "parse_page_header fmt (drop n bs) p = Inr (ValidHeader m d r) \<longleftrightarrow>
   parse_page_header fmt bs (p + n) = Inr (ValidHeader m (d + n) r)"
proof -
  have len: "length (drop n bs) < p + h \<longleftrightarrow> length bs < p + n + h" if "0 < h" for h
    using that by auto
  have pos: "0 < SHORT_HEADER_SIZE" "0 < LONG_HEADER_SIZE"
    by (simp_all add: SHORT_HEADER_SIZE_def LONG_HEADER_SIZE_def)
  have at: "u16_at (drop n bs) p = u16_at bs (p + n)" "u16_at (drop n bs) (p + 2) = u16_at bs (p + n + 2)"
    "u32_at (drop n bs) (p + 16) = u32_at bs (p + n + 16)"
    by (simp_all only: u_at_drop ac_simps)
  show ?thesis
    unfolding parse_page_header_def Let_def at
    by (simp only: len pos if_distrib [of "(+) _"] if_distrib [of "(<) _"]) (simp add: len pos)
qed

lemma parse_valid_local:
  assumes "format_ok fmt" "parse_page_header fmt bs p = Inr (ValidHeader m d r)" "length bs' = length bs"
    "\<And>i. p \<le> i \<Longrightarrow> i < d \<Longrightarrow> i < length bs \<Longrightarrow> bs' ! i = bs ! i"
  shows "parse_page_header fmt bs' p = Inr (ValidHeader m d r)"
proof -
  have len: "p + 20 \<le> length bs" and d: "p + 20 \<le> d"
    using assms(2) format_align_up(1) [OF assms(1), of SHORT_HEADER_SIZE] format_align_up(1) [OF assms(1), of LONG_HEADER_SIZE]
    by (auto simp: parse_page_header_def SHORT_HEADER_SIZE_def LONG_HEADER_SIZE_def Let_def split: if_splits)
  have same: "slice i j bs' = slice i j bs" if "p \<le> i" "j \<le> p + 20" for i j
    by (rule nth_equalityI) (use that len d assms(3,4) in \<open>auto simp: nth_slice\<close>)
  have "u16_at bs' p = u16_at bs p" "u16_at bs' (p + 2) = u16_at bs (p + 2)"
    "u32_at bs' (p + 16) = u32_at bs (p + 16)"
    by (simp_all add: u16_at_def u32_at_def same)
  with assms show ?thesis by (auto simp: parse_page_header_def Let_def split: if_splits)
qed

end
