(* ===== verification/WAL_Walker.thy ===== *)
theory WAL_Walker
  imports WAL_Page
begin

text \<open>
  The record-cadence segment walker (\<open>src/src/source/streaming_walker.rs\<close>): the page state
  machine that turns WAL bytes, arriving in any chunks, into completed records with the byte
  ranges they occupy. \<open>try_next\<close>'s loop is a partial function whose body is one
  iteration; it is shown to return. A subtraction that the source performs on \<open>usize\<close> and
  that can go below zero is the outcome \<open>Overflowed\<close>.

  The field \<open>w_zero_stitch\<close> is a history variable: it records that a zero page was read
  while a record was pending, and no operation reads it.
\<close>

type_synonym byte_ranges = "(nat \<times> nat) list"

record completed_record =
  c_stitched_bytes :: "bytes option"
  c_byte_ranges :: byte_ranges
  c_start_offset :: nat
  c_page_magic :: u16

record pending =
  p_start_offset :: nat
  p_total_len :: "u32 option"
  p_byte_ranges :: byte_ranges
  p_accumulated_len :: nat
  p_page_magic :: u16

record walker =
  w_seg_size :: nat
  w_buf :: bytes
  w_cursor :: nat
  w_page_start :: nat
  w_page_magic :: u16
  w_page_data_start :: nat
  w_page_cursor :: nat
  w_pending :: "pending option"
  w_done_in_segment :: bool
  w_zero_stitch :: bool

datatype walk_outcome = NeedMore | Yield completed_record | Failed walk_error | Overflowed

fun gather :: "bytes \<Rightarrow> byte_ranges \<Rightarrow> bytes" where
  "gather buf [] = []"
| "gather buf ((off, len) # rs) = slice off (off + len) buf @ gather buf rs"

definition logical_bytes :: "completed_record \<Rightarrow> bytes \<Rightarrow> bytes" where
  "logical_bytes c walker_buf =
     (case c_stitched_bytes c of
        Some v \<Rightarrow> v
      | None \<Rightarrow> (case c_byte_ranges c of
           [] \<Rightarrow> []
         | (off, len) # _ \<Rightarrow> slice off (off + len) walker_buf))"

section \<open>The pending record\<close>

text \<open>The four length bytes, copied range by range into a zeroed array.\<close>

fun header_bytes :: "bytes \<Rightarrow> byte_ranges \<Rightarrow> bytes \<Rightarrow> bytes" where
  "header_bytes buf [] hdr = hdr"
| "header_bytes buf ((off, len) # rs) hdr =
     (if length hdr \<ge> 4 then hdr
      else header_bytes buf rs (hdr @ slice off (off + min (4 - length hdr) len) buf))"

definition try_resolve_total_len :: "wal_format \<Rightarrow> bytes \<Rightarrow> pending \<Rightarrow> pending" where
  "try_resolve_total_len fmt buf p =
     (if p_total_len p \<noteq> None \<or> p_accumulated_len p < wf_rec_header fmt then p
      else
        let hdr = header_bytes buf (p_byte_ranges p) [];
            hdr = hdr @ replicate (4 - length hdr) 0
        in p\<lparr>p_total_len := Some (word_of_nat (le_nat hdr))\<rparr>)"

definition fully_loaded :: "pending \<Rightarrow> bool" where
  "fully_loaded p = (case p_total_len p of Some t \<Rightarrow> p_accumulated_len p = unat t | None \<Rightarrow> False)"

definition materialise :: "pending \<Rightarrow> bytes \<Rightarrow> bytes" where
  "materialise p buf = gather buf (p_byte_ranges p)"

definition push_range :: "nat \<Rightarrow> nat \<Rightarrow> pending \<Rightarrow> pending" where
  "push_range off take_now p =
     (if take_now > 0
      then p\<lparr>p_byte_ranges := p_byte_ranges p @ [(off, take_now)], p_accumulated_len := p_accumulated_len p + take_now\<rparr>
      else p)"

definition complete_pending :: "pending \<Rightarrow> bytes \<Rightarrow> completed_record" where
  "complete_pending p buf =
     \<lparr>c_stitched_bytes = Some (materialise p buf), c_byte_ranges = p_byte_ranges p,
      c_start_offset = p_start_offset p, c_page_magic = p_page_magic p\<rparr>"

section \<open>Operations\<close>

definition walker_new :: "nat \<Rightarrow> walker" where
  "walker_new seg_size =
     \<lparr>w_seg_size = seg_size, w_buf = [], w_cursor = 0, w_page_start = 0, w_page_magic = 0, w_page_data_start = 0,
      w_page_cursor = 0, w_pending = None, w_done_in_segment = False, w_zero_stitch = False\<rparr>"

definition walker_extend :: "bytes \<Rightarrow> walker \<Rightarrow> walker" where
  "walker_extend bs w = w\<lparr>w_buf := w_buf w @ bs\<rparr>"

definition first_segment_ready :: "walker \<Rightarrow> bool" where
  "first_segment_ready w \<longleftrightarrow>
     length (w_buf w) \<ge> w_seg_size w \<and>
     \<not> (case w_pending w of None \<Rightarrow> False | Some p \<Rightarrow> p_start_offset p < w_seg_size w)"

definition rebase_pending :: "nat \<Rightarrow> pending \<Rightarrow> pending" where
  "rebase_pending n p =
     p\<lparr>p_start_offset := p_start_offset p - n, p_byte_ranges := map (\<lambda>(off, len). (off - n, len)) (p_byte_ranges p)\<rparr>"

definition truncate_first_segment :: "walker \<Rightarrow> walker" where
  "truncate_first_segment w =
     (let n = w_seg_size w;
          w = w\<lparr>w_buf := drop n (w_buf w), w_pending := map_option (rebase_pending n) (w_pending w)\<rparr>;
          w = (if w_page_start w \<ge> n
               then w\<lparr>w_page_start := w_page_start w - n, w_page_data_start := w_page_data_start w - n,
                      w_page_cursor := w_page_cursor w - n\<rparr>
               else w\<lparr>w_page_start := 0, w_page_magic := 0, w_page_data_start := 0, w_page_cursor := 0\<rparr>)
      in w\<lparr>w_cursor := w_cursor w - n, w_done_in_segment := False\<rparr>)"

definition truncate_to :: "nat \<Rightarrow> walker \<Rightarrow> walker" where
  "truncate_to len w =
     (let w = w\<lparr>w_buf := take len (w_buf w), w_pending := None, w_cursor := min (w_cursor w) len,
                w_page_cursor := min (w_page_cursor w) len\<rparr>;
          w = (if w_page_start w > len
               then w\<lparr>w_page_start := 0, w_page_magic := 0, w_page_data_start := 0, w_page_cursor := 0\<rparr>
               else w)
      in w\<lparr>w_done_in_segment := False\<rparr>)"

fun scatter :: "byte_ranges \<Rightarrow> bytes \<Rightarrow> bytes \<Rightarrow> bytes" where
  "scatter [] new_logical buf = buf"
| "scatter ((off, len) # rs) new_logical buf =
     scatter rs (drop len new_logical) (put_range off (take len new_logical) buf)"

definition rewrite_record :: "byte_ranges \<Rightarrow> bytes \<Rightarrow> walker \<Rightarrow> walker" where
  "rewrite_record byte_ranges new_logical w = w\<lparr>w_buf := scatter byte_ranges new_logical (w_buf w)\<rparr>"

definition rewrite_record_in_place ::
  "nat \<Rightarrow> nat \<Rightarrow> (bytes \<Rightarrow> ('e, bytes) result) \<Rightarrow> walker \<Rightarrow> ('e, walker) result" where
  "rewrite_record_in_place off len rewrite w =
     rbind (rewrite (slice off (off + len) (w_buf w))) (\<lambda>new. Inr (w\<lparr>w_buf := put_range off new (w_buf w)\<rparr>))"

definition advance_to_next_page :: "wal_format \<Rightarrow> walker \<Rightarrow> walker" where
  "advance_to_next_page fmt w =
     (let page_start = w_page_start w + wf_page_size fmt
      in w\<lparr>w_page_start := page_start, w_page_magic := 0, w_page_data_start := 0, w_page_cursor := page_start\<rparr>)"

definition try_read_page_header :: "wal_format \<Rightarrow> walker \<Rightarrow> walker \<times> (walk_error, bool) result" where
  "try_read_page_header fmt w =
     (case parse_page_header fmt (w_buf w) (w_page_start w) of
        Inl e \<Rightarrow> (w, Inl e)
      | Inr ShortHeaderIncomplete \<Rightarrow> (w, Inr False)
      | Inr LongHeaderIncomplete \<Rightarrow> (w, Inr False)
      | Inr ZeroPage \<Rightarrow>
          (w\<lparr>w_done_in_segment := True, w_zero_stitch := (w_zero_stitch w \<or> w_pending w \<noteq> None)\<rparr>, Inr True)
      | Inr (ValidHeader magic data_start remaining_data_len) \<Rightarrow>
          let w = w\<lparr>w_page_magic := magic, w_page_data_start := data_start, w_page_cursor := data_start\<rparr>
          in if remaining_data_len > 0 \<and> w_pending w = None then
               let page_end = w_page_start w + wf_page_size fmt;
                   skip = min remaining_data_len (page_end - data_start);
                   w = w\<lparr>w_page_cursor := align_up (data_start + skip) (wf_align fmt)\<rparr>;
                   w = (if remaining_data_len \<ge> page_end - data_start then w\<lparr>w_page_cursor := page_end\<rparr> else w)
               in (w, Inr True)
             else (w, Inr True))"

definition all_zero :: "bytes \<Rightarrow> bool" where
  "all_zero bs = list_all (\<lambda>b. b = 0) bs"

definition try_read_record :: "wal_format \<Rightarrow> walker \<Rightarrow> walker \<times> (walk_error, completed_record option) result" where
  "try_read_record fmt w =
     (let page_end = w_page_start w + wf_page_size fmt;
          pc = align_up (w_page_cursor w) (wf_align fmt);
          w = w\<lparr>w_page_cursor := pc\<rparr>;
          buf = w_buf w
      in if pc \<ge> page_end then (w, Inr None)
         else
           let avail_on_page = page_end - pc;
               avail_in_buf = length buf - pc
           in if avail_in_buf = 0 then (w, Inr None)
              else if avail_on_page < wf_rec_header fmt then
                if avail_in_buf < avail_on_page then (w, Inr None)
                else
                  let chunk_end = pc + avail_on_page
                  in if all_zero (slice pc chunk_end buf) then (w\<lparr>w_done_in_segment := True\<rparr>, Inr None)
                     else
                       let chunk_len = chunk_end - pc
                       in (w\<lparr>w_pending := Some \<lparr>p_start_offset = pc, p_total_len = None, p_byte_ranges = [(pc, chunk_len)],
                              p_accumulated_len = chunk_len, p_page_magic = w_page_magic w\<rparr>,
                             w_page_cursor := page_end\<rparr>, Inr None)
              else if avail_in_buf < 4 then (w, Inr None)
              else
                let xl_tot_len = u32_at buf pc
                in if xl_tot_len = 0 then
                     let tail = min (page_end - pc) avail_in_buf
                     in if tail < page_end - pc then (w, Inr None)
                        else if all_zero (slice pc (pc + tail) buf) then (w\<lparr>w_done_in_segment := True\<rparr>, Inr None)
                        else (w, Inl (ZeroRecord pc))
                   else
                     let total_len = unat xl_tot_len
                     in if total_len < wf_rec_header fmt then (w, Inl (ShortRecord pc (wf_rec_header fmt)))
                        else
                          let take_this_page = min total_len avail_on_page
                          in if avail_in_buf < take_this_page then (w, Inr None)
                             else if take_this_page = total_len then
                               (w\<lparr>w_page_cursor := pc + take_this_page\<rparr>,
                                Inr (Some \<lparr>c_stitched_bytes = None, c_byte_ranges = [(pc, take_this_page)],
                                           c_start_offset = pc, c_page_magic = w_page_magic w\<rparr>))
                             else
                               (w\<lparr>w_pending := Some \<lparr>p_start_offset = pc, p_total_len = Some xl_tot_len,
                                    p_byte_ranges = [(pc, take_this_page)], p_accumulated_len = take_this_page,
                                    p_page_magic = w_page_magic w\<rparr>,
                                  w_page_cursor := page_end\<rparr>, Inr None))"

section \<open>The loop of try-next\<close>

text \<open>One iteration: the branch taken for a pending record of known length, for a pending
  record whose header is still incomplete, and for a fresh record. A result \<open>None\<close> is
  the source's \<open>continue\<close>.\<close>

definition pending_total_step :: "wal_format \<Rightarrow> walker \<Rightarrow> pending \<Rightarrow> u32 \<Rightarrow> walker \<times> walk_outcome option" where
  "pending_total_step fmt w p total_len =
     (if unat total_len < p_accumulated_len p then (w, Some Overflowed)
      else
        let remaining = unat total_len - p_accumulated_len p;
            page_end = w_page_start w + wf_page_size fmt;
            take_now = min (min remaining (page_end - w_page_cursor w)) (length (w_buf w) - w_page_cursor w);
            p = push_range (w_page_cursor w) take_now p;
            w = w\<lparr>w_page_cursor := w_page_cursor w + take_now\<rparr>
        in if fully_loaded p then (w\<lparr>w_pending := None\<rparr>, Some (Yield (complete_pending p (w_buf w))))
           else if w_page_cursor w \<ge> page_end then (advance_to_next_page fmt (w\<lparr>w_pending := Some p\<rparr>), None)
           else (w\<lparr>w_pending := Some p\<rparr>, Some NeedMore))"

definition pending_header_step :: "wal_format \<Rightarrow> walker \<Rightarrow> pending \<Rightarrow> walker \<times> walk_outcome option" where
  "pending_header_step fmt w p =
     (let needed = wf_rec_header fmt - p_accumulated_len p;
          page_end = w_page_start w + wf_page_size fmt;
          take_now = min (min needed (page_end - w_page_cursor w)) (length (w_buf w) - w_page_cursor w);
          p = (if take_now > 0
               then try_resolve_total_len fmt (w_buf w) (push_range (w_page_cursor w) take_now p) else p);
          w = w\<lparr>w_page_cursor := w_page_cursor w + take_now\<rparr>
      in if fully_loaded p then (w\<lparr>w_pending := None\<rparr>, Some (Yield (complete_pending p (w_buf w))))
         else if take_now = 0 then (w\<lparr>w_pending := Some p\<rparr>, Some NeedMore)
         else (w\<lparr>w_pending := Some p\<rparr>, None))"

definition fresh_step :: "wal_format \<Rightarrow> walker \<Rightarrow> walker \<times> walk_outcome option" where
  "fresh_step fmt w =
     (case try_read_record fmt w of
        (w, Inr (Some r)) \<Rightarrow> (w, Some (Yield r))
      | (w, Inr None) \<Rightarrow>
          if w_done_in_segment w then (w, Some NeedMore)
          else if w_page_cursor w \<ge> w_page_start w + wf_page_size fmt then (advance_to_next_page fmt w, None)
          else (w, Some NeedMore)
      | (w, Inl e) \<Rightarrow> (w\<lparr>w_done_in_segment := True\<rparr>, Some (Failed e)))"

definition record_step :: "wal_format \<Rightarrow> walker \<Rightarrow> walker \<times> walk_outcome option" where
  "record_step fmt w =
     (case w_pending w of
        Some p \<Rightarrow> (case p_total_len p of
           Some total_len \<Rightarrow> pending_total_step fmt w p total_len
         | None \<Rightarrow> pending_header_step fmt w p)
      | None \<Rightarrow> fresh_step fmt w)"

definition loop_body :: "wal_format \<Rightarrow> walker \<Rightarrow> walker \<times> walk_outcome option" where
  "loop_body fmt w =
     (if w_page_magic w = 0 then
        (case try_read_page_header fmt w of
           (w, Inr True) \<Rightarrow> record_step fmt w
         | (w, Inr False) \<Rightarrow> (w, Some NeedMore)
         | (w, Inl e) \<Rightarrow> (w\<lparr>w_done_in_segment := True\<rparr>, Some (Failed e)))
      else record_step fmt w)"

partial_function (option) walk_loop :: "wal_format \<Rightarrow> walker \<Rightarrow> (walker \<times> walk_outcome) option" where
  "walk_loop fmt w =
     (case loop_body fmt w of
        (w', Some out) \<Rightarrow> Some (w', out)
      | (w', None) \<Rightarrow> walk_loop fmt w')"

declare walk_loop.simps [code]

definition try_next :: "wal_format \<Rightarrow> walker \<Rightarrow> (walker \<times> walk_outcome) option" where
  "try_next fmt w = (if w_done_in_segment w then Some (w, NeedMore) else walk_loop fmt w)"

section \<open>The loop returns\<close>

text \<open>Pages still ahead, counted twice plus one for a page that was entered beyond the buffer,
  and then the header bytes a pending record still lacks.\<close>

definition pages_ahead :: "walker \<Rightarrow> nat" where
  "pages_ahead w =
     2 * (length (w_buf w) - w_page_start w) + (if w_page_magic w \<noteq> 0 \<and> length (w_buf w) \<le> w_page_start w then 1 else 0)"

definition header_ahead :: "wal_format \<Rightarrow> walker \<Rightarrow> nat" where
  "header_ahead fmt w =
     (case w_pending w of
        Some p \<Rightarrow> if p_total_len p = None then Suc (wf_rec_header fmt - p_accumulated_len p) else 0
      | None \<Rightarrow> 0)"

lemma header_read_frame:
  assumes "try_read_page_header fmt w = (w1, r)"
  shows "w_buf w1 = w_buf w" "w_page_start w1 = w_page_start w" "w_pending w1 = w_pending w"
    "w_seg_size w1 = w_seg_size w"
    "r = Inr True \<Longrightarrow> w_page_start w < length (w_buf w)"
  using assms
  by (auto simp: try_read_page_header_def Let_def parse_page_header_def SHORT_HEADER_SIZE_def
      split: sum.splits page_header.splits if_splits)

lemma read_record_frame:
  assumes "try_read_record fmt w = (w1, r)"
  shows "w_buf w1 = w_buf w" "w_page_start w1 = w_page_start w" "w_page_magic w1 = w_page_magic w"
    "w_seg_size w1 = w_seg_size w" "w_zero_stitch w1 = w_zero_stitch w" "w_page_data_start w1 = w_page_data_start w"
  using assms by (auto simp: try_read_record_def Let_def split: if_splits)

lemma advance_fields [simp]:
  "w_buf (advance_to_next_page fmt w) = w_buf w" "w_pending (advance_to_next_page fmt w) = w_pending w"
  "w_page_start (advance_to_next_page fmt w) = w_page_start w + wf_page_size fmt"
  "w_page_magic (advance_to_next_page fmt w) = 0"
  "w_page_cursor (advance_to_next_page fmt w) = w_page_start w + wf_page_size fmt"
  "w_seg_size (advance_to_next_page fmt w) = w_seg_size w"
  "w_zero_stitch (advance_to_next_page fmt w) = w_zero_stitch w"
  "w_done_in_segment (advance_to_next_page fmt w) = w_done_in_segment w"
  by (simp_all add: advance_to_next_page_def Let_def)

lemma push_range_fields [simp]:
  "p_total_len (push_range a n p) = p_total_len p" "p_start_offset (push_range a n p) = p_start_offset p"
  "p_accumulated_len (push_range a n p) = p_accumulated_len p + n"
  by (simp_all add: push_range_def)

lemma resolve_fields [simp]:
  "p_start_offset (try_resolve_total_len fmt buf p) = p_start_offset p"
  "p_accumulated_len (try_resolve_total_len fmt buf p) = p_accumulated_len p"
  "p_byte_ranges (try_resolve_total_len fmt buf p) = p_byte_ranges p"
  by (simp_all add: try_resolve_total_len_def Let_def)

lemma pending_total_next:
  assumes "pending_total_step fmt w p t = (w', None)"
  shows "w_buf w' = w_buf w" "w_page_start w' = w_page_start w + wf_page_size fmt" "w_page_magic w' = 0"
  using assms by (auto simp: pending_total_step_def Let_def split: if_split_asm)

lemma pending_header_next:
  assumes "pending_header_step fmt w p = (w', None)" "w_pending w = Some p" "p_total_len p = None"
  shows "w_buf w' = w_buf w" "w_page_start w' = w_page_start w" "w_page_magic w' = w_page_magic w"
    "header_ahead fmt w' < header_ahead fmt w"
proof -
  define n where "n = min (min (wf_rec_header fmt - p_accumulated_len p) (w_page_start w + wf_page_size fmt - w_page_cursor w))
     (length (w_buf w) - w_page_cursor w)"
  define q where "q = try_resolve_total_len fmt (w_buf w) (push_range (w_page_cursor w) n p)"
  have n: "0 < n" and w': "w' = w\<lparr>w_page_cursor := w_page_cursor w + n, w_pending := Some q\<rparr>"
    using assms(1) by (auto simp: pending_header_step_def Let_def n_def [symmetric] q_def split: if_split_asm)
  then show "w_buf w' = w_buf w" "w_page_start w' = w_page_start w" "w_page_magic w' = w_page_magic w" by simp_all
  have "n \<le> wf_rec_header fmt - p_accumulated_len p" by (simp add: n_def)
  with n have "wf_rec_header fmt - (p_accumulated_len p + n) < wf_rec_header fmt - p_accumulated_len p" by linarith
  then show "header_ahead fmt w' < header_ahead fmt w"
    using n by (simp add: header_ahead_def w' assms(2,3) q_def)
qed

lemma record_step_decreases:
  assumes "record_step fmt w = (w', None)" "0 < wf_page_size fmt"
  shows "w_buf w' = w_buf w \<and>
    ((w_page_start w' = w_page_start w + wf_page_size fmt \<and> w_page_magic w' = 0) \<or>
     (w_page_start w' = w_page_start w \<and> w_page_magic w' = w_page_magic w \<and> header_ahead fmt w' < header_ahead fmt w))"
proof (cases "w_pending w")
  case None
  obtain w1 r where r: "try_read_record fmt w = (w1, r)" by fastforce
  with assms(1) None have "w' = advance_to_next_page fmt w1"
    by (simp add: record_step_def fresh_step_def split: sum.splits option.splits if_splits)
  then show ?thesis using read_record_frame [OF r] by simp
next
  case (Some p)
  show ?thesis
  proof (cases "p_total_len p")
    case None
    with assms(1) Some have "pending_header_step fmt w p = (w', None)" by (simp add: record_step_def)
    from pending_header_next [OF this Some None] show ?thesis by simp
  next
    case t: (Some t)
    with assms(1) Some have "pending_total_step fmt w p t = (w', None)" by (simp add: record_step_def)
    from pending_total_next [OF this] show ?thesis by simp
  qed
qed

lemma loop_body_decreases:
  assumes "loop_body fmt w = (w', None)" "0 < wf_page_size fmt"
  shows "pages_ahead w' < pages_ahead w \<or> (pages_ahead w' = pages_ahead w \<and> header_ahead fmt w' < header_ahead fmt w)"
proof (cases "w_page_magic w = 0")
  case True
  with assms(1) obtain w1 where h: "try_read_page_header fmt w = (w1, Inr True)" and r: "record_step fmt w1 = (w', None)"
    by (auto simp: loop_body_def split: prod.splits sum.splits bool.splits)
  note f = header_read_frame [OF h]
  have "header_ahead fmt w1 = header_ahead fmt w" by (simp add: header_ahead_def f)
  with record_step_decreases [OF r assms(2)] True f(1,2,5) assms(2) show ?thesis
    by (auto simp: pages_ahead_def)
next
  case False
  then have "record_step fmt w = (w', None)" using assms(1) by (simp add: loop_body_def)
  from record_step_decreases [OF this assms(2)] False assms(2) show ?thesis
    by (auto simp: pages_ahead_def)
qed

lemma walk_loop_returns:
  assumes "0 < wf_page_size fmt"
  shows "\<exists>r. walk_loop fmt w = Some r"
proof (induction w rule: wf_induct [OF wf_measures [of "[pages_ahead, header_ahead fmt]"]])
  case (1 w)
  obtain w' o' where b: "loop_body fmt w = (w', o')" by fastforce
  show ?case
  proof (cases o')
    case None
    then have "(w', w) \<in> measures [pages_ahead, header_ahead fmt]"
      using loop_body_decreases [of fmt w w'] b assms by auto
    then obtain r where "walk_loop fmt w' = Some r" using 1 by blast
    then show ?thesis by (subst walk_loop.simps) (simp add: b None)
  next
    case (Some out)
    then show ?thesis by (subst walk_loop.simps) (simp add: b)
  qed
qed

end
