(* ===== verification/Walker_Layout.thy ===== *)
theory Walker_Layout
  imports WAL_Walker
begin

text \<open>
  What the walker guarantees: the layout of pending and completed records on the buffer, the
  well-formedness invariant \<open>walker_ok\<close> that every operation keeps, and the lemmas about
  rewriting, extending and truncating the buffer.
\<close>

section \<open>Positions of a record\<close>

text \<open>The buffer positions that a list of ranges covers, in order, and the positions of the
  buffer that carry record data: those at or after the data start of a page with a valid
  header.\<close>

definition positions :: "byte_ranges \<Rightarrow> nat list" where
  "positions rs = concat (map (\<lambda>(off, len). [off..<off + len]) rs)"

definition data_pos :: "wal_format \<Rightarrow> bytes \<Rightarrow> nat \<Rightarrow> bool" where
  "data_pos fmt buf x =
     (case parse_page_header fmt buf (x - x mod wf_page_size fmt) of
        Inr (ValidHeader magic data_start rem) \<Rightarrow> data_start \<le> x
      | _ \<Rightarrow> False)"

definition valid_page :: "wal_format \<Rightarrow> bytes \<Rightarrow> nat \<Rightarrow> bool" where
  "valid_page fmt buf x =
     (case parse_page_header fmt buf (x - x mod wf_page_size fmt) of
        Inr (ValidHeader magic data_start rem) \<Rightarrow> True
      | _ \<Rightarrow> False)"

lemma positions_simps [simp]:
  "positions [] = []" "positions ((off, len) # rs) = [off..<off + len] @ positions rs"
  "positions (rs @ qs) = positions rs @ positions qs"
  by (simp_all add: positions_def)

lemma slice_map_nth: "off + len \<le> length buf \<Longrightarrow> slice off (off + len) buf = map ((!) buf) [off..<off + len]"
  by (rule nth_equalityI) (simp_all add: nth_slice)

lemma range_in_bounds: "list_all (\<lambda>x. x < b) [off..<off + len] \<Longrightarrow> len = 0 \<or> off + len \<le> b"
  by (cases len) (auto simp: list_all_iff)

lemma gather_positions:
  "list_all (\<lambda>x. x < length buf) (positions rs) \<Longrightarrow> gather buf rs = map ((!) buf) (positions rs)"
proof (induction buf rs rule: gather.induct)
  case (2 buf off len rs)
  then have "len = 0 \<or> off + len \<le> length buf" by (simp add: range_in_bounds)
  then have "slice off (off + len) buf = map ((!) buf) [off..<off + len]"
    by (auto simp: slice_map_nth) (simp add: slice_def)
  with 2 show ?case by simp
qed simp

lemma header_bytes_gather:
  "list_all (\<lambda>x. x < length buf) (positions rs) \<Longrightarrow> length hdr \<le> 4 \<Longrightarrow>
   header_bytes buf rs hdr = hdr @ take (4 - length hdr) (gather buf rs)"
proof (induction buf rs hdr rule: header_bytes.induct)
  case (2 buf off len rs hdr)
  let ?n = "min (4 - length hdr) len"
  have "len = 0 \<or> off + len \<le> length buf" using 2(2) by (simp add: range_in_bounds)
  then have len: "length (slice off (off + ?n) buf) = ?n" "length (slice off (off + len) buf) = len"
    and "slice off (off + ?n) buf = take (4 - length hdr) (slice off (off + len) buf)"
    by (auto simp: slice_def min_def)
  moreover have "4 - (length hdr + ?n) = 4 - (length hdr + len)" "length hdr + ?n \<le> 4"
    using 2(3) by (auto simp: min_def)
  ultimately show ?case using 2 by auto
qed simp

lemma page_base:
  assumes "ps mod PS = 0" "ps \<le> x" "x < ps + PS"
  shows "x - x mod PS = (ps :: nat)"
proof -
  obtain q where q: "ps = PS * q" using assms(1) by auto
  then obtain r where r: "x = PS * q + r" "r < PS"
    using assms(2,3) by (metis le_iff_add nat_add_left_cancel_less)
  then show ?thesis using q by simp
qed

text \<open>A record is laid out on the buffer without a gap: it crosses pages with valid headers only,
  and its positions are all data positions from its first byte to the page cursor.\<close>

definition laid_out :: "wal_format \<Rightarrow> bytes \<Rightarrow> nat \<Rightarrow> nat \<Rightarrow> byte_ranges \<Rightarrow> bool" where
  "laid_out fmt buf start stop rs \<longleftrightarrow>
     list_all (valid_page fmt buf) [start..<stop] \<and>
     positions rs = filter (data_pos fmt buf) [start..<stop] \<and>
     list_all (\<lambda>x. x < length buf) (positions rs) \<and>
     positions rs \<noteq> [] \<and> hd (positions rs) = start"

definition pending_ok :: "wal_format \<Rightarrow> bytes \<Rightarrow> nat \<Rightarrow> nat \<Rightarrow> pending \<Rightarrow> bool" where
  "pending_ok fmt buf page_start stop p \<longleftrightarrow>
     p_start_offset p < page_start \<and> p_start_offset p mod wf_align fmt = 0 \<and>
     laid_out fmt buf (p_start_offset p) stop (p_byte_ranges p) \<and>
     p_accumulated_len p = length (positions (p_byte_ranges p)) \<and>
     list_all (\<lambda>r. 0 < snd r) (p_byte_ranges p) \<and>
     (case p_total_len p of
        None \<Rightarrow> p_accumulated_len p < wf_rec_header fmt
      | Some t \<Rightarrow> wf_rec_header fmt \<le> p_accumulated_len p \<and>
          t = word_of_nat (le_nat (take 4 (gather buf (p_byte_ranges p)))))"

definition page_ok :: "wal_format \<Rightarrow> walker \<Rightarrow> bool" where
  "page_ok fmt w \<longleftrightarrow>
     w_page_start w mod wf_page_size fmt = 0 \<and> w_page_start w \<le> w_page_cursor w \<and>
     w_page_cursor w \<le> w_page_start w + wf_page_size fmt \<and>
     (if w_page_magic w = 0 then w_page_cursor w = w_page_start w
      else w_page_data_start w \<le> w_page_cursor w \<and>
        (\<exists>rem. parse_page_header fmt (w_buf w) (w_page_start w) =
           Inr (ValidHeader (w_page_magic w) (w_page_data_start w) rem)))"

definition walker_ok :: "wal_format \<Rightarrow> walker \<Rightarrow> bool" where
  "walker_ok fmt w \<longleftrightarrow>
     page_ok fmt w \<and>
     (case w_pending w of None \<Rightarrow> True | Some p \<Rightarrow> pending_ok fmt (w_buf w) (w_page_start w) (w_page_cursor w) p)"

definition record_ok :: "wal_format \<Rightarrow> bytes \<Rightarrow> nat \<Rightarrow> completed_record \<Rightarrow> bool" where
  "record_ok fmt buf stop c \<longleftrightarrow>
     c_start_offset c mod wf_align fmt = 0 \<and> list_all (\<lambda>r. 0 < snd r) (c_byte_ranges c) \<and>
     (c_stitched_bytes c = None \<longrightarrow> length (c_byte_ranges c) = 1) \<and>
     laid_out fmt buf (c_start_offset c) stop (c_byte_ranges c) \<and>
     logical_bytes c buf = map ((!) buf) (positions (c_byte_ranges c)) \<and>
     wf_rec_header fmt \<le> length (positions (c_byte_ranges c)) \<and>
     length (positions (c_byte_ranges c)) = le_nat (take 4 (logical_bytes c buf))"

definition frontier :: "walker \<Rightarrow> nat" where
  "frontier w = (case w_pending w of None \<Rightarrow> w_page_cursor w | Some p \<Rightarrow> p_start_offset p)"

lemma page_ok_data:
  assumes "page_ok fmt w" "w_page_magic w \<noteq> 0" "w_page_cursor w \<le> x" "x < w_page_start w + wf_page_size fmt"
  shows "data_pos fmt (w_buf w) x" "valid_page fmt (w_buf w) x"
proof -
  have "x - x mod wf_page_size fmt = w_page_start w"
    using assms by (intro page_base) (auto simp: page_ok_def)
  then show "data_pos fmt (w_buf w) x" "valid_page fmt (w_buf w) x"
    using assms by (auto simp: data_pos_def valid_page_def page_ok_def)
qed

lemma filter_all_upt: "(\<And>x. a \<le> x \<Longrightarrow> x < b \<Longrightarrow> P x) \<Longrightarrow> filter P [a..<b] = [a..<b]"
  by (simp add: filter_id_conv)

lemma filter_none_upt: "(\<And>x. a \<le> x \<Longrightarrow> x < b \<Longrightarrow> \<not> P x) \<Longrightarrow> filter P [a..<b] = []"
  by (simp add: filter_empty_conv)

lemma upt_split: "a \<le> b \<Longrightarrow> b \<le> c \<Longrightarrow> [a..<c] = [a..<b] @ [b..<c]"
  by (metis le_Suc_ex upt_add_eq_append)

section \<open>Every iteration keeps the walker well formed\<close>

lemma laid_out_grow:
  assumes "page_ok fmt w" "w_page_magic w \<noteq> 0" "laid_out fmt (w_buf w) start (w_page_cursor w) rs"
    "n \<le> w_page_start w + wf_page_size fmt - w_page_cursor w" "n \<le> length (w_buf w) - w_page_cursor w"
    "start \<le> w_page_cursor w"
  shows "laid_out fmt (w_buf w) start (w_page_cursor w + n) (rs @ [(w_page_cursor w, n)])"
proof -
  let ?a = "w_page_cursor w" and ?b = "w_page_cursor w + n"
  have "filter (data_pos fmt (w_buf w)) [?a..<?b] = [?a..<?b]"
    using assms(4) by (intro filter_all_upt page_ok_data(1) [OF assms(1,2)]) auto
  moreover have "list_all (valid_page fmt (w_buf w)) [?a..<?b]"
    using assms(4) page_ok_data(2) [OF assms(1,2)] by (auto simp: list_all_iff)
  moreover have "[start..<?b] = [start..<?a] @ [?a..<?b]" using assms(6) by (intro upt_split) auto
  moreover have "list_all (\<lambda>x. x < length (w_buf w)) [?a..<?b]" using assms(5) by (auto simp: list_all_iff)
  ultimately show ?thesis using assms(3) by (auto simp: laid_out_def)
qed

lemma laid_out_fresh:
  assumes "page_ok fmt w" "w_page_magic w \<noteq> 0" "w_page_cursor w \<le> start" "0 < n"
    "start + n \<le> w_page_start w + wf_page_size fmt" "start + n \<le> length (w_buf w)"
  shows "laid_out fmt (w_buf w) start (start + n) [(start, n)]"
proof -
  have "filter (data_pos fmt (w_buf w)) [start..<start + n] = [start..<start + n]"
    using assms(3,5) by (intro filter_all_upt page_ok_data(1) [OF assms(1,2)]) auto
  moreover have "list_all (valid_page fmt (w_buf w)) [start..<start + n]"
    using assms(3,5) page_ok_data(2) [OF assms(1,2)] by (auto simp: list_all_iff)
  ultimately show ?thesis using assms(4,6) by (auto simp: laid_out_def list_all_iff)
qed

lemma push_range_ranges:
  "positions (p_byte_ranges (push_range a n p)) = positions (p_byte_ranges p) @ [a..<a + n]"
  by (auto simp: push_range_def)

lemma laid_out_positions:
  "positions rs = positions qs \<Longrightarrow> laid_out fmt buf a b rs = laid_out fmt buf a b qs"
  by (simp add: laid_out_def)

lemma gather_append: "gather buf (rs @ qs) = gather buf rs @ gather buf qs"
  by (induction buf rs rule: gather.induct) simp_all

lemma length_gather:
  "list_all (\<lambda>x. x < length buf) (positions rs) \<Longrightarrow> length (gather buf rs) = length (positions rs)"
  by (simp add: gather_positions)

lemma take_gather_push:
  assumes "4 \<le> p_accumulated_len p" "p_accumulated_len p = length (positions (p_byte_ranges p))"
    "list_all (\<lambda>x. x < length buf) (positions (p_byte_ranges p))"
  shows "take 4 (gather buf (p_byte_ranges (push_range a n p))) = take 4 (gather buf (p_byte_ranges p))"
  using assms by (simp add: push_range_def gather_append length_gather)

lemma unat_header_word:
  "length bs = 4 \<Longrightarrow> unat (word_of_nat (le_nat bs) :: u32) = le_nat bs"
  using le_nat_lt [of bs] by (simp add: unsigned_of_nat take_bit_nat_eq_self)

lemma complete_pending_ok:
  assumes "format_ok fmt" "pending_ok fmt buf ps stop p" "fully_loaded p"
  shows "record_ok fmt buf stop (complete_pending p buf)"
proof -
  obtain t where t: "p_total_len p = Some t" "p_accumulated_len p = unat t"
    using assms(3) by (auto simp: fully_loaded_def split: option.splits)
  let ?rs = "p_byte_ranges p"
  have in_buf: "list_all (\<lambda>x. x < length buf) (positions ?rs)" and rh: "4 \<le> length (positions ?rs)"
    using assms(1,2) t by (auto simp: pending_ok_def laid_out_def format_ok_def)
  have "length (take 4 (gather buf ?rs)) = 4" using rh by (simp add: length_gather [OF in_buf])
  then have "unat t = le_nat (take 4 (gather buf ?rs))"
    using assms(2) t by (simp add: pending_ok_def unat_header_word)
  then show ?thesis
    using assms(2) t in_buf
    by (simp add: record_ok_def complete_pending_def logical_bytes_def materialise_def pending_ok_def gather_positions)
qed

lemma pending_ok_push:
  assumes "page_ok fmt w" "w_page_magic w \<noteq> 0" "pending_ok fmt (w_buf w) (w_page_start w) (w_page_cursor w) p"
    "n \<le> w_page_start w + wf_page_size fmt - w_page_cursor w" "n \<le> length (w_buf w) - w_page_cursor w"
  shows "laid_out fmt (w_buf w) (p_start_offset p) (w_page_cursor w + n) (p_byte_ranges (push_range (w_page_cursor w) n p))"
proof -
  have "p_start_offset p \<le> w_page_cursor w" "laid_out fmt (w_buf w) (p_start_offset p) (w_page_cursor w) (p_byte_ranges p)"
    using assms(1,3) by (simp_all add: pending_ok_def page_ok_def)
  then have "laid_out fmt (w_buf w) (p_start_offset p) (w_page_cursor w + n) (p_byte_ranges p @ [(w_page_cursor w, n)])"
    using laid_out_grow [OF assms(1,2) _ assms(4,5)] by blast
  then show ?thesis by (subst laid_out_positions [of _ "p_byte_ranges p @ [(w_page_cursor w, n)]"]) (simp_all add: push_range_ranges)
qed

lemma pending_ok_grow:
  assumes "format_ok fmt" "page_ok fmt w" "w_page_magic w \<noteq> 0"
    "pending_ok fmt (w_buf w) (w_page_start w) (w_page_cursor w) p" "p_total_len p = Some t"
    "n \<le> w_page_start w + wf_page_size fmt - w_page_cursor w" "n \<le> length (w_buf w) - w_page_cursor w"
  shows "pending_ok fmt (w_buf w) (w_page_start w) (w_page_cursor w + n) (push_range (w_page_cursor w) n p)"
proof -
  have "laid_out fmt (w_buf w) (p_start_offset p) (w_page_cursor w + n) (p_byte_ranges (push_range (w_page_cursor w) n p))"
    by (rule pending_ok_push [OF assms(2,3,4,6,7)])
  moreover have "take 4 (gather (w_buf w) (p_byte_ranges (push_range (w_page_cursor w) n p))) = take 4 (gather (w_buf w) (p_byte_ranges p))"
    using assms(1,4,5) by (intro take_gather_push) (auto simp: pending_ok_def format_ok_def laid_out_def)
  moreover have "list_all (\<lambda>r. 0 < snd r) (p_byte_ranges (push_range (w_page_cursor w) n p))"
    using assms(4) by (simp add: pending_ok_def push_range_def)
  ultimately show ?thesis using assms(4,5) by (simp add: pending_ok_def push_range_ranges)
qed

lemma pending_ok_resolve:
  assumes "format_ok fmt" "page_ok fmt w" "w_page_magic w \<noteq> 0"
    "pending_ok fmt (w_buf w) (w_page_start w) (w_page_cursor w) p" "p_total_len p = None"
    "n \<le> w_page_start w + wf_page_size fmt - w_page_cursor w" "n \<le> length (w_buf w) - w_page_cursor w"
  shows "pending_ok fmt (w_buf w) (w_page_start w) (w_page_cursor w + n)
    (try_resolve_total_len fmt (w_buf w) (push_range (w_page_cursor w) n p))"
proof -
  let ?q = "push_range (w_page_cursor w) n p"
  have lay: "laid_out fmt (w_buf w) (p_start_offset p) (w_page_cursor w + n) (p_byte_ranges ?q)"
    by (rule pending_ok_push [OF assms(2,3,4,6,7)])
  then have in_buf: "list_all (\<lambda>x. x < length (w_buf w)) (positions (p_byte_ranges ?q))" unfolding laid_out_def by blast
  have acc: "p_accumulated_len ?q = length (positions (p_byte_ranges ?q))"
    using assms(4) by (simp add: pending_ok_def push_range_ranges)
  have hdr: "header_bytes (w_buf w) (p_byte_ranges ?q) [] = take 4 (gather (w_buf w) (p_byte_ranges ?q))"
    using header_bytes_gather [OF in_buf, of "[]"] by simp
  have "4 \<le> wf_rec_header fmt" using assms(1) by (simp add: format_ok_def)
  then have "wf_rec_header fmt \<le> p_accumulated_len ?q \<Longrightarrow> length (take 4 (gather (w_buf w) (p_byte_ranges ?q))) = 4"
    using acc by (simp add: length_gather [OF in_buf])
  moreover have "list_all (\<lambda>r. 0 < snd r) (p_byte_ranges ?q)" using assms(4) by (simp add: pending_ok_def push_range_def)
  ultimately show ?thesis
    using assms(4,5) lay acc
    by (simp add: pending_ok_def try_resolve_total_len_def Let_def hdr not_less)
qed

text \<open>What one iteration, and then a whole call, leaves: the buffer untouched, the walker well
  formed, the frontier not moved back, and a yielded record laid out at or after the old
  frontier and before the new one.\<close>

definition step_ok :: "wal_format \<Rightarrow> walker \<Rightarrow> walker \<Rightarrow> walk_outcome option \<Rightarrow> bool" where
  "step_ok fmt w w' out \<longleftrightarrow>
     w_buf w' = w_buf w \<and> w_seg_size w' = w_seg_size w \<and> walker_ok fmt w' \<and> frontier w \<le> frontier w' \<and>
     (case out of
        Some (Yield c) \<Rightarrow> record_ok fmt (w_buf w) (w_page_cursor w') c \<and> frontier w \<le> c_start_offset c \<and> w_pending w' = None
      | None \<Rightarrow> w_done_in_segment w' = w_done_in_segment w
      | _ \<Rightarrow> True)"

lemma page_ok_cursor:
  assumes "page_ok fmt w" "w_page_magic w \<noteq> 0" "w_page_cursor w \<le> pc" "pc \<le> w_page_start w + wf_page_size fmt"
  shows "page_ok fmt (w\<lparr>w_page_cursor := pc\<rparr>)"
  using assms by (auto simp: page_ok_def)

lemma page_ok_advance:
  assumes "page_ok fmt w"
  shows "page_ok fmt (advance_to_next_page fmt w)"
  using assms by (simp add: page_ok_def advance_to_next_page_def Let_def)

lemma page_ok_frame:
  "page_ok fmt (w\<lparr>w_pending := x\<rparr>) = page_ok fmt w" "page_ok fmt (w\<lparr>w_done_in_segment := d\<rparr>) = page_ok fmt w"
  "page_ok fmt (w\<lparr>w_zero_stitch := z\<rparr>) = page_ok fmt w"
  by (simp_all add: page_ok_def)

lemma pending_ok_later:
  "pending_ok fmt buf ps stop p \<Longrightarrow> ps \<le> ps' \<Longrightarrow> pending_ok fmt buf ps' stop p"
  by (simp add: pending_ok_def)

lemma pending_total_ok:
  assumes "format_ok fmt" "walker_ok fmt w" "w_page_magic w \<noteq> 0" "w_pending w = Some p" "p_total_len p = Some t"
    "pending_total_step fmt w p t = (w', out)"
  shows "step_ok fmt w w' out"
proof -
  let ?pe = "w_page_start w + wf_page_size fmt"
  define n where "n = min (min (unat t - p_accumulated_len p) (?pe - w_page_cursor w)) (length (w_buf w) - w_page_cursor w)"
  define q where "q = push_range (w_page_cursor w) n p"
  define w1 where "w1 = w\<lparr>w_page_cursor := w_page_cursor w + n\<rparr>"
  have pg: "page_ok fmt w" and pd: "pending_ok fmt (w_buf w) (w_page_start w) (w_page_cursor w) p"
    using assms(2,4) by (simp_all add: walker_ok_def)
  have n: "n \<le> ?pe - w_page_cursor w" "n \<le> length (w_buf w) - w_page_cursor w" by (simp_all add: n_def)
  have q: "pending_ok fmt (w_buf w) (w_page_start w) (w_page_cursor w + n) q"
    unfolding q_def using pending_ok_grow [OF assms(1) pg assms(3) pd assms(5) n] .
  have pg1: "page_ok fmt w1" unfolding w1_def
    using n(1) pg by (intro page_ok_cursor [OF pg assms(3)]) (auto simp: page_ok_def)
  have start: "p_start_offset q = p_start_offset p" by (simp add: q_def)
  have le: "p_start_offset p \<le> w_page_cursor w + n" using pd pg by (simp add: pending_ok_def page_ok_def)
  consider (over) "w' = w" "out = Some Overflowed"
    | (yield) "fully_loaded q" "w' = w1\<lparr>w_pending := None\<rparr>" "out = Some (Yield (complete_pending q (w_buf w)))"
    | (page) "?pe \<le> w_page_cursor w1" "w' = advance_to_next_page fmt (w1\<lparr>w_pending := Some q\<rparr>)" "out = None"
    | (more) "w' = w1\<lparr>w_pending := Some q\<rparr>" "out = Some NeedMore"
    using assms(6)
    by (auto simp: pending_total_step_def Let_def n_def [symmetric] q_def [symmetric] w1_def [symmetric] split: if_split_asm)
       (auto simp: w1_def)
  then show ?thesis
  proof cases
    case over
    then show ?thesis using assms(2) by (simp add: step_ok_def)
  next
    case yield
    have "record_ok fmt (w_buf w) (w_page_cursor w + n) (complete_pending q (w_buf w))"
      by (rule complete_pending_ok [OF assms(1) q yield(1)])
    then show ?thesis using yield pg1 le assms(4)
      by (simp add: step_ok_def walker_ok_def page_ok_frame frontier_def complete_pending_def start) (simp add: w1_def)
  next
    case page
    have "w_page_cursor w + n = ?pe" using page(1) pg1 by (simp add: w1_def page_ok_def)
    moreover have "page_ok fmt w'" unfolding page(2) by (rule page_ok_advance) (simp add: page_ok_frame pg1)
    ultimately show ?thesis using page q assms(4) pending_ok_later [OF q, of ?pe]
      by (simp add: step_ok_def walker_ok_def frontier_def start) (simp add: w1_def)
  next
    case more
    then show ?thesis using q pg1 assms(4)
      by (simp add: step_ok_def walker_ok_def page_ok_frame frontier_def start) (simp add: w1_def)
  qed
qed

lemma pending_header_ok:
  assumes "format_ok fmt" "walker_ok fmt w" "w_page_magic w \<noteq> 0" "w_pending w = Some p" "p_total_len p = None"
    "pending_header_step fmt w p = (w', out)"
  shows "step_ok fmt w w' out"
proof -
  let ?pe = "w_page_start w + wf_page_size fmt"
  define n where "n = min (min (wf_rec_header fmt - p_accumulated_len p) (?pe - w_page_cursor w)) (length (w_buf w) - w_page_cursor w)"
  define q where "q = (if n > 0 then try_resolve_total_len fmt (w_buf w) (push_range (w_page_cursor w) n p) else p)"
  define w1 where "w1 = w\<lparr>w_page_cursor := w_page_cursor w + n\<rparr>"
  have pg: "page_ok fmt w" and pd: "pending_ok fmt (w_buf w) (w_page_start w) (w_page_cursor w) p"
    using assms(2,4) by (simp_all add: walker_ok_def)
  have n: "n \<le> ?pe - w_page_cursor w" "n \<le> length (w_buf w) - w_page_cursor w" by (simp_all add: n_def)
  have q: "pending_ok fmt (w_buf w) (w_page_start w) (w_page_cursor w + n) q"
    unfolding q_def using pending_ok_resolve [OF assms(1) pg assms(3) pd assms(5) n] pd by simp
  have pg1: "page_ok fmt w1" unfolding w1_def
    using n(1) pg by (intro page_ok_cursor [OF pg assms(3)]) (auto simp: page_ok_def)
  have start: "p_start_offset q = p_start_offset p" by (simp add: q_def)
  have le: "p_start_offset p \<le> w_page_cursor w + n" using pd pg by (simp add: pending_ok_def page_ok_def)
  have step: "pending_header_step fmt w p =
    (if fully_loaded q then (w1\<lparr>w_pending := None\<rparr>, Some (Yield (complete_pending q (w_buf w1))))
     else if n = 0 then (w1\<lparr>w_pending := Some q\<rparr>, Some NeedMore)
     else (w1\<lparr>w_pending := Some q\<rparr>, None))"
    unfolding pending_header_step_def Let_def n_def q_def w1_def by (rule refl)
  consider (yield) "fully_loaded q" "w' = w1\<lparr>w_pending := None\<rparr>" "out = Some (Yield (complete_pending q (w_buf w)))"
    | (more) "w' = w1\<lparr>w_pending := Some q\<rparr>" "out = Some NeedMore \<or> out = None"
    using assms(6) unfolding step by (auto simp: w1_def split: if_split_asm)
  then show ?thesis
  proof cases
    case yield
    have "record_ok fmt (w_buf w) (w_page_cursor w + n) (complete_pending q (w_buf w))"
      by (rule complete_pending_ok [OF assms(1) q yield(1)])
    then show ?thesis using yield pg1 le assms(4)
      by (simp add: step_ok_def walker_ok_def page_ok_frame frontier_def complete_pending_def start) (simp add: w1_def)
  next
    case more
    then show ?thesis using q pg1 assms(4)
      by (auto simp: step_ok_def walker_ok_def page_ok_frame frontier_def start) (simp_all add: w1_def)
  qed
qed

lemma cursor_frame:
  "w_buf (w\<lparr>w_page_cursor := x\<rparr>) = w_buf w" "w_page_magic (w\<lparr>w_page_cursor := x\<rparr>) = w_page_magic w"
  by simp_all

lemma read_record_cases:
  fixes fmt w
  defines "pc \<equiv> align_up (w_page_cursor w) (wf_align fmt)" and "page_end \<equiv> w_page_start w + wf_page_size fmt"
  assumes "try_read_record fmt w = (w1, r)"
  obtains
    (none) d where "w1 = w\<lparr>w_page_cursor := pc, w_done_in_segment := d\<rparr>" "r = Inr None"
  | (error) e where "w1 = w\<lparr>w_page_cursor := pc\<rparr>" "r = Inl e"
  | (header) "pc < page_end" "page_end \<le> length (w_buf w)" "page_end - pc < wf_rec_header fmt" "r = Inr None"
      "w1 = w\<lparr>w_pending := Some \<lparr>p_start_offset = pc, p_total_len = None, p_byte_ranges = [(pc, page_end - pc)],
         p_accumulated_len = page_end - pc, p_page_magic = w_page_magic w\<rparr>, w_page_cursor := page_end\<rparr>"
  | (spans) "pc < page_end" "page_end \<le> length (w_buf w)" "wf_rec_header fmt \<le> page_end - pc" "r = Inr None"
      "u32_at (w_buf w) pc \<noteq> 0"
      "w1 = w\<lparr>w_pending := Some \<lparr>p_start_offset = pc, p_total_len = Some (u32_at (w_buf w) pc), p_byte_ranges = [(pc, page_end - pc)],
         p_accumulated_len = page_end - pc, p_page_magic = w_page_magic w\<rparr>, w_page_cursor := page_end\<rparr>"
  | (whole) n where "n = unat (u32_at (w_buf w) pc)" "wf_rec_header fmt \<le> n" "pc + n \<le> page_end" "pc + n \<le> length (w_buf w)"
      "r = Inr (Some \<lparr>c_stitched_bytes = None, c_byte_ranges = [(pc, n)], c_start_offset = pc, c_page_magic = w_page_magic w\<rparr>)"
      "w1 = w\<lparr>w_page_cursor := pc + n\<rparr>"
proof -
  define n where "n = unat (u32_at (w_buf w) pc)"
  let ?avail = "length (w_buf w) - pc"
  note def = assms(3) [unfolded try_read_record_def Let_def cursor_frame pc_def [symmetric] page_end_def [symmetric]]
  consider (a) "pc \<ge> page_end \<or> ?avail = 0"
    | (b) "pc < page_end" "0 < ?avail" "page_end - pc < wf_rec_header fmt"
    | (c) "pc < page_end" "0 < ?avail" "wf_rec_header fmt \<le> page_end - pc" "n = 0 \<or> ?avail < 4 \<or> n < wf_rec_header fmt"
    | (d) "pc < page_end" "0 < ?avail" "wf_rec_header fmt \<le> page_end - pc" "4 \<le> ?avail" "n \<noteq> 0" "wf_rec_header fmt \<le> n"
    by linarith
  then show ?thesis
  proof cases
    case a
    then have "w1 = w\<lparr>w_page_cursor := pc, w_done_in_segment := w_done_in_segment w\<rparr>" "r = Inr None"
      using def by (auto split: if_split_asm)
    then show ?thesis by (rule none)
  next
    case b
    show ?thesis
    proof (cases "?avail < page_end - pc")
      case True
      with def b have "w1 = w\<lparr>w_page_cursor := pc\<rparr>" "r = Inr None" by simp_all
      then show ?thesis by (intro none [of "w_done_in_segment w"]) simp_all
    next
      case False
      then have "page_end \<le> length (w_buf w)" using b by linarith
      moreover have "(w1, r) = (if all_zero (slice pc page_end (w_buf w)) then (w\<lparr>w_page_cursor := pc, w_done_in_segment := True\<rparr>, Inr None)
         else (w\<lparr>w_pending := Some \<lparr>p_start_offset = pc, p_total_len = None, p_byte_ranges = [(pc, page_end - pc)],
           p_accumulated_len = page_end - pc, p_page_magic = w_page_magic w\<rparr>, w_page_cursor := page_end\<rparr>, Inr None))"
        using def b False by (cases "all_zero (slice pc page_end (w_buf w))") simp_all
      ultimately show ?thesis using b(1,3)
        by (cases "all_zero (slice pc page_end (w_buf w))") (rule none [of True], simp_all, rule header, simp_all)
    qed
  next
    case c
    define tail where "tail = min (page_end - pc) ?avail"
    consider (few) "?avail < 4" | (zero) "4 \<le> ?avail" "u32_at (w_buf w) pc = 0"
      | (short) "4 \<le> ?avail" "u32_at (w_buf w) pc \<noteq> 0" "n < wf_rec_header fmt"
    proof -
      have "n = 0 \<longleftrightarrow> u32_at (w_buf w) pc = 0" by (simp add: n_def unat_eq_0)
      then show thesis using that c(4) by (meson not_less)
    qed
    then show ?thesis
    proof cases
      case few
      then have "w1 = w\<lparr>w_page_cursor := pc\<rparr>" "r = Inr None" using def c(1-3) by simp_all
      then show ?thesis by (intro none [of "w_done_in_segment w"]) simp_all
    next
      case zero
      show ?thesis
      proof (cases "tail < page_end - pc")
        case True
        with zero def [folded tail_def] c(1-3) have "w1 = w\<lparr>w_page_cursor := pc\<rparr>" "r = Inr None" by simp_all
        then show ?thesis by (intro none [of "w_done_in_segment w"]) simp_all
      next
        case False
        with zero def [folded tail_def] c(1-3)
        have "(if all_zero (slice pc (pc + tail) (w_buf w)) then (w\<lparr>w_page_cursor := pc, w_done_in_segment := True\<rparr>, Inr None)
          else (w\<lparr>w_page_cursor := pc\<rparr>, Inl (ZeroRecord pc))) = (w1, r)"
          by (simp split del: if_split)
        then show ?thesis using none [of True] error [of "ZeroRecord pc"]
          by (cases "all_zero (slice pc (pc + tail) (w_buf w))") auto
      qed
    next
      case short
      then have "w1 = w\<lparr>w_page_cursor := pc\<rparr>" "r = Inl (ShortRecord pc (wf_rec_header fmt))"
        using def c(1-3) by (simp_all add: n_def)
      then show ?thesis by (rule error)
    qed
  next
    case d
    have u: "u32_at (w_buf w) pc \<noteq> 0" using d(5) by (auto simp: n_def)
    consider (few) "?avail < min n (page_end - pc)" | (fits) "n \<le> page_end - pc" "n \<le> ?avail"
      | (cross) "page_end - pc < n" "page_end - pc \<le> ?avail" by linarith
    then show ?thesis
    proof cases
      case few
      then have "w1 = w\<lparr>w_page_cursor := pc\<rparr>" "r = Inr None" using def d u by (simp_all add: n_def)
      then show ?thesis by (intro none [of "w_done_in_segment w"]) simp_all
    next
      case fits
      then have "pc + n \<le> page_end" "pc + n \<le> length (w_buf w)" using d by linarith+
      moreover have "min n (page_end - pc) = n" "\<not> ?avail < n" using fits by simp_all
      ultimately show ?thesis using def d u by (intro whole [of n]) (simp_all add: n_def)
    next
      case cross
      then have "page_end \<le> length (w_buf w)" using d by linarith
      moreover have "min n (page_end - pc) = page_end - pc" "page_end - pc \<noteq> n" "\<not> ?avail < page_end - pc" using cross by simp_all
      ultimately show ?thesis using def d u by (intro spans) (simp_all add: n_def)
    qed
  qed
qed

lemma fresh_ok:
  assumes "format_ok fmt" "walker_ok fmt w" "w_page_magic w \<noteq> 0" "w_pending w = None" "\<not> w_done_in_segment w"
    "fresh_step fmt w = (w', out)"
  shows "step_ok fmt w w' out"
proof -
  define pc where "pc = align_up (w_page_cursor w) (wf_align fmt)"
  define page_end where "page_end = w_page_start w + wf_page_size fmt"
  have pg: "page_ok fmt w" using assms(2) by (simp add: walker_ok_def)
  have rh: "0 < wf_rec_header fmt" "4 \<le> wf_rec_header fmt" using assms(1) by (simp_all add: format_ok_def)
  have "wf_align fmt dvd wf_page_size fmt" "wf_page_size fmt dvd w_page_start w"
    using assms(1) pg by (auto simp: format_ok_def page_ok_def)
  then have "wf_align fmt dvd page_end" unfolding page_end_def by (intro dvd_add) (auto intro: dvd_trans)
  then have "page_end mod wf_align fmt = 0" by simp
  moreover have "w_page_cursor w \<le> page_end" using pg by (simp add: page_ok_def page_end_def)
  ultimately have pc: "w_page_cursor w \<le> pc" "pc \<le> page_end" "pc mod wf_align fmt = 0"
    unfolding pc_def using format_align_up(1,3) [OF assms(1)] format_align_up(4) [OF assms(1), of "w_page_cursor w" page_end] by simp_all
  have pg_at: "page_ok fmt (w\<lparr>w_page_cursor := c\<rparr>)" if "pc \<le> c" "c \<le> page_end" for c
    using that pc(1) by (intro page_ok_cursor [OF pg assms(3)]) (auto simp: page_end_def)
  have u32: "u32_at (w_buf w) pc = word_of_nat (le_nat (take 4 (slice pc (pc + n) (w_buf w))))" if "4 \<le> n" for n
    using that by (simp add: u32_at_def slice_def)
  have opened: "step_ok fmt w (advance_to_next_page fmt w1) None"
    if "pc < page_end" "page_end \<le> length (w_buf w)" "w1 = w\<lparr>w_pending := Some p, w_page_cursor := page_end\<rparr>"
      "p_start_offset p = pc" "p_byte_ranges p = [(pc, page_end - pc)]" "p_accumulated_len p = page_end - pc"
      "case p_total_len p of None \<Rightarrow> page_end - pc < wf_rec_header fmt
       | Some t \<Rightarrow> wf_rec_header fmt \<le> page_end - pc \<and> t = word_of_nat (le_nat (take 4 (gather (w_buf w) [(pc, page_end - pc)])))" for w1 p
  proof -
    have "laid_out fmt (w_buf w) pc page_end [(pc, page_end - pc)]"
      using laid_out_fresh [OF pg assms(3) pc(1), of "page_end - pc"] that(1,2) by (simp add: page_end_def)
    then have "pending_ok fmt (w_buf w) page_end page_end p"
      using that pc(3) by (auto simp: pending_ok_def split: option.splits)
    moreover have "w1 = w\<lparr>w_page_cursor := page_end, w_pending := Some p\<rparr>" using that(3) by simp
    then have "page_ok fmt (advance_to_next_page fmt w1)"
      using pg_at [of page_end] pc by (simp add: page_ok_advance page_ok_frame)
    ultimately show ?thesis using that(3,4) pc(1) assms(4)
      by (simp add: step_ok_def walker_ok_def frontier_def page_end_def [symmetric])
  qed
  obtain w1 r where r: "try_read_record fmt w = (w1, r)" by fastforce
  from r show ?thesis
  proof (cases rule: read_record_cases [case_names none error header spans whole])
    case (none d)
    then have w1: "page_ok fmt w1" "w_pending w1 = None" "w_buf w1 = w_buf w" "w_seg_size w1 = w_seg_size w" "w_page_cursor w1 = pc"
      "w_page_start w1 = w_page_start w"
      using pg_at [of pc] pc assms(4) by (simp_all add: page_ok_frame pc_def)
    from assms(6) r none(2) have "w' = w1 \<and> out = Some NeedMore \<or> w' = advance_to_next_page fmt w1 \<and> out = None \<and> \<not> w_done_in_segment w1"
      by (auto simp: fresh_step_def split: if_split_asm)
    then show ?thesis
      using w1 pc page_ok_advance [OF w1(1)] assms(4,5)
      by (auto simp: step_ok_def walker_ok_def frontier_def page_end_def)
  next
    case (error e)
    then have "w' = w\<lparr>w_page_cursor := pc, w_done_in_segment := True\<rparr>" "out = Some (Failed e)"
      using assms(6) r by (simp_all add: fresh_step_def pc_def)
    then show ?thesis using pg_at [of pc] pc assms(4) by (simp add: step_ok_def walker_ok_def page_ok_frame frontier_def)
  next
    case header
    note h = header [folded pc_def page_end_def]
    have "w' = advance_to_next_page fmt w1" "out = None"
      using assms(5,6) r h(4,5) by (simp_all add: fresh_step_def page_end_def [symmetric])
    then show ?thesis using opened [OF h(1,2) h(5)] h(3) by simp
  next
    case spans
    note h = spans [folded pc_def page_end_def]
    have "w' = advance_to_next_page fmt w1" "out = None"
      using assms(5,6) r h(4,6) by (simp_all add: fresh_step_def page_end_def [symmetric])
    moreover have "u32_at (w_buf w) pc = word_of_nat (le_nat (take 4 (gather (w_buf w) [(pc, page_end - pc)])))"
      using u32 [of "page_end - pc"] h(1,3) rh by simp
    ultimately show ?thesis using opened [OF h(1,2) h(6)] h(3) by simp
  next
    case (whole n)
    note h = whole [folded pc_def page_end_def]
    have "laid_out fmt (w_buf w) pc (pc + n) [(pc, n)]"
      using laid_out_fresh [OF pg assms(3) pc(1), of n] h(2,3,4) rh by (simp add: page_end_def)
    moreover have "n = le_nat (take 4 (slice pc (pc + n) (w_buf w)))"
      using h(1) u32 [of n] h(2,4) rh by (simp add: unat_header_word)
    moreover have "slice pc (pc + n) (w_buf w) = map ((!) (w_buf w)) [pc..<pc + n]" using h(4) by (rule slice_map_nth)
    moreover have "w' = w1" "out = Some (Yield \<lparr>c_stitched_bytes = None, c_byte_ranges = [(pc, n)], c_start_offset = pc,
        c_page_magic = w_page_magic w\<rparr>)"
      using assms(6) r h(5) by (simp_all add: fresh_step_def)
    ultimately show ?thesis
      using assms(4) h(2,3,6) pc rh pg_at [of "pc + n"]
      by (simp add: step_ok_def walker_ok_def frontier_def record_ok_def logical_bytes_def)
  qed
qed

lemma le_nat_append: "le_nat (xs @ ys) = le_nat xs + 256 ^ length xs * le_nat ys"
  by (induction xs) (simp_all add: algebra_simps)

lemma zero_page_length:
  assumes "parse_page_header fmt bs p = Inr ZeroPage"
  shows "u32_at bs p = 0"
proof -
  have len: "p + 20 \<le> length bs" and z: "u16_at bs p = 0" "u16_at bs (p + 2) = 0"
    using assms by (auto simp: parse_page_header_def Let_def SHORT_HEADER_SIZE_def split: if_split_asm)
  have zero: "le_nat ys = 0" if "length ys = 2" "(word_of_nat (le_nat ys) :: u16) = 0" for ys
  proof -
    have "le_nat ys < 2 ^ 16" using le_nat_lt [of ys] that(1) by (simp add: power2_eq_square)
    then have "unat (word_of_nat (le_nat ys) :: u16) = le_nat ys" by (simp add: unsigned_of_nat take_bit_nat_eq_self)
    then show ?thesis using that(2) by simp
  qed
  have "slice p (p + 4) bs = slice p (p + 2) bs @ slice (p + 2) (p + 2 + 2) bs"
    using take_add [of 2 2 "drop p bs"] by (simp add: slice_def add.commute)
  moreover have "length (slice p (p + 2) bs) = 2" "length (slice (p + 2) (p + 2 + 2) bs) = 2" using len by simp_all
  then have "le_nat (slice p (p + 2) bs) = 0" "le_nat (slice (p + 2) (p + 2 + 2) bs) = 0"
    using zero z unfolding u16_at_def by blast+
  ultimately show ?thesis by (simp add: u32_at_def le_nat_append)
qed

lemma format_page_end:
  assumes "format_ok fmt" "page_ok fmt w"
  shows "(w_page_start w + wf_page_size fmt) mod wf_align fmt = 0" "w_page_start w mod wf_align fmt = 0"
proof -
  have "wf_align fmt dvd wf_page_size fmt" "wf_page_size fmt dvd w_page_start w"
    using assms by (auto simp: format_ok_def page_ok_def)
  then have "wf_align fmt dvd w_page_start w + wf_page_size fmt" "wf_align fmt dvd w_page_start w"
    by (auto intro: dvd_add dvd_trans)
  then show "(w_page_start w + wf_page_size fmt) mod wf_align fmt = 0" "w_page_start w mod wf_align fmt = 0" by simp_all
qed

lemma header_valid_ok:
  assumes "format_ok fmt" "walker_ok fmt w" "w_page_magic w = 0" "try_read_page_header fmt w = (w1, Inr True)"
    "parse_page_header fmt (w_buf w) (w_page_start w) = Inr (ValidHeader m d rem)"
  shows "walker_ok fmt w1" "w_page_magic w1 \<noteq> 0" "frontier w \<le> frontier w1"
    "w_done_in_segment w1 = w_done_in_segment w" "w_zero_stitch w1 = w_zero_stitch w"
proof -
  let ?pe = "w_page_start w + wf_page_size fmt"
  have pg: "page_ok fmt w" and pc: "w_page_cursor w = w_page_start w"
    using assms(2,3) by (simp_all add: walker_ok_def page_ok_def)
  note v = parse_page_header_valid [OF assms(1,5)]
  have size: "100 \<le> wf_page_size fmt" using assms(1) by (simp add: format_ok_def)
  show "w_page_magic w1 \<noteq> 0" "w_done_in_segment w1 = w_done_in_segment w" "w_zero_stitch w1 = w_zero_stitch w"
    using assms(4,5) v(1) by (auto simp: try_read_page_header_def Let_def split: if_split_asm)
  show "walker_ok fmt w1" "frontier w \<le> frontier w1"
  proof (atomize (full), cases "w_pending w")
    case None
    define c where "c = (if rem > 0 then (if rem \<ge> ?pe - d then ?pe else align_up (d + min rem (?pe - d)) (wf_align fmt)) else d)"
    have w1: "w1 = w\<lparr>w_page_magic := m, w_page_data_start := d, w_page_cursor := c\<rparr>"
      using assms(4,5) None by (auto simp: try_read_page_header_def Let_def c_def)
    have "d + min rem (?pe - d) \<le> ?pe" using v(4) size by linarith
    then have "d \<le> c" "c \<le> ?pe"
      using format_align_up(1) [OF assms(1), of "d + min rem (?pe - d)"]
        format_align_up(4) [OF assms(1), of "d + min rem (?pe - d)" ?pe] format_page_end(1) [OF assms(1) pg] v(4) size
      by (auto simp: c_def)
    then show "walker_ok fmt w1 \<and> frontier w \<le> frontier w1"
      using None pg pc v(1,3) assms(5) by (simp add: w1 walker_ok_def frontier_def page_ok_def)
  next
    case (Some p)
    have w1: "w1 = w\<lparr>w_page_magic := m, w_page_data_start := d, w_page_cursor := d\<rparr>"
      using assms(4,5) Some by (auto simp: try_read_page_header_def Let_def)
    have pd: "pending_ok fmt (w_buf w) (w_page_start w) (w_page_start w) p" using assms(2) Some pc by (simp add: walker_ok_def)
    have here: "\<not> data_pos fmt (w_buf w) x \<and> valid_page fmt (w_buf w) x" if "w_page_start w \<le> x" "x < d" for x
    proof -
      have "x - x mod wf_page_size fmt = w_page_start w"
        using that v(4) size pg by (intro page_base) (auto simp: page_ok_def)
      then show ?thesis using that assms(5) by (simp add: data_pos_def valid_page_def)
    qed
    then have "filter (data_pos fmt (w_buf w)) [w_page_start w..<d] = []" by (intro filter_none_upt) blast
    moreover have "list_all (valid_page fmt (w_buf w)) [w_page_start w..<d]" using here by (auto simp: list_all_iff)
    moreover have "[p_start_offset p..<d] = [p_start_offset p..<w_page_start w] @ [w_page_start w..<d]"
      using pd v(3) by (intro upt_split) (auto simp: pending_ok_def)
    ultimately have "laid_out fmt (w_buf w) (p_start_offset p) d rs = laid_out fmt (w_buf w) (p_start_offset p) (w_page_start w) rs" for rs
      by (simp add: laid_out_def)
    then have "pending_ok fmt (w_buf w) (w_page_start w) d p" using pd by (simp add: pending_ok_def)
    then show "walker_ok fmt w1 \<and> frontier w \<le> frontier w1"
      using Some pg v size assms(5) by (simp add: w1 walker_ok_def frontier_def page_ok_def)
  qed
qed

lemma zero_page_ok:
  assumes "format_ok fmt" "walker_ok fmt w" "w_page_magic w = 0" "w_pending w = None" "w_done_in_segment w"
    "parse_page_header fmt (w_buf w) (w_page_start w) = Inr ZeroPage" "record_step fmt w = (w', out)"
  shows "step_ok fmt w w' out" "out \<noteq> None"
proof -
  have pg: "page_ok fmt w" and pc: "w_page_cursor w = w_page_start w"
    using assms(2,3) by (simp_all add: walker_ok_def page_ok_def)
  have "align_up (w_page_cursor w) (wf_align fmt) \<le> w_page_cursor w"
    using format_align_up(4) [OF assms(1), of "w_page_cursor w" "w_page_cursor w"] format_page_end(2) [OF assms(1) pg] pc by simp
  then have al: "align_up (w_page_cursor w) (wf_align fmt) = w_page_start w"
    using format_align_up(1) [OF assms(1), of "w_page_cursor w"] pc by simp
  have size: "wf_rec_header fmt \<le> wf_page_size fmt" "0 < wf_rec_header fmt" using assms(1) by (simp_all add: format_ok_def)
  have z: "u32_at (w_buf w) (w_page_start w) = 0" by (rule zero_page_length [OF assms(6)])
  have step: "fresh_step fmt w = (w', out)" using assms(4,7) by (simp add: record_step_def)
  obtain w1 r where r: "try_read_record fmt w = (w1, r)" by fastforce
  have "\<exists>d. w1 = w\<lparr>w_done_in_segment := d\<rparr> \<and> (r = Inr None \<or> (\<exists>e. r = Inl e))"
    using r
  proof (cases rule: read_record_cases [case_names none error header spans whole])
    case (none d)
    then show ?thesis using al pc by (intro exI [of _ d]) simp
  next
    case (error e)
    then show ?thesis using al pc by (intro exI [of _ "w_done_in_segment w"]) simp
  next
    case header
    then show ?thesis using size unfolding al by simp
  next
    case spans
    then show ?thesis using z unfolding al by simp
  next
    case (whole n)
    then show ?thesis using z size unfolding al by simp
  qed
  moreover have "w_done_in_segment w1" using r assms(5) by (auto simp: try_read_record_def Let_def split: if_split_asm)
  ultimately have "w' = w \<and> (out = Some NeedMore \<or> (\<exists>e. out = Some (Failed e)))"
    using step r assms(5) by (auto simp: fresh_step_def)
  then show "step_ok fmt w w' out" "out \<noteq> None" using assms(2) by (auto simp: step_ok_def)
qed

lemma record_step_ok:
  assumes "format_ok fmt" "walker_ok fmt w" "w_page_magic w \<noteq> 0" "\<not> w_done_in_segment w" "record_step fmt w = (w', out)"
  shows "step_ok fmt w w' out"
proof (cases "w_pending w")
  case None
  with assms show ?thesis by (intro fresh_ok) (simp_all add: record_step_def)
next
  case (Some p)
  show ?thesis
  proof (cases "p_total_len p")
    case None
    with assms Some show ?thesis by (intro pending_header_ok [where p = p]) (simp_all add: record_step_def)
  next
    case t: (Some t)
    with assms Some show ?thesis by (intro pending_total_ok [where p = p and t = t]) (simp_all add: record_step_def)
  qed
qed

lemma step_zero_stitch_fst:
  "w_zero_stitch (fst (pending_total_step fmt w p t)) = w_zero_stitch w"
  "w_zero_stitch (fst (pending_header_step fmt w p)) = w_zero_stitch w"
  unfolding pending_total_step_def pending_header_step_def Let_def if_distrib [of fst] if_distrib [of w_zero_stitch]
  by simp_all

lemma step_zero_stitch:
  "pending_total_step fmt w p t = (w', out) \<Longrightarrow> w_zero_stitch w' = w_zero_stitch w"
  "pending_header_step fmt w p = (w', out) \<Longrightarrow> w_zero_stitch w' = w_zero_stitch w"
  using step_zero_stitch_fst by (metis fst_conv)+

lemma fresh_zero_stitch:
  assumes "fresh_step fmt w = (w', out)"
  shows "w_zero_stitch w' = w_zero_stitch w"
proof -
  obtain w1 r where r: "try_read_record fmt w = (w1, r)" by fastforce
  with assms show ?thesis using read_record_frame(5) [OF r]
    by (auto simp: fresh_step_def split: sum.splits option.splits if_split_asm)
qed

lemma record_step_zero_stitch: "record_step fmt w = (w', out) \<Longrightarrow> w_zero_stitch w' = w_zero_stitch w"
  using step_zero_stitch fresh_zero_stitch by (auto simp: record_step_def split: option.splits)

lemma step_ok_trans_start:
  assumes "step_ok fmt w1 w' out" "w_buf w1 = w_buf w" "w_seg_size w1 = w_seg_size w" "frontier w \<le> frontier w1"
    "w_done_in_segment w1 = w_done_in_segment w \<or> out \<noteq> None"
  shows "step_ok fmt w w' out"
  using assms by (auto simp: step_ok_def split: option.splits walk_outcome.splits)

lemma loop_body_ok:
  assumes "format_ok fmt" "walker_ok fmt w" "\<not> w_done_in_segment w" "loop_body fmt w = (w', out)" "\<not> w_zero_stitch w'"
  shows "step_ok fmt w w' out \<and> \<not> w_zero_stitch w"
proof (cases "w_page_magic w = 0")
  case False
  then have "record_step fmt w = (w', out)" using assms(4) by (simp add: loop_body_def)
  then show ?thesis using record_step_ok [OF assms(1,2) False assms(3)] record_step_zero_stitch assms(5) by blast
next
  case True
  obtain w1 r where h: "try_read_page_header fmt w = (w1, r)" by fastforce
  note frame = header_read_frame [OF h]
  show ?thesis
  proof (cases "r = Inr True")
    case False
    then have "w1 = w" and "w' = w \<and> out = Some NeedMore \<or> (\<exists>e. w' = w\<lparr>w_done_in_segment := True\<rparr> \<and> out = Some (Failed e))"
      using assms(4) True h by (auto simp: loop_body_def try_read_page_header_def Let_def split: sum.splits page_header.splits bool.splits if_split_asm)
    then show ?thesis using assms(2,5) by (auto simp: step_ok_def walker_ok_def page_ok_frame frontier_def split: option.splits)
  next
    case ok: True
    then have step: "record_step fmt w1 = (w', out)" using assms(4) True h by (simp add: loop_body_def)
    then have z1: "\<not> w_zero_stitch w1" using record_step_zero_stitch assms(5) by blast
    consider (valid) m d rem where "parse_page_header fmt (w_buf w) (w_page_start w) = Inr (ValidHeader m d rem)"
      | (zero) "parse_page_header fmt (w_buf w) (w_page_start w) = Inr ZeroPage"
      using h ok by (auto simp: try_read_page_header_def split: sum.splits page_header.splits)
    then show ?thesis
    proof cases
      case valid
      note v = header_valid_ok [OF assms(1,2) True h [unfolded ok] valid]
      have "step_ok fmt w1 w' out" using record_step_ok [OF assms(1) v(1,2) _ step] v(4) assms(3) by simp
      then show ?thesis using step_ok_trans_start [of fmt w1 w' out w] frame v z1 by simp
    next
      case zero
      then have w1: "w1 = w\<lparr>w_done_in_segment := True, w_zero_stitch := (w_zero_stitch w \<or> w_pending w \<noteq> None)\<rparr>"
        using h by (simp add: try_read_page_header_def)
      then have p: "w_pending w = None" "\<not> w_zero_stitch w" using z1 by auto
      have "walker_ok fmt w1" using assms(2) p(1) by (simp add: w1 walker_ok_def page_ok_def)
      then have "step_ok fmt w1 w' out" "out \<noteq> None"
        using zero_page_ok [OF assms(1) _ _ _ _ _ step] zero True p(1) by (simp_all add: w1)
      then show ?thesis using step_ok_trans_start [of fmt w1 w' out w] p by (simp add: w1 frontier_def)
    qed
  qed
qed

lemma step_ok_chain:
  assumes "step_ok fmt w w1 None" "step_ok fmt w1 w' out"
  shows "step_ok fmt w w' out"
  using assms by (auto simp: step_ok_def split: option.splits walk_outcome.splits)

lemma loop_body_zero_stitch:
  "loop_body fmt w = (w', out) \<Longrightarrow> w_zero_stitch w \<Longrightarrow> w_zero_stitch w'"
  by (auto simp: loop_body_def try_read_page_header_def Let_def dest: record_step_zero_stitch
      split: sum.splits page_header.splits bool.splits prod.splits if_split_asm)

lemma walk_loop_zero_stitch:
  assumes "walk_loop fmt w = Some r"
  shows "w_zero_stitch w \<longrightarrow> w_zero_stitch (fst r)"
proof (rule walk_loop.raw_induct [where P = "\<lambda>fmt w r. w_zero_stitch w \<longrightarrow> w_zero_stitch (fst r)"])
  fix f and fmt :: wal_format and w :: walker and r
  assume ih: "\<And>fmt w r. f fmt w = Some r \<Longrightarrow> w_zero_stitch w \<longrightarrow> w_zero_stitch (fst r)"
    and step: "(case loop_body fmt w of (w', None) \<Rightarrow> f fmt w' | (w', Some out) \<Rightarrow> Some (w', out)) = Some r"
  obtain w1 o1 where b: "loop_body fmt w = (w1, o1)" by fastforce
  show "w_zero_stitch w \<longrightarrow> w_zero_stitch (fst r)"
    using loop_body_zero_stitch [OF b] ih [of fmt w1 r] step b by (auto split: option.splits)
qed (rule assms)

lemma walk_loop_ok:
  assumes "walk_loop fmt w = Some r" "format_ok fmt" "\<not> w_zero_stitch (fst r)" "walker_ok fmt w" "\<not> w_done_in_segment w"
  shows "step_ok fmt w (fst r) (Some (snd r))"
proof -
  have wf: "wf (measures [pages_ahead, header_ahead fmt])" by simp
  show ?thesis using assms
  proof (induction w rule: wf_induct_rule [OF wf])
    case (1 w)
    obtain w1 o1 where b: "loop_body fmt w = (w1, o1)" by fastforce
    show ?case
    proof (cases o1)
      case None
      then have rest: "walk_loop fmt w1 = Some r" using 1(2) b by (subst (asm) walk_loop.simps) simp
      then have z: "\<not> w_zero_stitch w1" using walk_loop_zero_stitch 1(4) by blast
      have step: "step_ok fmt w w1 None" using loop_body_ok [OF 1(3,5,6) b z] None by simp
      then have "walker_ok fmt w1" "\<not> w_done_in_segment w1" using 1(6) by (simp_all add: step_ok_def)
      moreover have "(w1, w) \<in> measures [pages_ahead, header_ahead fmt]"
        using loop_body_decreases [of fmt w w1] b None 1(3) by (auto simp: format_ok_def)
      ultimately have "step_ok fmt w1 (fst r) (Some (snd r))" using 1(1) rest 1(3,4) by blast
      then show ?thesis using step_ok_chain step by blast
    next
      case (Some out)
      then have "r = (w1, out)" using 1(2) b by (subst (asm) walk_loop.simps) simp
      then show ?thesis using loop_body_ok [OF 1(3,5,6) b] 1(4) Some by simp
    qed
  qed
qed

lemma try_next_ok:
  assumes "try_next fmt w = Some (w', out)" "format_ok fmt" "\<not> w_zero_stitch w'" "walker_ok fmt w"
  shows "step_ok fmt w w' (Some out)"
proof (cases "w_done_in_segment w")
  case True
  then show ?thesis using assms by (simp add: try_next_def step_ok_def)
next
  case False
  then show ?thesis using walk_loop_ok [of fmt w "(w', out)"] assms by (simp add: try_next_def)
qed

lemma try_next_total:
  assumes "0 < wf_page_size fmt"
  obtains w' out where "try_next fmt w = Some (w', out)"
  using walk_loop_returns [OF assms, of w] by (cases "w_done_in_segment w") (auto simp: try_next_def)

lemma try_next_zero_stitch: "try_next fmt w = Some (w', out) \<Longrightarrow> w_zero_stitch w \<Longrightarrow> w_zero_stitch w'"
  using walk_loop_zero_stitch [of fmt w "(w', out)"] by (auto simp: try_next_def split: if_split_asm)

section \<open>Rewriting, extending and truncating\<close>

lemma walker_new_ok: "walker_ok fmt (walker_new n)"
  by (simp add: walker_ok_def page_ok_def walker_new_def)

lemma valid_page_append:
  assumes "valid_page fmt buf x"
  shows "valid_page fmt (buf @ ys) x" "data_pos fmt (buf @ ys) x = data_pos fmt buf x"
proof -
  obtain m d r where "parse_page_header fmt buf (x - x mod wf_page_size fmt) = Inr (ValidHeader m d r)"
    using assms by (auto simp: valid_page_def split: sum.splits page_header.splits)
  with parse_valid_append [OF this] show "valid_page fmt (buf @ ys) x" "data_pos fmt (buf @ ys) x = data_pos fmt buf x"
    by (simp_all add: valid_page_def data_pos_def)
qed

lemma laid_out_append:
  assumes "laid_out fmt buf a b rs"
  shows "laid_out fmt (buf @ ys) a b rs"
proof -
  have "list_all (valid_page fmt (buf @ ys)) [a..<b]" "filter (data_pos fmt (buf @ ys)) [a..<b] = filter (data_pos fmt buf) [a..<b]"
    using assms valid_page_append [of fmt buf _ ys] by (auto simp: laid_out_def list_all_iff intro!: filter_cong)
  moreover have "list_all (\<lambda>x. x < length buf) (positions rs)" using assms unfolding laid_out_def by blast
  then have "list_all (\<lambda>x. x < length (buf @ ys)) (positions rs)" by (auto simp: list_all_iff)
  ultimately show ?thesis using assms unfolding laid_out_def by metis
qed

lemma gather_extend:
  assumes "list_all (\<lambda>x. x < length buf) (positions rs)"
  shows "gather (buf @ ys) rs = gather buf rs"
proof -
  have "list_all (\<lambda>x. x < length (buf @ ys)) (positions rs)" using assms by (auto simp: list_all_iff)
  then show ?thesis using assms by (simp add: gather_positions nth_append list_all_iff)
qed

lemma walker_extend_ok:
  assumes "walker_ok fmt w"
  shows "walker_ok fmt (walker_extend bs w)"
proof -
  have "page_ok fmt (walker_extend bs w)"
    using assms parse_valid_append [of fmt "w_buf w" "w_page_start w" _ _ _ bs]
    by (auto simp: walker_ok_def page_ok_def walker_extend_def)
  moreover have "pending_ok fmt (w_buf w @ bs) ps stop p" if "pending_ok fmt (w_buf w) ps stop p" for ps stop p
  proof -
    have "gather (w_buf w @ bs) (p_byte_ranges p) = gather (w_buf w) (p_byte_ranges p)"
      using that by (intro gather_extend) (auto simp: pending_ok_def laid_out_def)
    moreover have "laid_out fmt (w_buf w @ bs) (p_start_offset p) stop (p_byte_ranges p)"
      using that by (intro laid_out_append) (simp add: pending_ok_def)
    ultimately show ?thesis using that by (cases "p_total_len p") (simp_all add: pending_ok_def)
  qed
  ultimately show ?thesis using assms by (auto simp: walker_ok_def walker_extend_def split: option.splits)
qed

lemma length_scatter:
  "list_all (\<lambda>x. x < length buf) (positions rs) \<Longrightarrow> length new = length (positions rs) \<Longrightarrow>
   length (scatter rs new buf) = length buf"
proof (induction rs new buf rule: scatter.induct)
  case (2 off len rs new buf)
  then have "len = 0 \<or> off + len \<le> length buf" by (simp add: range_in_bounds)
  then have "length (put_range off (take len new) buf) = length buf"
    using 2(3) by (auto simp: put_range_def)
  with 2 show ?case by simp
qed simp

lemma nth_scatter_other:
  "list_all (\<lambda>x. x < length buf) (positions rs) \<Longrightarrow> length new = length (positions rs) \<Longrightarrow> x \<notin> set (positions rs) \<Longrightarrow>
   x < length buf \<Longrightarrow> scatter rs new buf ! x = buf ! x"
proof (induction rs new buf rule: scatter.induct)
  case (2 off len rs new buf)
  let ?b = "put_range off (take len new) buf"
  have in_b: "len = 0 \<or> off + len \<le> length buf" using 2(2) by (simp add: range_in_bounds)
  then have l: "length ?b = length buf" using 2(3) by (auto simp: put_range_def)
  have "?b ! x = buf ! x"
  proof (cases "len = 0")
    case True
    then show ?thesis by (simp add: put_range_def)
  next
    case False
    then show ?thesis using in_b 2(3,4,5) nth_put_range [of off "take len new" buf x] by auto
  qed
  then show ?case using 2 l by simp
qed simp

lemma gather_scatter:
  "list_all (\<lambda>x. x < length buf) (positions rs) \<Longrightarrow> length new = length (positions rs) \<Longrightarrow> distinct (positions rs) \<Longrightarrow>
   gather (scatter rs new buf) rs = new"
proof (induction rs new buf rule: scatter.induct)
  case (2 off len rs new buf)
  let ?b = "put_range off (take len new) buf"
  let ?r = "scatter rs (drop len new) ?b"
  have in_b: "len = 0 \<or> off + len \<le> length buf" using 2(2) by (simp add: range_in_bounds)
  then have l: "length ?b = length buf" using 2(3) by (auto simp: put_range_def)
  then have tail: "gather ?r rs = drop len new" using 2 by simp
  have lr: "length ?r = length buf" using 2(2,3) l by (simp add: length_scatter)
  have "slice off (off + len) ?r = take len new"
  proof (rule nth_equalityI)
    show "length (slice off (off + len) ?r) = length (take len new)" using in_b lr 2(3) by auto
    fix i assume i: "i < length (slice off (off + len) ?r)"
    then have i_len: "i < len" "off + len \<le> length buf" using in_b by (auto simp: lr)
    then have "off + i \<in> {off..<off + len}" by simp
    moreover have "{off..<off + len} \<inter> set (positions rs) = {}" using 2(4) by simp
    ultimately have "off + i \<notin> set (positions rs)" by blast
    note i_len this
    then show "slice off (off + len) ?r ! i = take len new ! i"
      using 2(2,3) l lr nth_scatter_other [of ?b rs "drop len new" "off + i"] nth_put_range [of off "take len new" buf "off + i"]
      by (simp add: nth_slice)
  qed
  with tail show ?case by simp
qed simp

lemma laid_out_distinct: "laid_out fmt buf a b rs \<Longrightarrow> distinct (positions rs)"
  unfolding laid_out_def by (metis distinct_filter distinct_upt)

lemma laid_out_data: "laid_out fmt buf a b rs \<Longrightarrow> x \<in> set (positions rs) \<Longrightarrow> data_pos fmt buf x \<and> a \<le> x \<and> x < b"
  unfolding laid_out_def by (metis (no_types, lifting) atLeastLessThan_iff filter_is_subset mem_Collect_eq set_filter set_upt)

lemma rewrite_page_ok:
  assumes "format_ok fmt" "page_ok fmt w" "laid_out fmt (w_buf w) a b rs" "length new = length (positions rs)"
  shows "page_ok fmt (w\<lparr>w_buf := scatter rs new (w_buf w)\<rparr>)"
proof (cases "w_page_magic w = 0")
  case True
  then show ?thesis using assms(2) by (simp add: page_ok_def)
next
  case False
  then obtain rem where h: "parse_page_header fmt (w_buf w) (w_page_start w) = Inr (ValidHeader (w_page_magic w) (w_page_data_start w) rem)"
    using assms(2) by (auto simp: page_ok_def)
  have in_buf: "list_all (\<lambda>x. x < length (w_buf w)) (positions rs)" using assms(3) unfolding laid_out_def by blast
  have "scatter rs new (w_buf w) ! x = w_buf w ! x" if x: "w_page_start w \<le> x" "x < w_page_data_start w" "x < length (w_buf w)" for x
  proof (rule nth_scatter_other [OF in_buf assms(4) _ x(3)], rule)
    assume "x \<in> set (positions rs)"
    then have "data_pos fmt (w_buf w) x" using laid_out_data [OF assms(3)] by blast
    moreover have "w_page_data_start w \<le> w_page_start w + wf_page_size fmt"
      using parse_page_header_valid(4) [OF assms(1) h] assms(1) by (simp add: format_ok_def)
    then have "x - x mod wf_page_size fmt = w_page_start w"
      using x assms(2) by (intro page_base) (auto simp: page_ok_def)
    ultimately show False using x(2) h by (simp add: data_pos_def)
  qed
  then have "parse_page_header fmt (scatter rs new (w_buf w)) (w_page_start w) = Inr (ValidHeader (w_page_magic w) (w_page_data_start w) rem)"
    by (intro parse_valid_local [OF assms(1) h]) (simp_all add: length_scatter [OF in_buf assms(4)])
  then show ?thesis using assms(2) False by (simp add: page_ok_def)
qed

lemma rewrite_ok:
  assumes "format_ok fmt" "walker_ok fmt w" "w_pending w = None" "laid_out fmt (w_buf w) a b rs" "length new = length (positions rs)"
  shows "walker_ok fmt (rewrite_record rs new w)"
  using rewrite_page_ok [OF assms(1) _ assms(4,5)] assms(2,3) by (simp add: walker_ok_def rewrite_record_def)

lemma shift_mod: "n mod PS = 0 \<Longrightarrow> n \<le> x \<Longrightarrow> (x - n) - (x - n) mod PS + n = x - x mod (PS :: nat)"
proof -
  assume a: "n mod PS = 0" "n \<le> x"
  then obtain q where q: "n = PS * q" by auto
  from a(2) obtain y where y: "x = n + y" by (metis le_iff_add)
  then have "x mod PS = y mod PS" by (simp add: q)
  then show ?thesis using y by (simp add: mod_less_eq_dividend)
qed

lemma data_pos_drop:
  assumes "format_ok fmt" "n mod wf_page_size fmt = 0" "n \<le> x"
  shows "data_pos fmt (drop n buf) (x - n) = data_pos fmt buf x" "valid_page fmt (drop n buf) (x - n) = valid_page fmt buf x"
proof -
  let ?b = "x - x mod wf_page_size fmt" and ?b' = "(x - n) - (x - n) mod wf_page_size fmt"
  have b: "?b' + n = ?b" by (rule shift_mod [OF assms(2,3)])
  have "parse_page_header fmt (drop n buf) ?b' = Inr (ValidHeader m (d - n) r) \<and> n < d"
    if "parse_page_header fmt buf ?b = Inr (ValidHeader m d r)" for m d r
  proof -
    have "n < d" using parse_page_header_valid(3) [OF assms(1) that] b by linarith
    then show ?thesis using that parse_valid_drop [of fmt n buf ?b' m "d - n" r] b by simp
  qed
  moreover have "parse_page_header fmt buf ?b = Inr (ValidHeader m (d + n) r)"
    if "parse_page_header fmt (drop n buf) ?b' = Inr (ValidHeader m d r)" for m d r
    using that parse_valid_drop [of fmt n buf ?b' m d r] b by simp
  ultimately show "data_pos fmt (drop n buf) (x - n) = data_pos fmt buf x"
      "valid_page fmt (drop n buf) (x - n) = valid_page fmt buf x"
    unfolding data_pos_def valid_page_def using assms(3)
    by (auto split: sum.splits page_header.splits)
qed

lemma positions_shift:
  "list_all (\<lambda>x. n \<le> x) (positions rs) \<Longrightarrow>
   positions (map (\<lambda>(off, len). (off - n, len)) rs) = map (\<lambda>x. x - n) (positions rs)"
proof (induction rs)
  case (Cons r rs)
  obtain off len where r: "r = (off, len)" by fastforce
  have "len = 0 \<or> n \<le> off" using Cons(2) by (cases len) (auto simp: r list_all_iff)
  then have "[off - n..<off - n + len] = map (\<lambda>x. x - n) [off..<off + len]"
    by (intro nth_equalityI) auto
  with Cons show ?case by (simp add: r)
qed simp

lemma upt_shift: "n \<le> a \<Longrightarrow> [a - n..<b - n] = map (\<lambda>x. x - n) [a..<b]"
  by (intro nth_equalityI) auto

lemma laid_out_drop:
  assumes "format_ok fmt" "n mod wf_page_size fmt = 0" "n \<le> a" "laid_out fmt buf a b rs"
  shows "laid_out fmt (drop n buf) (a - n) (b - n) (map (\<lambda>(off, len). (off - n, len)) rs)"
proof -
  have ge: "list_all (\<lambda>x. n \<le> x) (positions rs)"
    using laid_out_data [OF assms(4)] assms(3) by (auto simp: list_all_iff intro: le_trans)
  have "filter (data_pos fmt (drop n buf)) [a - n..<b - n] = map (\<lambda>x. x - n) (filter (data_pos fmt buf) [a..<b])"
    using assms(3) data_pos_drop(1) [OF assms(1,2)] by (auto simp: upt_shift filter_map o_def intro!: arg_cong [of _ _ "map _"] filter_cong)
  moreover have "list_all (valid_page fmt (drop n buf)) [a - n..<b - n]"
    using assms(3,4) data_pos_drop(2) [OF assms(1,2)] by (auto simp: upt_shift list_all_iff laid_out_def)
  moreover have "list_all (\<lambda>x. x < length (drop n buf)) (map (\<lambda>x. x - n) (positions rs))"
    using assms(4) ge unfolding laid_out_def by (fastforce simp: list_all_iff)
  moreover have "hd (map (\<lambda>x. x - n) (positions rs)) = a - n"
    using assms(4) unfolding laid_out_def by (metis hd_map)
  ultimately show ?thesis
    using assms(4) unfolding laid_out_def positions_shift [OF ge] by (metis map_is_Nil_conv)
qed

lemma gather_drop:
  "list_all (\<lambda>x. n \<le> x) (positions rs) \<Longrightarrow> gather (drop n buf) (map (\<lambda>(off, len). (off - n, len)) rs) = gather buf rs"
proof (induction rs)
  case (Cons r rs)
  obtain off len where r: "r = (off, len)" by fastforce
  have "len = 0 \<or> n \<le> off" using Cons(2) by (cases len) (auto simp: r list_all_iff)
  then have "slice (off - n) (off - n + len) (drop n buf) = slice off (off + len) buf"
    by (auto simp: slice_def)
  with Cons show ?case by (simp add: r)
qed simp

lemma pending_ok_drop:
  assumes "format_ok fmt" "n mod wf_page_size fmt = 0" "n \<le> p_start_offset p" "pending_ok fmt buf ps stop p"
  shows "pending_ok fmt (drop n buf) (ps - n) (stop - n) (rebase_pending n p)"
    "gather (drop n buf) (p_byte_ranges (rebase_pending n p)) = gather buf (p_byte_ranges p)"
proof -
  have lay: "laid_out fmt buf (p_start_offset p) stop (p_byte_ranges p)" using assms(4) by (simp add: pending_ok_def)
  then have ge: "list_all (\<lambda>x. n \<le> x) (positions (p_byte_ranges p))"
    using laid_out_data [OF lay] assms(3) by (auto simp: list_all_iff intro: le_trans)
  show gather: "gather (drop n buf) (p_byte_ranges (rebase_pending n p)) = gather buf (p_byte_ranges p)"
    by (simp add: rebase_pending_def gather_drop [OF ge])
  have "wf_align fmt dvd n" using assms(1,2) by (auto simp: format_ok_def intro: dvd_trans)
  then have "(p_start_offset p - n) mod wf_align fmt = 0"
    using assms(4) by (auto simp: pending_ok_def intro: dvd_diff_nat)
  then show "pending_ok fmt (drop n buf) (ps - n) (stop - n) (rebase_pending n p)"
    using assms(3,4) laid_out_drop [OF assms(1,2,3) lay] gather positions_shift [OF ge]
    by (auto simp: pending_ok_def rebase_pending_def list_all_iff split: option.splits)
qed

lemma truncate_first_segment_ok:
  assumes "format_ok fmt" "w_seg_size w mod wf_page_size fmt = 0" "walker_ok fmt w" "first_segment_ready w"
  shows "walker_ok fmt (truncate_first_segment w)"
    "frontier (truncate_first_segment w) = frontier w - w_seg_size w"
    "w_buf (truncate_first_segment w) = drop (w_seg_size w) (w_buf w)"
    "w_seg_size (truncate_first_segment w) = w_seg_size w"
    "w_zero_stitch (truncate_first_segment w) = w_zero_stitch w"
proof -
  let ?n = "w_seg_size w" and ?w = "truncate_first_segment w"
  show "w_buf ?w = drop ?n (w_buf w)" "w_seg_size ?w = ?n" "w_zero_stitch ?w = w_zero_stitch w"
    by (simp_all add: truncate_first_segment_def Let_def)
  have pg: "page_ok fmt w" using assms(3) by (simp add: walker_ok_def)
  show "walker_ok fmt ?w" "frontier ?w = frontier w - ?n"
  proof (atomize (full), cases "?n \<le> w_page_start w")
    case False
    have "w_pending w = None"
      using assms(3,4) False by (auto simp: walker_ok_def pending_ok_def first_segment_ready_def split: option.splits)
    moreover have "w_page_start w + wf_page_size fmt \<le> ?n"
    proof -
      have "wf_page_size fmt dvd w_page_start w" "wf_page_size fmt dvd ?n" using pg assms(2) by (auto simp: page_ok_def)
      then obtain a b where "w_page_start w = wf_page_size fmt * a" "?n = wf_page_size fmt * b" by (auto elim!: dvdE)
      then show ?thesis using False by (metis Suc_leI mult_Suc_right mult_le_mono2 mult_less_cancel1 not_le add.commute)
    qed
    then have "w_page_cursor w \<le> ?n" using pg by (simp add: page_ok_def)
    ultimately show "walker_ok fmt ?w \<and> frontier ?w = frontier w - ?n"
      using False by (simp add: truncate_first_segment_def Let_def walker_ok_def page_ok_def frontier_def)
  next
    case True
    have "page_ok fmt ?w"
    proof (cases "w_page_magic w = 0")
      case magic: True
      then show ?thesis using pg True assms(2)
        by (auto simp: page_ok_def truncate_first_segment_def Let_def dvd_diff_nat)
    next
      case False
      then obtain rem where h: "parse_page_header fmt (w_buf w) (w_page_start w) = Inr (ValidHeader (w_page_magic w) (w_page_data_start w) rem)"
        using pg by (auto simp: page_ok_def)
      have "?n \<le> w_page_data_start w" using parse_page_header_valid(3) [OF assms(1) h] True by simp
      then have "parse_page_header fmt (drop ?n (w_buf w)) (w_page_start w - ?n) = Inr (ValidHeader (w_page_magic w) (w_page_data_start w - ?n) rem)"
        using h True by (simp add: parse_valid_drop)
      then show ?thesis using pg True assms(2) False
        by (auto simp: page_ok_def truncate_first_segment_def Let_def dvd_diff_nat)
    qed
    moreover have "pending_ok fmt (drop ?n (w_buf w)) (w_page_start w - ?n) (w_page_cursor w - ?n) (rebase_pending ?n p)"
      if "w_pending w = Some p" for p
      using that assms(3,4) by (intro pending_ok_drop [OF assms(1,2)]) (auto simp: walker_ok_def first_segment_ready_def)
    ultimately show "walker_ok fmt ?w \<and> frontier ?w = frontier w - ?n"
      using True by (auto simp: walker_ok_def frontier_def truncate_first_segment_def Let_def rebase_pending_def split: option.splits)
  qed
qed

lemma take_scatter:
  assumes "list_all (\<lambda>x. x < length buf) (positions rs)" "length new = length (positions rs)" "\<And>x. x \<in> set (positions rs) \<Longrightarrow> k \<le> x"
  shows "take k (scatter rs new buf) = take k buf"
proof (rule nth_equalityI)
  show "length (take k (scatter rs new buf)) = length (take k buf)" by (simp add: length_scatter [OF assms(1,2)])
  fix i assume "i < length (take k (scatter rs new buf))"
  then have i: "i < k" "i < length buf" by (simp_all add: length_scatter [OF assms(1,2)])
  then have "i \<notin> set (positions rs)" using assms(3) by (meson not_le)
  then show "take k (scatter rs new buf) ! i = take k buf ! i"
    using nth_scatter_other [OF assms(1,2) _ i(2)] i by simp
qed

lemma last_positions:
  assumes "list_all (\<lambda>r. 0 < snd r) rs" "rs \<noteq> []"
  shows "positions rs \<noteq> []" "Suc (last (positions rs)) = fst (last rs) + snd (last rs)"
proof -
  obtain qs off len where rs: "rs = qs @ [(off, len)]" using assms(2) by (metis append_butlast_last_id surj_pair)
  have "0 < len" using assms(1) by (simp add: rs)
  then show "positions rs \<noteq> []" "Suc (last (positions rs)) = fst (last rs) + snd (last rs)" by (simp_all add: rs)
qed

lemma record_end_bounds:
  assumes "record_ok fmt buf stop c"
  shows "c_byte_ranges c \<noteq> []" "c_start_offset c < fst (last (c_byte_ranges c)) + snd (last (c_byte_ranges c))"
    "fst (last (c_byte_ranges c)) + snd (last (c_byte_ranges c)) \<le> stop"
    "fst (last (c_byte_ranges c)) + snd (last (c_byte_ranges c)) \<le> length buf"
proof -
  let ?rs = "c_byte_ranges c"
  have lay: "laid_out fmt buf (c_start_offset c) stop ?rs" and pos: "list_all (\<lambda>r. 0 < snd r) ?rs"
    using assms by (simp_all add: record_ok_def)
  have "positions ?rs \<noteq> []" using lay unfolding laid_out_def by blast
  then show ne: "?rs \<noteq> []" by auto
  note lp = last_positions [OF pos ne]
  have mem: "last (positions ?rs) \<in> set (positions ?rs)" using lp(1) by simp
  have "last (positions ?rs) < length buf" using lay mem unfolding laid_out_def list_all_iff by blast
  moreover have "c_start_offset c \<le> last (positions ?rs)" "last (positions ?rs) < stop" using laid_out_data [OF lay mem] by simp_all
  ultimately show "c_start_offset c < fst (last ?rs) + snd (last ?rs)" "fst (last ?rs) + snd (last ?rs) \<le> stop"
    "fst (last ?rs) + snd (last ?rs) \<le> length buf"
    using lp(2) by linarith+
qed

lemma rewrite_in_place_eq:
  assumes "c_byte_ranges c = [(off, len)]" "length new = len"
  shows "rewrite_record_in_place off len (\<lambda>_. Inr new) w = Inr (rewrite_record [(off, len)] new w)"
  using assms by (simp add: rewrite_record_in_place_def rewrite_record_def)

end
