(* ===== verification/Noop_Rewrite.thy ===== *)
theory Noop_Rewrite
  imports WAL_Page
begin

text \<open>
  Replacing a dropped record by an \<open>XLOG_NOOP\<close> of the same length
  (\<open>src/src/filter/rewrite.rs\<close>). The checksum and the constants of the record format come
  from other crates: \<open>crc\<close> is \<open>crc32c_append\<close>, and \<open>noop_format\<close> holds the resource
  manager id and the two data markers. The process-wide table of body checksums is an explicit
  argument that the operations return updated.
\<close>

record noop_format =
  nf_rmid_xlog :: u8
  nf_data_short :: u8
  nf_data_long :: u8

type_synonym crc_fun = "u32 \<Rightarrow> bytes \<Rightarrow> u32"
type_synonym crc_cache = "nat \<Rightarrow> u64"

datatype rewrite_error = TooSmall u32 | SliceOutOfRange

definition XLOG_NOOP :: u8 where "XLOG_NOOP = 0x20"
definition CRC_OFFSET :: nat where "CRC_OFFSET = 20"
definition REC_HEADER :: nat where "REC_HEADER = 24"
definition MIN_SHORT_BODY :: nat where "MIN_SHORT_BODY = 2"
definition MIN_LONG_BODY :: nat where "MIN_LONG_BODY = 5"
definition MAX_SHORT_BODY :: nat where "MAX_SHORT_BODY = MIN_SHORT_BODY + 255"
definition CACHE_SLOTS :: nat where "CACHE_SLOTS = 8192"

definition cache_empty :: crc_cache where
  "cache_empty = (\<lambda>_. 0)"

text \<open>The table slot keeps the checksum in its low half; the high half marks it as filled.\<close>

definition noop_body_crc :: "crc_fun \<Rightarrow> crc_cache \<Rightarrow> bytes \<Rightarrow> u32 \<times> crc_cache" where
  "noop_body_crc crc cache body =
     (if length body < CACHE_SLOTS then
        let cached = cache (length body)
        in if drop_bit 32 cached \<noteq> 0 then (ucast cached, cache)
           else let c = crc 0 body
                in (c, cache(length body := (push_bit 32 1 OR ucast c)))
      else (crc 0 body, cache))"

definition noop_body :: "noop_format \<Rightarrow> nat \<Rightarrow> bytes" where
  "noop_body nf body_len =
     (if body_len \<le> MAX_SHORT_BODY
      then put_range 0 [nf_data_short nf, word_of_nat (body_len - MIN_SHORT_BODY)] (replicate body_len 0)
      else put_range 0 (nf_data_long nf # le_bytes 4 (body_len - MIN_LONG_BODY)) (replicate body_len 0))"

definition noop_header :: "noop_format \<Rightarrow> bytes \<Rightarrow> bytes" where
  "noop_header nf record_bytes =
     put_range 20 (replicate 4 0)
       (put_range 16 [XLOG_NOOP, nf_rmid_xlog nf, 0, 0]
         (put_range 4 (replicate 4 0) (take REC_HEADER record_bytes)))"

definition noop_replace ::
  "crc_fun \<Rightarrow> noop_format \<Rightarrow> crc_cache \<Rightarrow> bytes \<Rightarrow> (rewrite_error, bytes) result \<times> crc_cache" where
  "noop_replace crc nf cache record_bytes =
     (if length record_bytes < 4 then (Inl SliceOutOfRange, cache)
      else
        let xl_tot_len = u32_at record_bytes 0;
            total_len = unat xl_tot_len
        in if total_len \<noteq> length record_bytes then (Inl (TooSmall xl_tot_len), cache)
           else
             let body_len = total_len - REC_HEADER
             in if body_len < MIN_SHORT_BODY then (Inl (TooSmall xl_tot_len), cache)
                else
                  let header = noop_header nf record_bytes;
                      body = noop_body nf body_len;
                      (body_crc, cache) = noop_body_crc crc cache body;
                      c = crc body_crc (take CRC_OFFSET header)
                  in (Inr (put_range CRC_OFFSET (le_bytes 4 (unat c)) header @ body), cache))"

definition compute_crc :: "crc_fun \<Rightarrow> bytes \<Rightarrow> u32" where
  "compute_crc crc record_bytes =
     (let c = 0;
          c = crc c (drop REC_HEADER record_bytes);
          c = crc c (take CRC_OFFSET record_bytes)
      in c)"

section \<open>The record that replaces\<close>

text \<open>The specification: length and \<open>xl_prev\<close> of the old record, a cleared transaction id, the
  NOOP identification, the body for the length, and the checksum over body and header.\<close>

definition noop_record :: "crc_fun \<Rightarrow> noop_format \<Rightarrow> bytes \<Rightarrow> bytes" where
  "noop_record crc nf r =
     (let head = take 4 r @ replicate 4 0 @ slice 8 16 r @ [XLOG_NOOP, nf_rmid_xlog nf, 0, 0];
          body = noop_body nf (length r - REC_HEADER)
      in head @ le_bytes 4 (unat (crc (crc 0 body) head)) @ body)"

definition cache_ok :: "crc_fun \<Rightarrow> noop_format \<Rightarrow> crc_cache \<Rightarrow> bool" where
  "cache_ok crc nf cache \<longleftrightarrow>
     (\<forall>n. drop_bit 32 (cache n) \<noteq> 0 \<longrightarrow> ucast (cache n) = crc 0 (noop_body nf n))"

lemma cache_empty_ok: "cache_ok crc nf cache_empty"
  by (simp add: cache_ok_def cache_empty_def)

lemma slot_low: "ucast ((4294967296 :: u64) OR ucast c) = (c :: u32)"
proof (rule bit_word_eqI)
  fix n assume n: "n < LENGTH(32)"
  have "(4294967296 :: u64) = 2 ^ 32" by simp
  then have "\<not> bit (4294967296 :: u64) n" using n by (simp only: bit_exp_iff) simp
  then show "bit (ucast ((4294967296 :: u64) OR ucast c) :: u32) n = bit c n" using n by (simp add: bit_simps)
qed

lemma noop_body_crc_ok:
  assumes "cache_ok crc nf cache" "length body = n" "body = noop_body nf n" "noop_body_crc crc cache body = (c, cache')"
  shows "c = crc 0 body" "cache_ok crc nf cache'"
  using assms by (auto simp: noop_body_crc_def cache_ok_def Let_def slot_low split: if_split_asm)

lemma length_noop_body: "MIN_SHORT_BODY \<le> n \<Longrightarrow> length (noop_body nf n) = n"
  by (auto simp: noop_body_def MIN_SHORT_BODY_def MAX_SHORT_BODY_def)

lemma slice_then_drop: "a \<le> b \<Longrightarrow> slice a b r @ drop b r = drop a r"
  by (metis append_take_drop_id drop_drop le_add_diff_inverse2 slice_def)

lemma split_header:
  assumes "24 \<le> length r"
  obtains a b p i k rest where "r = a @ b @ p @ i @ k @ rest" "length a = 4" "length b = 4" "length p = 8" "length i = 4" "length k = 4"
proof
  show "r = take 4 r @ slice 4 8 r @ slice 8 16 r @ slice 16 20 r @ slice 20 24 r @ drop 24 r"
    by (simp add: slice_then_drop)
qed (use assms in simp_all)

lemma noop_header_eq:
  assumes "24 \<le> length r"
  shows "noop_header nf r = take 4 r @ replicate 4 0 @ slice 8 16 r @ [XLOG_NOOP, nf_rmid_xlog nf, 0, 0] @ replicate 4 0"
proof -
  obtain a b p i k rest where r: "r = a @ b @ p @ i @ k @ rest"
    and l: "length a = 4" "length b = 4" "length p = 8" "length i = 4" "length k = 4"
    by (rule split_header [OF assms])
  have put: "put_range (length xs) ys (xs @ zs @ vs) = xs @ ys @ vs" if "length ys = length zs" for xs ys zs vs :: bytes
    using that by (simp add: put_range_def)
  have "take REC_HEADER r = a @ b @ p @ i @ k" using l by (simp add: r REC_HEADER_def)
  then have "put_range 4 (replicate 4 0) (take REC_HEADER r) = (a @ replicate 4 0 @ p) @ i @ k"
    using put [of "replicate 4 0" b a "p @ i @ k"] l by simp
  then have "put_range 16 [XLOG_NOOP, nf_rmid_xlog nf, 0, 0] (put_range 4 (replicate 4 0) (take REC_HEADER r)) =
      (a @ replicate 4 0 @ p @ [XLOG_NOOP, nf_rmid_xlog nf, 0, 0]) @ k @ []"
    using put [of "[XLOG_NOOP, nf_rmid_xlog nf, 0, 0]" i "a @ replicate 4 0 @ p" k] l by simp
  then have "noop_header nf r = a @ replicate 4 0 @ p @ [XLOG_NOOP, nf_rmid_xlog nf, 0, 0] @ replicate 4 0"
    using put [of "replicate 4 0" k "a @ replicate 4 0 @ p @ [XLOG_NOOP, nf_rmid_xlog nf, 0, 0]" "[]"] l
    by (simp add: noop_header_def)
  moreover have "take 4 r = a" "slice 8 16 r = p" using l by (simp_all add: r slice_def)
  ultimately show ?thesis by simp
qed

lemma noop_replace_eq:
  assumes "cache_ok crc nf cache" "length r = unat (u32_at r 0)" "26 \<le> length r"
  shows "\<exists>cache'. noop_replace crc nf cache r = (Inr (noop_record crc nf r), cache') \<and> cache_ok crc nf cache'"
proof -
  let ?n = "length r - REC_HEADER" and ?body = "noop_body nf (length r - REC_HEADER)"
  let ?head = "take 4 r @ replicate 4 0 @ slice 8 16 r @ [XLOG_NOOP, nf_rmid_xlog nf, 0, 0]"
  obtain c cache' where c: "noop_body_crc crc cache ?body = (c, cache')" by fastforce
  have n: "MIN_SHORT_BODY \<le> ?n" using assms(3) by (simp add: MIN_SHORT_BODY_def REC_HEADER_def)
  note ok = noop_body_crc_ok [OF assms(1) length_noop_body [OF n] refl c]
  have len: "length ?head = 20" using assms(3) by simp
  have head: "noop_header nf r = ?head @ replicate 4 0" using noop_header_eq [of r nf] assms(3) by simp
  have "take CRC_OFFSET (?head @ replicate 4 0) = ?head" using len by (simp add: CRC_OFFSET_def)
  moreover have "put_range CRC_OFFSET xs (?head @ replicate 4 0) = ?head @ xs" if "length xs = 4" for xs
    using len that by (simp add: put_range_def CRC_OFFSET_def)
  ultimately have "noop_replace crc nf cache r = (Inr (noop_record crc nf r), cache')"
    using assms(2,3) c n ok(1) head
    by (simp add: noop_replace_def noop_record_def Let_def not_less)
  then show ?thesis using ok(2) by blast
qed

lemma noop_record_fields:
  assumes "26 \<le> length r"
  shows "length (noop_record crc nf r) = length r" "take 4 (noop_record crc nf r) = take 4 r"
    "slice 8 16 (noop_record crc nf r) = slice 8 16 r" "u32_at (noop_record crc nf r) 20 = compute_crc crc (noop_record crc nf r)"
    "drop REC_HEADER (noop_record crc nf r) = noop_body nf (length r - REC_HEADER)"
proof -
  let ?body = "noop_body nf (length r - REC_HEADER)"
  let ?head = "take 4 r @ replicate 4 0 @ slice 8 16 r @ [XLOG_NOOP, nf_rmid_xlog nf, 0, 0]"
  let ?c = "le_bytes 4 (unat (crc (crc 0 ?body) ?head))"
  have r: "noop_record crc nf r = ?head @ ?c @ ?body" by (simp add: noop_record_def Let_def)
  have len: "length ?head = 20" "length (slice 8 16 r) = 8" using assms by simp_all
  have body: "length ?body = length r - REC_HEADER"
    using assms by (intro length_noop_body) (simp add: MIN_SHORT_BODY_def REC_HEADER_def)
  show "length (noop_record crc nf r) = length r" using assms body len by (simp add: r REC_HEADER_def)
  show "take 4 (noop_record crc nf r) = take 4 r" using assms by (simp add: r)
  show "slice 8 16 (noop_record crc nf r) = slice 8 16 r" using assms len(2) by (simp add: r slice_def [of 8 16])
  have crc_field: "slice 20 (20 + 4) (noop_record crc nf r) = ?c" unfolding r slice_def using len by simp
  show drop: "drop REC_HEADER (noop_record crc nf r) = ?body" unfolding r REC_HEADER_def using len by simp
  have "take CRC_OFFSET (noop_record crc nf r) = ?head" unfolding r CRC_OFFSET_def using len by simp
  then show "u32_at (noop_record crc nf r) 20 = compute_crc crc (noop_record crc nf r)"
    unfolding u32_at_def crc_field compute_crc_def Let_def drop by (simp add: word_le_roundtrip)
qed

lemma noop_replace_refused:
  assumes "\<not> (length r = unat (u32_at r 0) \<and> 26 \<le> length r)"
  shows "\<exists>e. noop_replace crc nf cache r = (Inl e, cache)"
  using assms by (auto simp: noop_replace_def Let_def MIN_SHORT_BODY_def REC_HEADER_def)

lemma noop_replace_result:
  assumes "cache_ok crc nf cache" "noop_replace crc nf cache r = (res, cache')"
  shows "cache_ok crc nf cache'" "res = Inr new \<Longrightarrow> length new = length r"
proof -
  have "cache_ok crc nf cache' \<and> (\<forall>new. res = Inr new \<longrightarrow> length new = length r)"
  proof (cases "length r = unat (u32_at r 0) \<and> 26 \<le> length r")
    case True
    then show ?thesis using noop_replace_eq [OF assms(1)] noop_record_fields(1) assms(2) by fastforce
  next
    case False
    then show ?thesis using noop_replace_refused [OF False, of crc nf cache] assms by auto
  qed
  then show "cache_ok crc nf cache'" "res = Inr new \<Longrightarrow> length new = length r" by blast+
qed

text \<open>C28: NOOP replacement agrees with its specification whatever the body-checksum table has cached: it
  succeeds exactly on a record whose bytes match its declared length and hold at least a two-byte
  body, and then returns the specified record: same length, same \<open>xl_tot_len\<close> and
  \<open>xl_prev\<close>, a body that depends on its length only, and a stored checksum that equals the checksum
  computed over the result. The table stays valid.\<close>

theorem noop_replace_correct:
  assumes "cache_ok crc nf cache"
  shows "case noop_replace crc nf cache r of
      (Inr r', cache') \<Rightarrow>
        length r = unat (u32_at r 0) \<and> 26 \<le> length r \<and> r' = noop_record crc nf r \<and> cache_ok crc nf cache' \<and>
        length r' = length r \<and> take 4 r' = take 4 r \<and> slice 8 16 r' = slice 8 16 r \<and>
        drop REC_HEADER r' = noop_body nf (length r - REC_HEADER) \<and> u32_at r' CRC_OFFSET = compute_crc crc r'
    | (Inl e, cache') \<Rightarrow> (length r \<noteq> unat (u32_at r 0) \<or> length r < 26) \<and> cache' = cache"
proof (cases "length r = unat (u32_at r 0) \<and> 26 \<le> length r")
  case True
  then obtain cache' where "noop_replace crc nf cache r = (Inr (noop_record crc nf r), cache')" "cache_ok crc nf cache'"
    using noop_replace_eq [OF assms] by blast
  then show ?thesis using True noop_record_fields [of r] by (simp add: CRC_OFFSET_def)
next
  case False
  then obtain e where "noop_replace crc nf cache r = (Inl e, cache)" using noop_replace_refused by blast
  then show ?thesis using False by auto
qed

theorem noop_replace_correct_witness:
  "\<exists>r' cache'. noop_replace (\<lambda>c bs. c + sum_list (map ucast bs)) \<lparr>nf_rmid_xlog = 0, nf_data_short = 255, nf_data_long = 254\<rparr> cache_empty
     ([30, 0, 0, 0] @ replicate 26 7) = (Inr r', cache') \<and> length r' = 30 \<and> slice 8 16 r' = replicate 8 7"
proof -
  let ?crc = "\<lambda>c bs. c + sum_list (map ucast bs)" and ?nf = "\<lparr>nf_rmid_xlog = 0, nf_data_short = 255, nf_data_long = 254\<rparr>"
  let ?r = "[30, 0, 0, 0] @ replicate 26 (7 :: u8)"
  have len: "length ?r = unat (u32_at ?r 0)" by (simp add: u32_at_def slice_def)
  have prev: "slice 8 16 ?r = replicate 8 7" by (simp add: slice_def)
  note t = noop_replace_correct [of ?crc ?nf cache_empty ?r, OF cache_empty_ok]
  show ?thesis
  proof (cases "noop_replace ?crc ?nf cache_empty ?r")
    case (Pair res cache')
    with t len prev show ?thesis by (cases res) auto
  qed
qed

end
