(* ===== verification/Resume_Prefix.thy ===== *)
theory Resume_Prefix
  imports WAL_Page
begin

text \<open>
  The filtered continuation kept across a restart (\<open>src/src/source/resume_prefix.rs\<close>): when a
  record that was rewritten before the restart crosses the resume position, its retained bytes are
  read back from the archived segments and spliced over the bytes the source sends again. The
  segment files are an argument (\<open>files\<close>), keyed by directory and start position; positions are
  naturals.
\<close>

datatype prefix_error =
    PageError walk_error
  | ReadFailed nat
  | WrongSegmentSize nat nat
  | IncompletePage nat
  | AddressMismatch nat
  | LengthMismatch nat
  | FlagMissing nat
  | MissingSegment nat
  | HeaderDiffers nat

datatype file_read = NotFound | IoFailed | Contents bytes

record resume_prefix =
  rp_start_lsn :: nat
  rp_bytes :: bytes
  rp_headers :: "(nat \<times> nat) list"

type_synonym 'd segment_files = "'d \<Rightarrow> nat \<Rightarrow> file_read"

definition read_segment :: "'d segment_files \<Rightarrow> nat \<Rightarrow> 'd \<Rightarrow> nat \<Rightarrow> (prefix_error, bytes option) result" where
  "read_segment files seg_size dir lsn =
     (case files dir (lsn div seg_size) of
        NotFound \<Rightarrow> Inr None
      | IoFailed \<Rightarrow> Inl (ReadFailed lsn)
      | Contents bs \<Rightarrow> if length bs = seg_size then Inr (Some bs) else Inl (WrongSegmentSize lsn (length bs)))"

definition page_info :: "bytes \<Rightarrow> nat \<Rightarrow> u16" where
  "page_info segment page = u16_at segment (page + 2)"

definition page_address :: "bytes \<Rightarrow> nat \<Rightarrow> nat" where
  "page_address segment page = le_nat (slice (page + 8) (page + 16) segment)"

definition prefix_end_lsn :: "resume_prefix \<Rightarrow> nat" where
  "prefix_end_lsn p = rp_start_lsn p + length (rp_bytes p)"

text \<open>One page of the continuation: the early returns of the loop body, or the page's data start
  and the remaining length it declares.\<close>

definition prefix_page ::
  "wal_format \<Rightarrow> u16 \<Rightarrow> bytes \<Rightarrow> nat \<Rightarrow> nat \<Rightarrow> nat option \<Rightarrow> (prefix_error, (nat \<times> nat) option) result" where
  "prefix_page fmt cont_flag segment page page_lsn remaining =
     (case parse_page_header fmt segment page of
        Inl e \<Rightarrow> Inl (PageError e)
      | Inr parsed \<Rightarrow>
          if remaining = None \<and> parsed = ZeroPage then Inr None
          else (case parsed of
             ValidHeader magic data_start remaining_data_len \<Rightarrow>
               let address = page_address segment page
               in if remaining = None \<and> address \<noteq> page_lsn then Inr None
                  else if address \<noteq> page_lsn then Inl (AddressMismatch page_lsn)
                  else if remaining = None \<and> remaining_data_len = 0 then Inr None
                  else if \<not> (remaining = None \<or> remaining = Some remaining_data_len) then Inl (LengthMismatch page_lsn)
                  else if page_info segment page AND cont_flag = 0 then Inl (FlagMissing page_lsn)
                  else Inr (Some (data_start, remaining_data_len))
           | _ \<Rightarrow> Inl (IncompletePage page_lsn)))"

partial_function (option) prefix_read ::
  "wal_format \<Rightarrow> u16 \<Rightarrow> 'd segment_files \<Rightarrow> nat \<Rightarrow> 'd \<Rightarrow> bytes \<Rightarrow> nat \<Rightarrow> nat option \<Rightarrow> resume_prefix \<Rightarrow>
   (prefix_error, resume_prefix option) result option" where
  "prefix_read fmt cont_flag files seg_size dir segment page_lsn remaining prefix =
     (let page = page_lsn mod seg_size
      in case prefix_page fmt cont_flag segment page page_lsn remaining of
           Inl e \<Rightarrow> Some (Inl e)
         | Inr None \<Rightarrow> Some (Inr None)
         | Inr (Some (data_start, remaining_data_len)) \<Rightarrow>
             let take_now = min remaining_data_len (page + wf_page_size fmt - data_start);
                 offset = length (rp_bytes prefix);
                 prefix = prefix\<lparr>rp_headers := rp_headers prefix @ [(offset, offset + data_start - page)],
                                 rp_bytes := rp_bytes prefix @ slice page (data_start + take_now) segment\<rparr>
             in if take_now = remaining_data_len then Some (Inr (Some prefix))
                else
                  let remaining = Some (remaining_data_len - take_now);
                      page_lsn = page_lsn + wf_page_size fmt
                  in if page_lsn mod seg_size = 0 then
                       (case read_segment files seg_size dir page_lsn of
                          Inl e \<Rightarrow> Some (Inl e)
                        | Inr None \<Rightarrow> Some (Inl (MissingSegment page_lsn))
                        | Inr (Some segment) \<Rightarrow>
                            prefix_read fmt cont_flag files seg_size dir segment page_lsn remaining prefix)
                     else prefix_read fmt cont_flag files seg_size dir segment page_lsn remaining prefix)"

declare prefix_read.simps [code]

fun prefix_load ::
  "wal_format \<Rightarrow> u16 \<Rightarrow> 'd segment_files \<Rightarrow> nat \<Rightarrow> nat \<Rightarrow> 'd list \<Rightarrow> (prefix_error, resume_prefix option) result option" where
  "prefix_load fmt cont_flag files seg_size start_lsn [] = Some (Inr None)"
| "prefix_load fmt cont_flag files seg_size start_lsn (dir # dirs) =
     (case read_segment files seg_size dir start_lsn of
        Inl e \<Rightarrow> Some (Inl e)
      | Inr None \<Rightarrow> prefix_load fmt cont_flag files seg_size start_lsn dirs
      | Inr (Some segment) \<Rightarrow>
          (case prefix_read fmt cont_flag files seg_size dir segment start_lsn None
                  \<lparr>rp_start_lsn = start_lsn, rp_bytes = [], rp_headers = []\<rparr> of
             None \<Rightarrow> None
           | Some (Inl e) \<Rightarrow> Some (Inl e)
           | Some (Inr (Some prefix)) \<Rightarrow> Some (Inr (Some prefix))
           | Some (Inr None) \<Rightarrow> prefix_load fmt cont_flag files seg_size start_lsn dirs))"

text \<open>Splicing: the header ranges that overlap the chunk are compared first, then the covered
  bytes are replaced.\<close>

fun check_headers :: "resume_prefix \<Rightarrow> bytes \<Rightarrow> nat \<Rightarrow> nat \<Rightarrow> nat \<Rightarrow> (nat \<times> nat) list \<Rightarrow> (prefix_error, unit) result" where
  "check_headers p bs dst src_start src_end [] = Inr ()"
| "check_headers p bs dst src_start src_end ((h_start, h_end) # hs) =
     (let lo = max src_start h_start;
          hi = min src_end h_end
      in if lo < hi \<and> slice (dst + lo - src_start) (dst + hi - src_start) bs \<noteq> slice lo hi (rp_bytes p)
         then Inl (HeaderDiffers (rp_start_lsn p + lo))
         else check_headers p bs dst src_start src_end hs)"

definition prefix_apply :: "resume_prefix \<Rightarrow> nat \<Rightarrow> bytes \<Rightarrow> (prefix_error, bytes) result" where
  "prefix_apply p lsn bs =
     (let from = max lsn (rp_start_lsn p);
          upto = min (lsn + length bs) (prefix_end_lsn p)
      in if upto \<le> from then Inr bs
         else
           let dst = from - lsn;
               src_start = from - rp_start_lsn p;
               src_end = upto - rp_start_lsn p
           in rbind (check_headers p bs dst src_start src_end (rp_headers p))
                (\<lambda>_. Inr (put_range dst (slice src_start src_end (rp_bytes p)) bs)))"

section \<open>Reading the continuation returns\<close>

definition remaining_bound :: "nat option \<Rightarrow> nat" where
  "remaining_bound r = (case r of None \<Rightarrow> 2 ^ 32 | Some n \<Rightarrow> n)"

lemma prefix_page_some:
  assumes "format_ok fmt" "prefix_page fmt cont_flag segment page page_lsn remaining = Inr (Some (d, n))"
  shows "d < page + wf_page_size fmt" "page < d" "n \<le> remaining_bound remaining" "remaining = None \<Longrightarrow> n < 2 ^ 32"
    "remaining = Some r \<Longrightarrow> n = r"
proof -
  obtain m where h: "parse_page_header fmt segment page = Inr (ValidHeader m d n)"
    using assms(2)
    by (auto simp: prefix_page_def Let_def split: sum.splits page_header.splits if_split_asm)
  have "100 < wf_page_size fmt" using assms(1) by (simp add: format_ok_def)
  then show "d < page + wf_page_size fmt" "page < d" using parse_page_header_valid(3,4) [OF assms(1) h] by simp_all
  have n: "n < 2 ^ 32"
    using h unsigned_less [of "u32_at segment (page + 16)", where 'a = nat]
    by (auto simp: parse_page_header_def Let_def split: if_split_asm)
  then show "remaining = None \<Longrightarrow> n < 2 ^ 32" by simp
  show "n \<le> remaining_bound remaining" "remaining = Some r \<Longrightarrow> n = r"
    using assms(2) h n by (auto simp: prefix_page_def Let_def remaining_bound_def split: if_split_asm option.splits)
qed

lemma prefix_read_returns:
  assumes "format_ok fmt"
  shows "\<exists>r. prefix_read fmt cont_flag files seg_size dir segment page_lsn remaining prefix = Some r"
proof (induction "case remaining of None \<Rightarrow> 2 ^ 32 + 1 | Some n \<Rightarrow> n" arbitrary: segment page_lsn remaining prefix rule: less_induct)
  case less
  let ?page = "page_lsn mod seg_size"
  show ?case
  proof (cases "prefix_page fmt cont_flag segment ?page page_lsn remaining")
    case (Inl e)
    then show ?thesis by (subst prefix_read.simps) (simp add: Let_def)
  next
    case (Inr x)
    show ?thesis
    proof (cases x)
      case None
      then show ?thesis using Inr by (subst prefix_read.simps) (simp add: Let_def)
    next
      case (Some dn)
      obtain d n where dn: "dn = (d, n)" by fastforce
      note pp = prefix_page_some [OF assms Inr [unfolded Some dn]]
      let ?t = "min n (?page + wf_page_size fmt - d)"
      have "\<exists>r. prefix_read fmt cont_flag files seg_size dir seg pl (Some (n - ?t)) px = Some r" if "?t \<noteq> n" for seg pl px
      proof (rule less)
        have "0 < ?t" using that pp(1) by simp
        then have "n - ?t < n" using that by simp
        then show "(case Some (n - ?t) of None \<Rightarrow> 2 ^ 32 + 1 | Some n \<Rightarrow> n) < (case remaining of None \<Rightarrow> 2 ^ 32 + 1 | Some n \<Rightarrow> n)"
          using pp(3,4,5) by (auto split: option.splits)
      qed
      then show ?thesis using Inr Some dn
        by (subst prefix_read.simps) (auto simp: Let_def split: sum.split option.split)
    qed
  qed
qed

section \<open>A loaded prefix is well formed\<close>

definition prefix_ok :: "resume_prefix \<Rightarrow> bool" where
  "prefix_ok p \<longleftrightarrow> list_all (\<lambda>(h_start, h_end). h_start \<le> h_end \<and> h_end \<le> length (rp_bytes p)) (rp_headers p)"

lemma prefix_ok_snoc:
  assumes "prefix_ok p" "d \<le> length bs"
  shows "prefix_ok (p\<lparr>rp_headers := rp_headers p @ [(length (rp_bytes p), length (rp_bytes p) + d)], rp_bytes := rp_bytes p @ bs\<rparr>)"
  using assms by (auto simp: prefix_ok_def list_all_iff)

lemma prefix_read_stop:
  assumes "prefix_read fmt cont_flag files seg_size dir segment page_lsn remaining prefix = Some (Inr (Some p))"
  obtains d n where "prefix_page fmt cont_flag segment (page_lsn mod seg_size) page_lsn remaining = Inr (Some (d, n))"
proof (cases "prefix_page fmt cont_flag segment (page_lsn mod seg_size) page_lsn remaining")
  case (Inl e)
  then show ?thesis using assms by (subst (asm) prefix_read.simps) (simp add: Let_def)
next
  case (Inr x)
  then show ?thesis
  proof (cases x)
    case None
    then show ?thesis using assms Inr by (subst (asm) prefix_read.simps) (simp add: Let_def)
  next
    case (Some y)
    then show ?thesis using Inr that by (cases y) simp
  qed
qed

lemma prefix_read_unroll:
  assumes "prefix_page fmt cont_flag segment (page_lsn mod seg_size) page_lsn remaining = Inr (Some (d, n))"
    and "take_now = min n (page_lsn mod seg_size + wf_page_size fmt - d)"
    and "q = prefix\<lparr>rp_headers := rp_headers prefix @ [(length (rp_bytes prefix), length (rp_bytes prefix) + d - page_lsn mod seg_size)],
      rp_bytes := rp_bytes prefix @ slice (page_lsn mod seg_size) (d + take_now) segment\<rparr>"
  shows "prefix_read fmt cont_flag files seg_size dir segment page_lsn remaining prefix =
    (if take_now = n then Some (Inr (Some q))
     else if (page_lsn + wf_page_size fmt) mod seg_size = 0 then
       (case read_segment files seg_size dir (page_lsn + wf_page_size fmt) of
          Inl e \<Rightarrow> Some (Inl e)
        | Inr None \<Rightarrow> Some (Inl (MissingSegment (page_lsn + wf_page_size fmt)))
        | Inr (Some seg) \<Rightarrow>
            prefix_read fmt cont_flag files seg_size dir seg (page_lsn + wf_page_size fmt) (Some (n - take_now)) q)
     else prefix_read fmt cont_flag files seg_size dir segment (page_lsn + wf_page_size fmt) (Some (n - take_now)) q)"
  unfolding assms(2,3) by (subst prefix_read.simps) (simp only: Let_def assms(1) sum.case option.case prod.case)

lemma read_segment_length:
  "read_segment files seg_size dir lsn = Inr (Some seg) \<Longrightarrow> length seg = seg_size"
  by (simp add: read_segment_def split: file_read.splits if_split_asm)

lemma page_in_segment:
  assumes "seg_size mod PS = 0" "lsn mod PS = 0" "0 < (seg_size :: nat)"
  shows "lsn mod seg_size + PS \<le> seg_size"
proof -
  obtain k where k: "seg_size = PS * k" using assms(1) by auto
  obtain l where l: "lsn = PS * l" using assms(2) by auto
  have "0 < PS" "0 < k" using assms(3) k by (auto intro: Nat.gr0I)
  have "lsn mod seg_size = PS * (l mod k)" by (simp add: k l)
  moreover have "PS * Suc (l mod k) \<le> PS * k" using \<open>0 < k\<close> by (intro mult_le_mono2) (simp add: Suc_le_eq)
  ultimately show ?thesis by (simp add: k)
qed

lemma prefix_page_extends:
  assumes "format_ok fmt" "prefix_page fmt cont_flag segment page page_lsn remaining = Inr (Some (d, n))"
    "page + wf_page_size fmt \<le> length segment" "prefix_ok prefix"
  shows "prefix_ok (prefix\<lparr>rp_headers := rp_headers prefix @ [(length (rp_bytes prefix), length (rp_bytes prefix) + d - page)],
      rp_bytes := rp_bytes prefix @ slice page (d + min n (page + wf_page_size fmt - d)) segment\<rparr>)"
proof -
  note pp = prefix_page_some(1,2) [OF assms(1,2)]
  have "d - page \<le> length (slice page (d + min n (page + wf_page_size fmt - d)) segment)"
    using pp assms(3) by simp
  then show ?thesis using prefix_ok_snoc [OF assms(4)] pp(2) by fastforce
qed

lemma prefix_read_ok:
  assumes "prefix_read fmt cont_flag files seg_size dir segment page_lsn remaining prefix = Some (Inr (Some p))"
    and fmt: "format_ok fmt" "seg_size mod wf_page_size fmt = 0" "0 < seg_size"
    and "length segment = seg_size" "page_lsn mod wf_page_size fmt = 0" "prefix_ok prefix"
  shows "prefix_ok p \<and> rp_start_lsn p = rp_start_lsn prefix"
  using assms(1,5,6,7)
proof (induction "case remaining of None \<Rightarrow> 2 ^ 32 + 1 | Some n \<Rightarrow> n" arbitrary: segment page_lsn remaining prefix rule: less_induct)
  case less
  define page where "page = page_lsn mod seg_size"
  define pl where "pl = page_lsn + wf_page_size fmt"
  obtain d n where pg: "prefix_page fmt cont_flag segment page page_lsn remaining = Inr (Some (d, n))"
    using prefix_read_stop [OF less.prems(1)] unfolding page_def .
  note pp = prefix_page_some [OF fmt(1) pg]
  define t where "t = min n (page + wf_page_size fmt - d)"
  define q where "q = prefix\<lparr>rp_headers := rp_headers prefix @ [(length (rp_bytes prefix), length (rp_bytes prefix) + d - page)],
      rp_bytes := rp_bytes prefix @ slice page (d + t) segment\<rparr>"
  note unroll = prefix_read_unroll [OF pg [unfolded page_def] t_def [unfolded page_def] q_def [unfolded page_def], folded pl_def]
  have "page + wf_page_size fmt \<le> length segment"
    unfolding page_def using page_in_segment [OF fmt(2) less.prems(3) fmt(3)] less.prems(2) by simp
  then have q: "prefix_ok q" unfolding q_def t_def by (rule prefix_page_extends [OF fmt(1) pg _ less.prems(4)])
  have start: "rp_start_lsn q = rp_start_lsn prefix" by (simp add: q_def)
  show ?case
  proof (cases "t = n")
    case True
    then have "p = q" using less.prems(1) unfolding unroll by simp
    then show ?thesis using q start by simp
  next
    case False
    have "0 < t" using False pp(1) by (simp add: t_def)
    then have dec: "(case Some (n - t) of None \<Rightarrow> 2 ^ 32 + 1 | Some n \<Rightarrow> n) < (case remaining of None \<Rightarrow> 2 ^ 32 + 1 | Some n \<Rightarrow> n)"
      using pp(3,4,5) False by (cases remaining) (auto simp: t_def)
    have pl0: "pl mod wf_page_size fmt = 0" using less.prems(3) by (simp add: pl_def)
    obtain seg where seg: "prefix_read fmt cont_flag files seg_size dir seg pl (Some (n - t)) q = Some (Inr (Some p))" "length seg = seg_size"
    proof (cases "pl mod seg_size = 0")
      case True
      obtain x where x: "read_segment files seg_size dir pl = Inr x"
        using less.prems(1) False True unfolding unroll by (cases "read_segment files seg_size dir pl") simp_all
      then obtain seg where "x = Some seg" using less.prems(1) False True unfolding unroll by (cases x) simp_all
      then show thesis using that [of seg] x less.prems(1) False True read_segment_length [of files seg_size dir pl seg] unfolding unroll by simp
    next
      case no: False
      then show thesis using that [of segment] less.prems(1,2) False unfolding unroll by simp
    qed
    from less.hyps [OF dec seg(1,2) pl0 q] start show ?thesis by simp
  qed
qed

section \<open>Splicing, byte by byte\<close>

definition covered :: "resume_prefix \<Rightarrow> nat \<Rightarrow> bool" where
  "covered p x \<longleftrightarrow> rp_start_lsn p \<le> x \<and> x < prefix_end_lsn p"

definition in_header :: "resume_prefix \<Rightarrow> nat \<Rightarrow> bool" where
  "in_header p x \<longleftrightarrow> list_ex (\<lambda>(h_start, h_end). rp_start_lsn p + h_start \<le> x \<and> x < rp_start_lsn p + h_end) (rp_headers p)"

definition spliced :: "resume_prefix \<Rightarrow> nat \<Rightarrow> bytes \<Rightarrow> bytes" where
  "spliced p lsn bs =
     map (\<lambda>i. if covered p (lsn + i) then rp_bytes p ! (lsn + i - rp_start_lsn p) else bs ! i) [0..<length bs]"

definition headers_agree :: "resume_prefix \<Rightarrow> nat \<Rightarrow> bytes \<Rightarrow> bool" where
  "headers_agree p lsn bs \<longleftrightarrow>
     list_all (\<lambda>i. in_header p (lsn + i) \<longrightarrow> bs ! i = rp_bytes p ! (lsn + i - rp_start_lsn p)) [0..<length bs]"

lemma slice_eq_iff:
  assumes "b - a = d - c" "b \<le> length xs" "d \<le> length ys" "a \<le> b" "c \<le> d"
  shows "slice a b xs = slice c d ys \<longleftrightarrow> (\<forall>k < b - a. xs ! (a + k) = ys ! (c + k))"
  using assms by (auto simp: list_eq_iff_nth_eq nth_slice)

lemma check_headers_iff:
  assumes "src_start \<le> src_end" "src_end \<le> length (rp_bytes p)" "dst + (src_end - src_start) \<le> length bs"
  shows "check_headers p bs dst src_start src_end hs = Inr () \<longleftrightarrow>
    (\<forall>(h_start, h_end) \<in> set hs. \<forall>k. src_start \<le> k \<longrightarrow> k < src_end \<longrightarrow> h_start \<le> k \<longrightarrow> k < h_end \<longrightarrow>
       bs ! (dst + k - src_start) = rp_bytes p ! k)"
proof (induction hs)
  case (Cons h hs)
  obtain a b where h: "h = (a, b)" by fastforce
  let ?lo = "max src_start a" and ?hi = "min src_end b"
  have "(?lo < ?hi \<longrightarrow> slice (dst + ?lo - src_start) (dst + ?hi - src_start) bs = slice ?lo ?hi (rp_bytes p)) \<longleftrightarrow>
    (\<forall>k. src_start \<le> k \<longrightarrow> k < src_end \<longrightarrow> a \<le> k \<longrightarrow> k < b \<longrightarrow> bs ! (dst + k - src_start) = rp_bytes p ! k)"
  proof (cases "?lo < ?hi")
    case True
    have "slice (dst + ?lo - src_start) (dst + ?hi - src_start) bs = slice ?lo ?hi (rp_bytes p) \<longleftrightarrow>
      (\<forall>k < ?hi - ?lo. bs ! (dst + ?lo - src_start + k) = rp_bytes p ! (?lo + k))"
      using True assms by (subst slice_eq_iff) auto
    also have "\<dots> \<longleftrightarrow> (\<forall>k. ?lo \<le> k \<longrightarrow> k < ?hi \<longrightarrow> bs ! (dst + k - src_start) = rp_bytes p ! k)"
    proof (safe)
      fix k assume all: "\<forall>k < ?hi - ?lo. bs ! (dst + ?lo - src_start + k) = rp_bytes p ! (?lo + k)" and k: "?lo \<le> k" "k < ?hi"
      then have "k - ?lo < ?hi - ?lo" by linarith
      with all have "bs ! (dst + ?lo - src_start + (k - ?lo)) = rp_bytes p ! (?lo + (k - ?lo))" by blast
      moreover have "dst + ?lo - src_start + (k - ?lo) = dst + k - src_start" "?lo + (k - ?lo) = k" using k by linarith+
      ultimately show "bs ! (dst + k - src_start) = rp_bytes p ! k" by simp
    next
      fix k assume all: "\<forall>k. ?lo \<le> k \<longrightarrow> k < ?hi \<longrightarrow> bs ! (dst + k - src_start) = rp_bytes p ! k" and k: "k < ?hi - ?lo"
      then have "bs ! (dst + (?lo + k) - src_start) = rp_bytes p ! (?lo + k)" by (metis le_add1 less_diff_conv add.commute)
      moreover have "dst + (?lo + k) - src_start = dst + ?lo - src_start + k" by linarith
      ultimately show "bs ! (dst + ?lo - src_start + k) = rp_bytes p ! (?lo + k)" by simp
    qed
    also have "\<dots> \<longleftrightarrow> (\<forall>k. src_start \<le> k \<longrightarrow> k < src_end \<longrightarrow> a \<le> k \<longrightarrow> k < b \<longrightarrow> bs ! (dst + k - src_start) = rp_bytes p ! k)" by auto
    finally show ?thesis using True by simp
  qed auto
  then show ?case using Cons by (auto simp: h Let_def)
qed simp

lemma in_header_covered: "prefix_ok p \<Longrightarrow> in_header p x \<Longrightarrow> covered p x"
  by (fastforce simp: prefix_ok_def in_header_def covered_def prefix_end_lsn_def list_all_iff list_ex_iff)

text \<open>The overlap of chunk and prefix: \<open>dst\<close> and \<open>ss\<close> are the offsets of its first byte
  in the chunk and in the prefix, \<open>ee\<close> the offset of its end in the prefix.\<close>

lemma overlap_headers:
  assumes "prefix_ok p" "lsn + dst = rp_start_lsn p + ss" "ss \<le> ee" "ee \<le> length (rp_bytes p)" "dst + (ee - ss) \<le> length bs"
    and cov: "\<And>i. i < length bs \<Longrightarrow> covered p (lsn + i) \<longleftrightarrow> dst \<le> i \<and> i < dst + (ee - ss)"
  shows "check_headers p bs dst ss ee (rp_headers p) = Inr () \<longleftrightarrow> headers_agree p lsn bs"
proof
  assume chk: "check_headers p bs dst ss ee (rp_headers p) = Inr ()"
  have "bs ! i = rp_bytes p ! (lsn + i - rp_start_lsn p)" if i: "i < length bs" and h: "in_header p (lsn + i)" for i
  proof -
    have "covered p (lsn + i)" using in_header_covered [OF assms(1) h] .
    then have ii: "dst \<le> i" "i < dst + (ee - ss)" using cov [OF i] by simp_all
    define k where "k = ss + (i - dst)"
    have k: "lsn + i = rp_start_lsn p + k" "ss \<le> k" "k < ee" "dst + k - ss = i"
      using ii assms(2,3) by (simp_all add: k_def)
    obtain a b where ab: "(a, b) \<in> set (rp_headers p)" "rp_start_lsn p + a \<le> lsn + i" "lsn + i < rp_start_lsn p + b"
      using h by (auto simp: in_header_def list_ex_iff)
    have "a \<le> k" "k < b" using ab(2,3) k(1) by simp_all
    then have "bs ! (dst + k - ss) = rp_bytes p ! k"
      using chk ab(1) k(2,3) unfolding check_headers_iff [OF assms(3,4,5)] by blast
    then show ?thesis using k by simp
  qed
  then show "headers_agree p lsn bs" by (simp add: headers_agree_def list_all_iff)
next
  assume ag: "headers_agree p lsn bs"
  have "bs ! (dst + k - ss) = rp_bytes p ! k"
    if ab: "(a, b) \<in> set (rp_headers p)" and k: "ss \<le> k" "k < ee" "a \<le> k" "k < b" for a b k
  proof -
    define i where "i = dst + (k - ss)"
    have i: "lsn + i = rp_start_lsn p + k" "i < length bs" "dst + k - ss = i"
      using k assms(2,5) by (simp_all add: i_def)
    moreover have "in_header p (lsn + i)" unfolding i(1) using ab k(3,4) by (auto simp: in_header_def list_ex_iff)
    ultimately have "bs ! i = rp_bytes p ! (lsn + i - rp_start_lsn p)" using ag by (simp add: headers_agree_def list_all_iff)
    then show ?thesis unfolding i(1,3) by simp
  qed
  then show "check_headers p bs dst ss ee (rp_headers p) = Inr ()" unfolding check_headers_iff [OF assms(3,4,5)] by blast
qed

lemma overlap_splice:
  assumes "lsn + dst = rp_start_lsn p + ss" "ss \<le> ee" "ee \<le> length (rp_bytes p)" "dst + (ee - ss) \<le> length bs"
    and cov: "\<And>i. i < length bs \<Longrightarrow> covered p (lsn + i) \<longleftrightarrow> dst \<le> i \<and> i < dst + (ee - ss)"
  shows "put_range dst (slice ss ee (rp_bytes p)) bs = spliced p lsn bs"
proof (rule nth_equalityI)
  have l: "length (slice ss ee (rp_bytes p)) = ee - ss" using assms(3) by simp
  show "length (put_range dst (slice ss ee (rp_bytes p)) bs) = length (spliced p lsn bs)"
    using assms(4) l by (simp add: spliced_def)
  fix i assume "i < length (put_range dst (slice ss ee (rp_bytes p)) bs)"
  then have i: "i < length bs" using assms(4) l by simp
  have "slice ss ee (rp_bytes p) ! (i - dst) = rp_bytes p ! (lsn + i - rp_start_lsn p)" if "dst \<le> i" "i < dst + (ee - ss)"
  proof -
    have "ss + (i - dst) = lsn + i - rp_start_lsn p" "ss + (i - dst) < ee" using that assms(1,2) by linarith+
    then show ?thesis using assms(3) by (simp add: nth_slice)
  qed
  then show "put_range dst (slice ss ee (rp_bytes p)) bs ! i = spliced p lsn bs ! i"
    using i assms(4) l cov [OF i] by (auto simp: nth_put_range spliced_def)
qed

lemma prefix_apply_eq:
  assumes "prefix_ok p"
  shows "headers_agree p lsn bs \<Longrightarrow> prefix_apply p lsn bs = Inr (spliced p lsn bs)"
    "\<not> headers_agree p lsn bs \<Longrightarrow> \<exists>e. prefix_apply p lsn bs = Inl e"
proof -
  define lo where "lo = max lsn (rp_start_lsn p)"
  define upto where "upto = min (lsn + length bs) (prefix_end_lsn p)"
  have bounds: "lsn \<le> lo" "rp_start_lsn p \<le> lo" "upto \<le> lsn + length bs" "upto \<le> rp_start_lsn p + length (rp_bytes p)"
    by (simp_all add: lo_def upto_def prefix_end_lsn_def)
  have cov: "covered p (lsn + i) \<longleftrightarrow> lo \<le> lsn + i \<and> lsn + i < upto" if "i < length bs" for i
    using that by (auto simp: covered_def lo_def upto_def)
  have "(headers_agree p lsn bs \<longrightarrow> prefix_apply p lsn bs = Inr (spliced p lsn bs)) \<and>
      (\<not> headers_agree p lsn bs \<longrightarrow> (\<exists>e. prefix_apply p lsn bs = Inl e))"
  proof (cases "upto \<le> lo")
    case True
    have none: "\<not> covered p (lsn + i)" if "i < length bs" for i using cov [OF that] True by linarith
    then have "\<not> in_header p (lsn + i)" if "i < length bs" for i using in_header_covered [OF assms] that by blast
    then have "headers_agree p lsn bs" by (simp add: headers_agree_def list_all_iff)
    moreover have "spliced p lsn bs = bs" using none by (auto simp: spliced_def intro: nth_equalityI)
    ultimately show ?thesis
      using True by (simp add: prefix_apply_def Let_def lo_def [symmetric] upto_def [symmetric])
  next
    case False
    define dst where "dst = lo - lsn"
    define ss where "ss = lo - rp_start_lsn p"
    define ee where "ee = upto - rp_start_lsn p"
    have d: "lsn + dst = rp_start_lsn p + ss" "ss \<le> ee" "ee \<le> length (rp_bytes p)" "dst + (ee - ss) \<le> length bs"
      using bounds False by (simp_all add: dst_def ss_def ee_def)
    have c: "covered p (lsn + i) \<longleftrightarrow> dst \<le> i \<and> i < dst + (ee - ss)" if "i < length bs" for i
      unfolding cov [OF that] using bounds False by (auto simp: dst_def ss_def ee_def)
    have "prefix_apply p lsn bs =
      rbind (check_headers p bs dst ss ee (rp_headers p)) (\<lambda>_. Inr (put_range dst (slice ss ee (rp_bytes p)) bs))"
      using False by (simp add: prefix_apply_def Let_def lo_def [symmetric] upto_def [symmetric] dst_def ss_def ee_def)
    then show ?thesis
      using overlap_headers [OF assms d c] overlap_splice [OF d c]
      by (cases "check_headers p bs dst ss ee (rp_headers p)") auto
  qed
  then show "headers_agree p lsn bs \<Longrightarrow> prefix_apply p lsn bs = Inr (spliced p lsn bs)"
    "\<not> headers_agree p lsn bs \<Longrightarrow> \<exists>e. prefix_apply p lsn bs = Inl e" by blast+
qed

lemma spliced_append: "spliced p lsn (xs @ ys) = spliced p lsn xs @ spliced p (lsn + length xs) ys"
  by (rule nth_equalityI) (auto simp: spliced_def nth_append)

lemma headers_agree_append:
  "headers_agree p lsn (xs @ ys) \<longleftrightarrow> headers_agree p lsn xs \<and> headers_agree p (lsn + length xs) ys"
proof
  assume h: "headers_agree p lsn (xs @ ys)"
  have "in_header p (lsn + i) \<longrightarrow> xs ! i = rp_bytes p ! (lsn + i - rp_start_lsn p)" if "i < length xs" for i
    using h that by (auto simp: headers_agree_def list_all_iff nth_append dest!: bspec [where x = i])
  moreover have "in_header p (lsn + length xs + i) \<longrightarrow> ys ! i = rp_bytes p ! (lsn + length xs + i - rp_start_lsn p)" if "i < length ys" for i
    using h that by (auto simp: headers_agree_def list_all_iff nth_append add.assoc dest!: bspec [where x = "length xs + i"])
  ultimately show "headers_agree p lsn xs \<and> headers_agree p (lsn + length xs) ys"
    by (simp add: headers_agree_def list_all_iff)
next
  assume h: "headers_agree p lsn xs \<and> headers_agree p (lsn + length xs) ys"
  show "headers_agree p lsn (xs @ ys)"
    unfolding headers_agree_def list_all_iff
  proof (intro ballI impI)
    fix i assume i: "i \<in> set [0..<length (xs @ ys)]" "in_header p (lsn + i)"
    show "(xs @ ys) ! i = rp_bytes p ! (lsn + i - rp_start_lsn p)"
    proof (cases "i < length xs")
      case True
      then show ?thesis using h i by (simp add: headers_agree_def list_all_iff nth_append)
    next
      case False
      then obtain j where j: "i = length xs + j" "j < length ys" using i(1) by (auto simp: not_less le_iff_add)
      then have "ys ! j = rp_bytes p ! (lsn + length xs + j - rp_start_lsn p)"
        using h i(2) by (simp add: headers_agree_def list_all_iff add.assoc)
      then show ?thesis using j(1) by (simp add: nth_append add.assoc)
    qed
  qed
qed

section \<open>Properties\<close>

text \<open>C29: Splicing the retained continuation is exact for a chunk at any position: it succeeds exactly
  when the source's page headers agree with the retained ones, and then replaces every covered byte
  by the retained one and no other byte.\<close>

theorem prefix_apply_exact:
  assumes "prefix_ok p"
  shows "(\<exists>zs. prefix_apply p lsn bs = Inr zs) = headers_agree p lsn bs \<and>
    (case prefix_apply p lsn bs of
       Inr zs \<Rightarrow> length zs = length bs \<and>
         list_all (\<lambda>i. zs ! i = (if rp_start_lsn p \<le> lsn + i \<and> lsn + i < prefix_end_lsn p
                             then rp_bytes p ! (lsn + i - rp_start_lsn p) else bs ! i)) [0..<length bs]
     | Inl e \<Rightarrow> True)"
proof (cases "headers_agree p lsn bs")
  case True
  then show ?thesis using prefix_apply_eq(1) [OF assms True] by (auto simp: spliced_def covered_def list_all_iff)
next
  case False
  then show ?thesis using prefix_apply_eq(2) [OF assms False] by auto
qed

theorem prefix_apply_exact_witness:
  "prefix_ok \<lparr>rp_start_lsn = 10, rp_bytes = [1, 2, 3], rp_headers = [(0, 1)]\<rparr> \<and>
   (\<exists>zs. prefix_apply \<lparr>rp_start_lsn = 10, rp_bytes = [1, 2, 3], rp_headers = [(0, 1)]\<rparr> 9 [7, 1, 9, 9, 8] = Inr zs \<and> length zs = 5)"
proof -
  let ?p = "\<lparr>rp_start_lsn = 10, rp_bytes = [1, 2, 3], rp_headers = [(0, 1)]\<rparr>"
  have ok: "prefix_ok ?p" by (simp add: prefix_ok_def)
  have "headers_agree ?p 9 [7, 1, 9, 9, 8]"
    by (simp add: headers_agree_def in_header_def upt_rec)
  then obtain zs where "prefix_apply ?p 9 [7, 1, 9, 9, 8] = Inr zs" using prefix_apply_exact [OF ok] by blast
  with prefix_apply_exact [OF ok, of 9 "[7, 1, 9, 9, 8]"] ok show ?thesis by simp
qed

text \<open>C30: Splicing does not depend on how the stream is cut into chunks: splicing a concatenation is the
  concatenation of the spliced parts, and it fails exactly when one of the parts fails.\<close>

theorem prefix_apply_chunks:
  assumes "prefix_ok p"
  shows "(case prefix_apply p lsn (xs @ ys) of
      Inr zs \<Rightarrow> \<exists>a b. prefix_apply p lsn xs = Inr a \<and> prefix_apply p (lsn + length xs) ys = Inr b \<and> zs = a @ b
    | Inl e \<Rightarrow> (\<exists>e. prefix_apply p lsn xs = Inl e) \<or> (\<exists>e. prefix_apply p (lsn + length xs) ys = Inl e))"
proof (cases "headers_agree p lsn (xs @ ys)")
  case True
  then show ?thesis
    using prefix_apply_eq(1) [OF assms] by (simp add: headers_agree_append spliced_append)
next
  case False
  then obtain e where "prefix_apply p lsn (xs @ ys) = Inl e" using prefix_apply_eq(2) [OF assms] by blast
  then show ?thesis using False prefix_apply_eq(2) [OF assms] by (auto simp: headers_agree_append)
qed

theorem prefix_apply_chunks_witness:
  "case prefix_apply \<lparr>rp_start_lsn = 10, rp_bytes = [1, 2, 3], rp_headers = [(0, 1)]\<rparr> 9 ([7, 1] @ [9, 9, 8]) of
     Inr zs \<Rightarrow> \<exists>a b. prefix_apply \<lparr>rp_start_lsn = 10, rp_bytes = [1, 2, 3], rp_headers = [(0, 1)]\<rparr> 9 [7, 1] = Inr a \<and> zs = a @ b
   | Inl e \<Rightarrow> False"
proof -
  let ?p = "\<lparr>rp_start_lsn = 10, rp_bytes = [1, 2, 3], rp_headers = [(0, 1)]\<rparr>"
  have ok: "prefix_ok ?p" by (simp add: prefix_ok_def)
  have "prefix_apply ?p 9 ([7, 1] @ [9, 9, 8]) = Inr [7, 1, 2, 3, 8]"
    by (simp add: prefix_apply_def prefix_end_lsn_def slice_def put_range_def)
  then show ?thesis using prefix_apply_chunks [OF ok, of 9 "[7, 1]" "[9, 9, 8]"] by auto
qed

text \<open>C31: Reading the retained continuation always returns, and a prefix it returns starts at the resume
  position and has its page headers inside its bytes.\<close>

theorem prefix_load_total:
  assumes "format_ok fmt" "seg_size mod wf_page_size fmt = 0" "0 < seg_size" "start_lsn mod wf_page_size fmt = 0"
  shows "case prefix_load fmt cont_flag files seg_size start_lsn dirs of
      None \<Rightarrow> False
    | Some (Inr (Some p)) \<Rightarrow> prefix_ok p \<and> rp_start_lsn p = start_lsn
    | Some _ \<Rightarrow> True"
proof (induction dirs)
  case (Cons dir dirs)
  let ?p0 = "\<lparr>rp_start_lsn = start_lsn, rp_bytes = [], rp_headers = []\<rparr>"
  show ?case
  proof (cases "read_segment files seg_size dir start_lsn")
    case (Inr x)
    show ?thesis
    proof (cases x)
      case (Some seg)
      have len: "length seg = seg_size"
        using Inr Some by (auto simp: read_segment_def split: file_read.splits if_split_asm)
      obtain r where r: "prefix_read fmt cont_flag files seg_size dir seg start_lsn None ?p0 = Some r"
        using prefix_read_returns [OF assms(1), of cont_flag files seg_size dir seg start_lsn None ?p0] by metis
      have "prefix_ok ?p0" by (simp add: prefix_ok_def)
      then have "prefix_ok p \<and> rp_start_lsn p = start_lsn" if "r = Inr (Some p)" for p
        using prefix_read_ok [OF r [unfolded that] assms(1,2,3) len assms(4)] by simp
      note r_ok = this
      show ?thesis
      proof (cases r)
        case rr: (Inr y)
        show ?thesis using Inr Some r Cons r_ok rr by (cases y) simp_all
      qed (use Inr Some r in simp)
    qed (use Inr Cons in simp)
  qed simp
qed simp

theorem prefix_load_total_witness:
  "case prefix_load pg_format 1 (\<lambda>(d :: nat) n. NotFound) 16777216 0 [0, 1] of
     None \<Rightarrow> False | Some (Inr (Some p)) \<Rightarrow> prefix_ok p \<and> rp_start_lsn p = 0 | Some _ \<Rightarrow> True"
  using prefix_load_total [OF pg_format_ok, of 16777216 0 1 "\<lambda>(d :: nat) n. NotFound" "[0, 1]"]
  by (simp add: pg_format_def)

end
