(* ===== verification/WAL_Stream.thy ===== *)
theory WAL_Stream
  imports Walker_Layout Noop_Rewrite Resume_Prefix
begin

text \<open>
  The streaming filter pipeline (\<open>src/src/source/wal_stream.rs\<close>): WAL chunks go through the
  walker record by record, each record is parsed and routed, dropped records become NOOPs in
  place, the bytes go to the shadow wire ahead of the records, and full segments are archived.

  The parser, the record filter, the sinks and the format constants are fields of
  \<open>stream_env\<close>. \<open>s_out\<close> is the sequence of sink calls that were accepted, and
  \<open>se_sink\<close> says whether the next call succeeds after such a sequence. Positions are naturals.
  The loops take fuel; \<open>OutOfFuel\<close> is the value for fuel that does not suffice, and it is
  shown not to occur.
\<close>

datatype route = ToShadow | ToDecoder | ToBoth

record 'p xlog_record =
  x_rmid :: u8
  x_info :: u8
  x_rest :: 'p

record 'v verdict =
  v_route :: route
  v_rest :: 'v

record ('p, 'v) wal_record =
  r_parsed :: "'p xlog_record"
  r_source_lsn :: nat
  r_next_lsn :: nat
  r_page_magic :: u16
  r_route :: route
  r_rest :: 'v

record segment_name =
  sn_timeline :: u32
  sn_log_id :: nat
  sn_seg_no :: nat

datatype ('p, 'v) stream_event =
    OnWire nat bytes
  | OnRecord "('p, 'v) wal_record"
  | OnSegment segment_name bytes
  | OnRetired nat

datatype stream_error =
    WalkFailed segment_name walk_error
  | ParseFailed nat
  | PayloadFailed nat
  | RewriteFailed nat rewrite_error
  | Misaligned nat nat
  | TimelineNotAbove u32 u32
  | ForkAboveFrontier nat nat
  | ForkBehindDispatched nat nat
  | UnalignedBase nat
  | SinkFailed
  | ShadowRelations
  | ResumePrefixFailed prefix_error
  | Poisoned
  | ArithmeticOverflow
  | OutOfFuel

record ('f, 'p, 'v) stream_env =
  se_format :: wal_format
  se_noop :: noop_format
  se_crc :: crc_fun
  se_switch_info :: u8
  se_parse :: "bytes \<Rightarrow> u16 \<Rightarrow> 'p xlog_record option"
  se_decide :: "'f \<Rightarrow> 'p xlog_record \<Rightarrow> nat \<Rightarrow> u16 \<Rightarrow> ('f \<times> 'v verdict) option"
  se_flush :: "'f \<Rightarrow> 'f option"
  se_may_park :: "('p, 'v) wal_record \<Rightarrow> bool"
  se_sink :: "('p, 'v) stream_event list \<Rightarrow> ('p, 'v) stream_event \<Rightarrow> bool"

record ('f, 'p, 'v) wal_stream =
  s_timeline :: u32
  s_seg_size :: nat
  s_next_lsn :: nat
  s_current_lsn :: nat
  s_walker :: walker
  s_filter :: 'f
  s_wire_offset :: nat
  s_staged :: "('p, 'v) wal_record list"
  s_staged_end :: nat
  s_raw_crc :: u32
  s_raw_crc_from :: nat
  s_poisoned :: bool
  s_resume_prefix :: "resume_prefix option"
  s_noop_cache :: crc_cache
  s_out :: "('p, 'v) stream_event list"

definition STAGED_MAX_BYTES :: nat where "STAGED_MAX_BYTES = 128 * 1024"
definition STAGED_MAX_RECORDS :: nat where "STAGED_MAX_RECORDS = 4096"

type_synonym ('f, 'p, 'v, 'a) stream_result = "('f, 'p, 'v) wal_stream \<times> (stream_error, 'a) result"

text \<open>Sequencing of fallible steps that keep the state of a failed step.\<close>

definition then_do ::
  "('f, 'p, 'v, 'a) stream_result \<Rightarrow> ('a \<Rightarrow> ('f, 'p, 'v) wal_stream \<Rightarrow> ('f, 'p, 'v, 'b) stream_result) \<Rightarrow> ('f, 'p, 'v, 'b) stream_result" where
  "then_do x f = (case x of (s, Inl e) \<Rightarrow> (s, Inl e) | (s, Inr a) \<Rightarrow> f a s)"

definition stream_new :: "u32 \<Rightarrow> nat \<Rightarrow> nat \<Rightarrow> 'f \<Rightarrow> crc_cache \<Rightarrow> (stream_error, ('f, 'p, 'v) wal_stream) result" where
  "stream_new timeline seg_size start_lsn filt cache =
     (if start_lsn mod seg_size \<noteq> 0 then Inl (UnalignedBase start_lsn)
      else Inr \<lparr>s_timeline = timeline, s_seg_size = seg_size, s_next_lsn = start_lsn, s_current_lsn = start_lsn,
             s_walker = walker_new seg_size, s_filter = filt, s_wire_offset = 0, s_staged = [], s_staged_end = 0,
             s_raw_crc = 0, s_raw_crc_from = start_lsn, s_poisoned = False, s_resume_prefix = None,
             s_noop_cache = cache, s_out = []\<rparr>)"

definition preserve_resume_prefix ::
  "(prefix_error, resume_prefix option) result \<Rightarrow> ('f, 'p, 'v) wal_stream \<Rightarrow> ('f, 'p, 'v, unit) stream_result" where
  "preserve_resume_prefix loaded s =
     (case loaded of Inl e \<Rightarrow> (s, Inl (ResumePrefixFailed e)) | Inr prefix \<Rightarrow> (s\<lparr>s_resume_prefix := prefix\<rparr>, Inr ()))"

definition align_down_lsn :: "nat \<Rightarrow> nat \<Rightarrow> nat" where
  "align_down_lsn lsn seg_size = lsn - lsn mod seg_size"

definition segment_for_lsn :: "('f, 'p, 'v) wal_stream \<Rightarrow> nat \<Rightarrow> segment_name" where
  "segment_for_lsn s lsn =
     (let seg_no = lsn div s_seg_size s;
          per_id = 2 ^ 32 div s_seg_size s
      in \<lparr>sn_timeline = s_timeline s, sn_log_id = seg_no div per_id, sn_seg_no = seg_no mod per_id\<rparr>)"

definition end_rec_ptr :: "('f, 'p, 'v) stream_env \<Rightarrow> ('f, 'p, 'v) wal_stream \<Rightarrow> nat \<times> nat \<Rightarrow> 'p xlog_record \<Rightarrow> nat" where
  "end_rec_ptr env s last_range parsed =
     (let (off, len) = last_range;
          aligned_len = align_up len (wf_align (se_format env));
          end_lsn = s_current_lsn s + off + aligned_len
      in if x_rmid parsed = nf_rmid_xlog (se_noop env) \<and> x_info parsed AND 0xF0 = se_switch_info env
         then (let end_lsn = end_lsn + (s_seg_size s - 1) in end_lsn - end_lsn mod s_seg_size s)
         else end_lsn)"

definition emit :: "('f, 'p, 'v) stream_env \<Rightarrow> ('p, 'v) stream_event \<Rightarrow> ('f, 'p, 'v) wal_stream \<Rightarrow> ('f, 'p, 'v, unit) stream_result" where
  "emit env ev s =
     (if se_sink env (s_out s) ev then (s\<lparr>s_out := s_out s @ [ev]\<rparr>, Inr ()) else (s, Inl SinkFailed))"

fun deliver :: "('f, 'p, 'v) stream_env \<Rightarrow> ('p, 'v) wal_record list \<Rightarrow> ('f, 'p, 'v) wal_stream \<Rightarrow> ('f, 'p, 'v, unit) stream_result" where
  "deliver env [] s = (s, Inr ())"
| "deliver env (r # rs) s = then_do (emit env (OnRecord r) s) (\<lambda>_ s. deliver env rs s)"

definition ship_staged :: "('f, 'p, 'v) stream_env \<Rightarrow> ('f, 'p, 'v) wal_stream \<Rightarrow> ('f, 'p, 'v, unit) stream_result" where
  "ship_staged env s =
     (if s_staged_end s > s_wire_offset s then
        then_do (emit env (OnWire (s_current_lsn s + s_wire_offset s)
                   (slice (s_wire_offset s) (s_staged_end s) (w_buf (s_walker s)))) s)
          (\<lambda>_ s. (s\<lparr>s_wire_offset := s_staged_end s\<rparr>, Inr ()))
      else (s, Inr ()))"

definition dispatch_staged :: "('f, 'p, 'v) stream_env \<Rightarrow> ('f, 'p, 'v) wal_stream \<Rightarrow> ('f, 'p, 'v, unit) stream_result" where
  "dispatch_staged env s =
     then_do (ship_staged env s) (\<lambda>_ s. deliver env (s_staged s) (s\<lparr>s_staged := []\<rparr>))"

text \<open>The in-place NOOP of a record routed to the decoder only.\<close>

definition drop_record :: "('f, 'p, 'v) stream_env \<Rightarrow> completed_record \<Rightarrow> ('f, 'p, 'v) wal_stream \<Rightarrow> ('f, 'p, 'v, unit) stream_result" where
  "drop_record env c s =
     (let bs = logical_bytes c (w_buf (s_walker s));
          (res, cache) = noop_replace (se_crc env) (se_noop env) (s_noop_cache s) bs;
          s = s\<lparr>s_noop_cache := cache\<rparr>
      in case c_stitched_bytes c of
           Some _ \<Rightarrow>
             (case res of
                Inl e \<Rightarrow> (s, Inl (RewriteFailed (c_start_offset c) e))
              | Inr new \<Rightarrow> (s\<lparr>s_walker := rewrite_record (c_byte_ranges c) new (s_walker s)\<rparr>, Inr ()))
         | None \<Rightarrow>
             (case c_byte_ranges c of
                [] \<Rightarrow> (s, Inr ())
              | (off, len) # _ \<Rightarrow>
                  (case rewrite_record_in_place off len (\<lambda>_. res) (s_walker s) of
                     Inl e \<Rightarrow> (s, Inl (RewriteFailed (c_start_offset c) e))
                   | Inr w \<Rightarrow> (s\<lparr>s_walker := w\<rparr>, Inr ()))))"

definition last_range :: "byte_ranges \<Rightarrow> nat \<times> nat" where
  "last_range rs = (if rs = [] then (0, 0) else last rs)"

definition stage_record ::
  "('f, 'p, 'v) stream_env \<Rightarrow> completed_record \<Rightarrow> 'p xlog_record \<Rightarrow> 'v verdict \<Rightarrow> ('f, 'p, 'v) wal_stream \<Rightarrow> ('f, 'p, 'v, unit) stream_result" where
  "stage_record env c parsed verdict s =
     (let lr = last_range (c_byte_ranges c);
          record_end = fst lr + snd lr;
          s = s\<lparr>s_staged_end := max (s_staged_end s) record_end\<rparr>;
          r = \<lparr>r_parsed = parsed, r_source_lsn = s_current_lsn s + c_start_offset c, r_next_lsn = end_rec_ptr env s lr parsed,
               r_page_magic = c_page_magic c, r_route = v_route verdict, r_rest = v_rest verdict\<rparr>;
          parks = se_may_park env r;
          s = s\<lparr>s_staged := s_staged s @ [r]\<rparr>
      in if parks \<or> length (s_staged s) \<ge> STAGED_MAX_RECORDS \<or> s_staged_end s - s_wire_offset s \<ge> STAGED_MAX_BYTES
         then dispatch_staged env s else (s, Inr ()))"

definition handle_record :: "('f, 'p, 'v) stream_env \<Rightarrow> completed_record \<Rightarrow> ('f, 'p, 'v) wal_stream \<Rightarrow> ('f, 'p, 'v, unit) stream_result" where
  "handle_record env c s =
     (case se_parse env (logical_bytes c (w_buf (s_walker s))) (c_page_magic c) of
        None \<Rightarrow> (s, Inl (ParseFailed (c_start_offset c)))
      | Some parsed \<Rightarrow>
          (case se_decide env (s_filter s) parsed (s_current_lsn s + c_start_offset c) (c_page_magic c) of
             None \<Rightarrow> (s, Inl (PayloadFailed (c_start_offset c)))
           | Some (filt, verdict) \<Rightarrow>
               (case se_flush env filt of
                  None \<Rightarrow> (s\<lparr>s_filter := filt\<rparr>, Inl ShadowRelations)
                | Some filt \<Rightarrow>
                    then_do (if v_route verdict = ToDecoder then drop_record env c (s\<lparr>s_filter := filt\<rparr>)
                             else (s\<lparr>s_filter := filt\<rparr>, Inr ()))
                      (\<lambda>_ s. stage_record env c parsed verdict s))))"

fun drain_records :: "('f, 'p, 'v) stream_env \<Rightarrow> nat \<Rightarrow> ('f, 'p, 'v) wal_stream \<Rightarrow> ('f, 'p, 'v, unit) stream_result" where
  "drain_records env 0 s = (s, Inl OutOfFuel)"
| "drain_records env (Suc fuel) s =
     (case try_next (se_format env) (s_walker s) of
        None \<Rightarrow> (s, Inl OutOfFuel)
      | Some (w, out) \<Rightarrow>
          (let s = s\<lparr>s_walker := w\<rparr>
           in case out of
                NeedMore \<Rightarrow> dispatch_staged env s
              | Failed e \<Rightarrow> (s, Inl (WalkFailed (segment_for_lsn s (s_current_lsn s)) e))
              | Overflowed \<Rightarrow> (s, Inl ArithmeticOverflow)
              | Yield c \<Rightarrow> then_do (handle_record env c s) (\<lambda>_ s. drain_records env fuel s)))"

definition try_flush_first_segment :: "('f, 'p, 'v) stream_env \<Rightarrow> ('f, 'p, 'v) wal_stream \<Rightarrow> ('f, 'p, 'v, bool) stream_result" where
  "try_flush_first_segment env s =
     (let seg_size = s_seg_size s
      in if \<not> first_segment_ready (s_walker s) then (s, Inr False)
         else
           then_do
             (if s_wire_offset s < seg_size
              then emit env (OnWire (s_current_lsn s + s_wire_offset s) (slice (s_wire_offset s) seg_size (w_buf (s_walker s)))) s
              else (s, Inr ()))
             (\<lambda>_ s. then_do (emit env (OnSegment (segment_for_lsn s (s_current_lsn s)) (take seg_size (w_buf (s_walker s)))) s)
               (\<lambda>_ s. then_do (emit env (OnRetired (s_current_lsn s)) (s\<lparr>s_walker := truncate_first_segment (s_walker s)\<rparr>))
                 (\<lambda>_ s. (s\<lparr>s_current_lsn := s_current_lsn s + seg_size, s_wire_offset := s_wire_offset s - seg_size,
                           s_staged_end := s_staged_end s - seg_size\<rparr>, Inr True)))))"

fun drain_and_flush :: "('f, 'p, 'v) stream_env \<Rightarrow> nat \<Rightarrow> ('f, 'p, 'v) wal_stream \<Rightarrow> ('f, 'p, 'v, unit) stream_result" where
  "drain_and_flush env 0 s = (s, Inl OutOfFuel)"
| "drain_and_flush env (Suc fuel) s =
     then_do (drain_records env (Suc (length (w_buf (s_walker s)))) s)
       (\<lambda>_ s. then_do (try_flush_first_segment env s)
         (\<lambda>again s. if again then drain_and_flush env fuel s else (s, Inr ())))"

text \<open>The raw digest: restarted at every segment boundary the input crosses.\<close>

fun digest_loop :: "('f, 'p, 'v) stream_env \<Rightarrow> nat \<Rightarrow> nat \<Rightarrow> bytes \<Rightarrow> ('f, 'p, 'v) wal_stream \<Rightarrow> nat \<times> ('f, 'p, 'v) wal_stream" where
  "digest_loop env 0 lsn bs s = (lsn, s)"
| "digest_loop env (Suc fuel) lsn bs s =
     (if bs = [] then (lsn, s)
      else
        let seg_start = align_down_lsn lsn (s_seg_size s);
            s = (if s_raw_crc_from s \<noteq> seg_start then s\<lparr>s_raw_crc := 0, s_raw_crc_from := seg_start\<rparr> else s);
            room = seg_start + s_seg_size s - lsn;
            take_now = min room (length bs);
            s = s\<lparr>s_raw_crc := se_crc env (s_raw_crc s) (take take_now bs)\<rparr>
        in digest_loop env fuel (lsn + take_now) (drop take_now bs) s)"

definition digest_raw :: "('f, 'p, 'v) stream_env \<Rightarrow> nat \<Rightarrow> bytes \<Rightarrow> ('f, 'p, 'v) wal_stream \<Rightarrow> ('f, 'p, 'v) wal_stream" where
  "digest_raw env lsn bs s =
     (let (lsn, s) = digest_loop env (length bs) lsn bs s
      in if lsn mod s_seg_size s = 0 then s\<lparr>s_raw_crc := 0, s_raw_crc_from := lsn\<rparr> else s)"

record fork_prefix =
  fp_from :: nat
  fp_through :: nat
  fp_crc :: u32

definition stream_fork_prefix :: "('f, 'p, 'v) wal_stream \<Rightarrow> fork_prefix" where
  "stream_fork_prefix s = \<lparr>fp_from = s_raw_crc_from s, fp_through = s_next_lsn s, fp_crc = s_raw_crc s\<rparr>"

definition poison :: "('f, 'p, 'v, 'a) stream_result \<Rightarrow> ('f, 'p, 'v, 'a) stream_result" where
  "poison x = (case x of (s, Inl e) \<Rightarrow> (s\<lparr>s_poisoned := True\<rparr>, Inl e) | (s, Inr a) \<Rightarrow> (s, Inr a))"

definition feed_walker :: "nat \<Rightarrow> bytes \<Rightarrow> ('f, 'p, 'v) wal_stream \<Rightarrow> ('f, 'p, 'v, unit) stream_result" where
  "feed_walker cur_lsn chunk s =
     (case s_resume_prefix s of
        None \<Rightarrow> (s\<lparr>s_walker := walker_extend chunk (s_walker s)\<rparr>, Inr ())
      | Some prefix \<Rightarrow>
          (case prefix_apply prefix cur_lsn chunk of
             Inl e \<Rightarrow> (s, Inl (ResumePrefixFailed e))
           | Inr chunk_spliced \<Rightarrow>
               let s = s\<lparr>s_walker := walker_extend chunk_spliced (s_walker s)\<rparr>
               in (if cur_lsn + length chunk \<ge> prefix_end_lsn prefix then s\<lparr>s_resume_prefix := None\<rparr> else s, Inr ())))"

fun push_loop :: "('f, 'p, 'v) stream_env \<Rightarrow> nat \<Rightarrow> nat \<Rightarrow> bytes \<Rightarrow> ('f, 'p, 'v) wal_stream \<Rightarrow> ('f, 'p, 'v, nat) stream_result" where
  "push_loop env fuel cur_lsn [] s = (s, Inr cur_lsn)"
| "push_loop env 0 cur_lsn data s = (s, Inl OutOfFuel)"
| "push_loop env (Suc fuel) cur_lsn data s =
     (let take_now = min (s_seg_size s) (length data)
      in then_do (poison (feed_walker cur_lsn (take take_now data) s))
           (\<lambda>_ s. then_do (poison (drain_and_flush env (Suc (length (w_buf (s_walker s)))) s))
             (\<lambda>_ s. push_loop env fuel (cur_lsn + take_now) (drop take_now data) s)))"

definition push :: "('f, 'p, 'v) stream_env \<Rightarrow> nat \<Rightarrow> bytes \<Rightarrow> ('f, 'p, 'v) wal_stream \<Rightarrow> ('f, 'p, 'v, nat) stream_result" where
  "push env lsn bs s =
     (if s_poisoned s then (s, Inl Poisoned)
      else if lsn \<noteq> s_next_lsn s then (s, Inl (Misaligned (s_next_lsn s) lsn))
      else then_do (push_loop env (length bs) lsn bs (digest_raw env lsn bs s))
             (\<lambda>cur_lsn s. (s\<lparr>s_next_lsn := cur_lsn\<rparr>, Inr cur_lsn)))"

fun flush_all :: "('f, 'p, 'v) stream_env \<Rightarrow> nat \<Rightarrow> ('f, 'p, 'v) wal_stream \<Rightarrow> ('f, 'p, 'v, unit) stream_result" where
  "flush_all env 0 s = (s, Inl OutOfFuel)"
| "flush_all env (Suc fuel) s =
     then_do (try_flush_first_segment env s) (\<lambda>again s. if again then flush_all env fuel s else (s, Inr ()))"

definition transition_timeline :: "('f, 'p, 'v) stream_env \<Rightarrow> u32 \<Rightarrow> nat \<Rightarrow> ('f, 'p, 'v) wal_stream \<Rightarrow> ('f, 'p, 'v, nat) stream_result" where
  "transition_timeline env next_tli switch_lsn s =
     (if s_poisoned s then (s, Inl Poisoned)
      else if next_tli \<le> s_timeline s then (s, Inl (TimelineNotAbove (s_timeline s) next_tli))
      else if switch_lsn > s_next_lsn s then (s, Inl (ForkAboveFrontier switch_lsn (s_next_lsn s)))
      else if switch_lsn < s_current_lsn s + s_wire_offset s
        then (s, Inl (ForkBehindDispatched switch_lsn (s_current_lsn s + s_wire_offset s)))
      else
        let s = s\<lparr>s_walker := truncate_to (switch_lsn - s_current_lsn s) (s_walker s), s_next_lsn := switch_lsn\<rparr>
        in then_do (poison (flush_all env (Suc (length (w_buf (s_walker s)))) s))
             (\<lambda>_ s. (s\<lparr>s_timeline := next_tli\<rparr>, Inr (align_down_lsn switch_lsn (s_seg_size s)))))"

definition adopt_timeline :: "u32 \<Rightarrow> ('f, 'p, 'v) wal_stream \<Rightarrow> ('f, 'p, 'v, unit) stream_result" where
  "adopt_timeline tli s =
     (if tli \<le> s_timeline s then (s, Inl (TimelineNotAbove (s_timeline s) tli))
      else if s_next_lsn s mod s_seg_size s \<noteq> 0 then (s, Inl (UnalignedBase (s_next_lsn s)))
      else (s\<lparr>s_timeline := tli\<rparr>, Inr ()))"

end
