(* ===== verification/Stream_Wire.thy ===== *)
theory Stream_Wire
  imports WAL_Stream
begin

text \<open>
  What the filter pipeline sends: the shadow wire, the record dispatch and the archived segments
  of a run of pushes. The invariant \<open>stream_ok\<close> relates the walker buffer, the offsets and the
  history of sink calls; it is kept by every step of a successful push.
\<close>

fun wire_of :: "('p, 'v) stream_event list \<Rightarrow> bytes" where
  "wire_of [] = []"
| "wire_of (OnWire l bs # es) = bs @ wire_of es"
| "wire_of (_ # es) = wire_of es"

fun segs_of :: "('p, 'v) stream_event list \<Rightarrow> bytes" where
  "segs_of [] = []"
| "segs_of (OnSegment n bs # es) = bs @ segs_of es"
| "segs_of (_ # es) = segs_of es"

text \<open>Each sink call against the calls before it: a wire chunk continues the wire, a record is
  dispatched when its first byte is on the wire and, when it may wait for the shadow, before any
  byte past its end, and a segment is archived when all its bytes are on the wire.\<close>

definition call_ok :: "('f, 'p, 'v) stream_env \<Rightarrow> nat \<Rightarrow> nat \<Rightarrow> ('p, 'v) stream_event list \<Rightarrow> ('p, 'v) stream_event \<Rightarrow> bool" where
  "call_ok env seg base h e =
     (case e of
        OnWire l bs \<Rightarrow> l = base + length (wire_of h)
      | OnRecord r \<Rightarrow> r_source_lsn r < base + length (wire_of h) \<and>
          (se_may_park env r \<longrightarrow> base + length (wire_of h) \<le> r_next_lsn r)
      | OnSegment n bs \<Rightarrow> length bs = seg \<and> bs = slice (length (segs_of h)) (length (segs_of h) + seg) (wire_of h) \<and>
          sn_log_id n * (2 ^ 32 div seg) + sn_seg_no n = (base + length (segs_of h)) div seg
      | OnRetired l \<Rightarrow> l + seg = base + length (segs_of h))"

definition stream_core :: "('f, 'p, 'v) stream_env \<Rightarrow> nat \<Rightarrow> ('f, 'p, 'v) wal_stream \<Rightarrow> bool" where
  "stream_core env base s \<longleftrightarrow>
     walker_ok (se_format env) (s_walker s) \<and> w_seg_size (s_walker s) = s_seg_size s \<and>
     cache_ok (se_crc env) (se_noop env) (s_noop_cache s) \<and>
     s_current_lsn s = base + length (segs_of (s_out s)) \<and>
     wire_of (s_out s) = segs_of (s_out s) @ take (s_wire_offset s) (w_buf (s_walker s)) \<and>
     s_wire_offset s \<le> length (w_buf (s_walker s)) \<and> s_staged_end s \<le> length (w_buf (s_walker s)) \<and>
     s_wire_offset s \<le> frontier (s_walker s) \<and> s_staged_end s \<le> frontier (s_walker s) \<and>
     along (call_ok env (s_seg_size s) base) (s_out s)"

definition staged_ok :: "('f, 'p, 'v) stream_env \<Rightarrow> ('f, 'p, 'v) wal_stream \<Rightarrow> bool" where
  "staged_ok env s \<longleftrightarrow>
     list_all (\<lambda>r. \<not> se_may_park env r \<and> r_source_lsn r < s_current_lsn s + s_staged_end s) (s_staged s)"

definition env_ok :: "('f, 'p, 'v) stream_env \<Rightarrow> nat \<Rightarrow> bool" where
  "env_ok env seg \<longleftrightarrow> format_ok (se_format env) \<and> 0 < seg \<and> seg mod wf_page_size (se_format env) = 0"

lemma wire_of_append [simp]: "wire_of (a @ b) = wire_of a @ wire_of b"
  by (induction a rule: wire_of.induct) simp_all

lemma segs_of_append [simp]: "segs_of (a @ b) = segs_of a @ segs_of b"
  by (induction a rule: segs_of.induct) simp_all

lemma wire_segs_records [simp]: "wire_of (map OnRecord rs) = []" "segs_of (map OnRecord rs) = []"
  by (induction rs) simp_all

lemma then_do_Inr: "then_do x f = (s', Inr b) \<longleftrightarrow> (\<exists>s a. x = (s, Inr a) \<and> f a s = (s', Inr b))"
  by (auto simp: then_do_def split: prod.splits sum.splits)

lemma emit_Inr: "emit env ev s = (s', Inr u) \<longleftrightarrow> se_sink env (s_out s) ev \<and> s' = s\<lparr>s_out := s_out s @ [ev]\<rparr>"
  by (auto simp: emit_def)

lemma core_wire_end: "stream_core env base s \<Longrightarrow> base + length (wire_of (s_out s)) = s_current_lsn s + s_wire_offset s"
  by (simp add: stream_core_def)

abbreviation calls_ok :: "('f, 'p, 'v) stream_env \<Rightarrow> nat \<Rightarrow> ('f, 'p, 'v) wal_stream \<Rightarrow> bool" where
  "calls_ok env base s \<equiv> along (call_ok env (s_seg_size s) base) (s_out s)"

lemma deliver_trace:
  assumes "deliver env rs s = (s', res)" "calls_ok env base s"
    and "\<And>r. r \<in> set rs \<Longrightarrow> call_ok env (s_seg_size s) base (s_out s) (OnRecord r)"
  shows "calls_ok env base s' \<and> (res = Inr u \<longrightarrow> s' = s\<lparr>s_out := s_out s @ map OnRecord rs\<rparr>)"
  using assms
proof (induction rs arbitrary: s)
  case (Cons r rs)
  show ?case
  proof (cases "se_sink env (s_out s) (OnRecord r)")
    case True
    define s1 where "s1 = s\<lparr>s_out := s_out s @ [OnRecord r]\<rparr>"
    have d: "deliver env rs s1 = (s', res)" using Cons.prems(1) True by (simp add: s1_def emit_def then_do_def)
    have "call_ok env (s_seg_size s1) base (s_out s1) (OnRecord r')" if "r' \<in> set rs" for r'
      using Cons.prems(3) [of r'] that by (simp add: s1_def call_ok_def)
    moreover have "calls_ok env base s1" using Cons.prems(2,3) by (simp add: s1_def)
    ultimately show ?thesis using Cons.IH [OF d] by (simp add: s1_def)
  next
    case False
    then show ?thesis using Cons.prems by (auto simp: emit_def then_do_def)
  qed
qed simp

lemma take_append_slice: "a \<le> b \<Longrightarrow> take a xs @ slice a b xs = take b xs"
  by (metis le_add_diff_inverse slice_def take_add)

text \<open>The fields a step within one chunk leaves alone.\<close>

definition same_frame :: "('f, 'p, 'v) wal_stream \<Rightarrow> ('f, 'p, 'v) wal_stream \<Rightarrow> bool" where
  "same_frame s s' \<longleftrightarrow>
     s_seg_size s' = s_seg_size s \<and> s_next_lsn s' = s_next_lsn s \<and> s_resume_prefix s' = s_resume_prefix s \<and>
     s_poisoned s' = s_poisoned s \<and> s_timeline s' = s_timeline s \<and> s_raw_crc s' = s_raw_crc s \<and> s_raw_crc_from s' = s_raw_crc_from s"

lemma same_frame_refl [simp]: "same_frame s s"
  by (simp add: same_frame_def)

lemma same_frame_trans: "same_frame a b \<Longrightarrow> same_frame b c \<Longrightarrow> same_frame a c"
  by (simp add: same_frame_def)

lemma ship_core:
  assumes "stream_core env base s" "ship_staged env s = (s', Inr u)"
  shows "stream_core env base s' \<and> s_wire_offset s' = max (s_wire_offset s) (s_staged_end s) \<and> same_frame s s' \<and>
    s_staged s' = s_staged s \<and> s_staged_end s' = s_staged_end s \<and> s_walker s' = s_walker s \<and> s_current_lsn s' = s_current_lsn s"
proof (cases "s_staged_end s > s_wire_offset s")
  case True
  then have s': "s' = s\<lparr>s_out := s_out s @ [OnWire (s_current_lsn s + s_wire_offset s)
      (slice (s_wire_offset s) (s_staged_end s) (w_buf (s_walker s)))], s_wire_offset := s_staged_end s\<rparr>"
    using assms(2) by (auto simp: ship_staged_def then_do_Inr emit_Inr)
  have "call_ok env (s_seg_size s) base (s_out s) (OnWire (s_current_lsn s + s_wire_offset s) bs)" for bs
    using core_wire_end [OF assms(1)] by (simp add: call_ok_def)
  moreover have "take (s_wire_offset s) b @ slice (s_wire_offset s) (s_staged_end s) b = take (s_staged_end s) b" for b :: bytes
    using True by (intro take_append_slice) simp
  ultimately show ?thesis using assms(1) True by (simp add: s' stream_core_def same_frame_def)
next
  case False
  then show ?thesis using assms by (simp add: ship_staged_def)
qed

lemma ship_fails: "ship_staged env s = (s', Inl e) \<Longrightarrow> s' = s"
  by (auto simp: ship_staged_def emit_def then_do_def split: if_splits)

lemma dispatch_core:
  assumes "stream_core env base s" "dispatch_staged env s = (s', res)"
    and "\<And>r. r \<in> set (s_staged s) \<Longrightarrow> r_source_lsn r < s_current_lsn s + s_staged_end s"
    and "\<And>r. r \<in> set (s_staged s) \<Longrightarrow> se_may_park env r \<Longrightarrow> s_current_lsn s + max (s_wire_offset s) (s_staged_end s) \<le> r_next_lsn r"
  shows "calls_ok env base s' \<and> (res = Inr u \<longrightarrow>
    stream_core env base s' \<and> same_frame s s' \<and> s_staged s' = [] \<and> s_walker s' = s_walker s \<and> s_current_lsn s' = s_current_lsn s)"
proof (cases "ship_staged env s")
  case (Pair s1 r1)
  show ?thesis
  proof (cases r1)
    case (Inl e)
    then show ?thesis using Pair ship_fails [of env s s1 e] assms(1,2)
      by (auto simp: dispatch_staged_def then_do_def stream_core_def)
  next
    case (Inr u1)
    then have ship: "ship_staged env s = (s1, Inr u1)" and del: "deliver env (s_staged s1) (s1\<lparr>s_staged := []\<rparr>) = (s', res)"
      using assms(2) Pair by (auto simp: dispatch_staged_def then_do_def)
    note c = ship_core [OF assms(1) ship]
    then have core: "stream_core env base s1" by blast
    have wire: "base + length (wire_of (s_out s1)) = s_current_lsn s + max (s_wire_offset s) (s_staged_end s)"
      using core_wire_end [OF core] c by simp
    have "call_ok env (s_seg_size (s1\<lparr>s_staged := []\<rparr>)) base (s_out (s1\<lparr>s_staged := []\<rparr>)) (OnRecord r)" if "r \<in> set (s_staged s1)" for r
    proof -
      have r: "r \<in> set (s_staged s)" using that c by simp
      have "r_source_lsn r < base + length (wire_of (s_out s1))" unfolding wire using assms(3) [OF r] by (simp add: max_def)
      moreover have "se_may_park env r \<Longrightarrow> base + length (wire_of (s_out s1)) \<le> r_next_lsn r" unfolding wire using assms(4) [OF r] .
      ultimately show ?thesis by (simp add: call_ok_def)
    qed
    moreover have "calls_ok env base (s1\<lparr>s_staged := []\<rparr>)" using core by (simp add: stream_core_def)
    ultimately have tr: "calls_ok env base s' \<and> (res = Inr u \<longrightarrow> s' = s1\<lparr>s_staged := [], s_out := s_out s1 @ map OnRecord (s_staged s1)\<rparr>)"
      using deliver_trace [OF del] by simp
    then have "stream_core env base s'" if "res = Inr u" using core that by (auto simp: stream_core_def)
    then show ?thesis using c tr by (auto simp: same_frame_def)
  qed
qed

text \<open>The state between the yield of a record and its staging.\<close>

definition record_end :: "completed_record \<Rightarrow> nat" where
  "record_end c = fst (last_range (c_byte_ranges c)) + snd (last_range (c_byte_ranges c))"

definition record_ready :: "('f, 'p, 'v) stream_env \<Rightarrow> nat \<Rightarrow> completed_record \<Rightarrow> ('f, 'p, 'v) wal_stream \<Rightarrow> bool" where
  "record_ready env base c s \<longleftrightarrow>
     stream_core env base s \<and> staged_ok env s \<and> w_pending (s_walker s) = None \<and>
     c_start_offset c < record_end c \<and> record_end c \<le> w_page_cursor (s_walker s) \<and> record_end c \<le> length (w_buf (s_walker s)) \<and>
     s_wire_offset s \<le> c_start_offset c \<and> s_staged_end s \<le> c_start_offset c"

abbreviation record_fits :: "('f, 'p, 'v) stream_env \<Rightarrow> completed_record \<Rightarrow> ('f, 'p, 'v) wal_stream \<Rightarrow> bool" where
  "record_fits env c s \<equiv> record_ok (se_format env) (w_buf (s_walker s)) (w_page_cursor (s_walker s)) c"

lemma drop_record_effect:
  assumes "record_ready env base c s" "record_fits env c s" "drop_record env c s = (s', Inr u)"
  obtains new cache where "s' = s\<lparr>s_noop_cache := cache, s_walker := rewrite_record (c_byte_ranges c) new (s_walker s)\<rparr>"
    "length new = length (positions (c_byte_ranges c))" "cache_ok (se_crc env) (se_noop env) cache"
proof -
  let ?bs = "logical_bytes c (w_buf (s_walker s))"
  obtain res cache where n: "noop_replace (se_crc env) (se_noop env) (s_noop_cache s) ?bs = (res, cache)" by fastforce
  note rec = assms(2)
  have ck: "cache_ok (se_crc env) (se_noop env) (s_noop_cache s)" using assms(1) by (simp add: record_ready_def stream_core_def)
  note nr = noop_replace_result [OF ck n]
  have len: "length ?bs = length (positions (c_byte_ranges c))" using rec by (simp add: record_ok_def)
  show ?thesis
  proof (cases "c_stitched_bytes c")
    case (Some v)
    then obtain new where "res = Inr new" "s' = s\<lparr>s_noop_cache := cache, s_walker := rewrite_record (c_byte_ranges c) new (s_walker s)\<rparr>"
      using assms(3) n by (cases res) (simp_all add: drop_record_def)
    then show ?thesis using that nr len by simp
  next
    case None
    then obtain off l where rs: "c_byte_ranges c = [(off, l)]"
      using rec by (auto simp: record_ok_def length_Suc_conv)
    then obtain new where new: "res = Inr new"
      using assms(3) n None by (cases res) (simp_all add: drop_record_def rewrite_record_in_place_def)
    have l: "length new = l" using nr(2) [OF new] len rs by simp
    then have "s' = s\<lparr>s_noop_cache := cache, s_walker := rewrite_record (c_byte_ranges c) new (s_walker s)\<rparr>"
      using assms(3) n None rs new by (simp add: drop_record_def rewrite_in_place_eq [OF rs])
    then show ?thesis using that nr len new by simp
  qed
qed

lemma rewrite_fields:
  "w_buf (rewrite_record rs new w) = scatter rs new (w_buf w)" "w_pending (rewrite_record rs new w) = w_pending w"
  "w_page_cursor (rewrite_record rs new w) = w_page_cursor w" "w_zero_stitch (rewrite_record rs new w) = w_zero_stitch w"
  "w_seg_size (rewrite_record rs new w) = w_seg_size w" "frontier (rewrite_record rs new w) = frontier w"
  by (cases "w_pending w"; simp add: rewrite_record_def frontier_def)+

lemma drop_record_ready:
  assumes "env_ok env seg" "record_ready env base c s" "record_fits env c s" "drop_record env c s = (s', Inr u)"
  shows "record_ready env base c s' \<and> same_frame s s' \<and> s_current_lsn s' = s_current_lsn s \<and>
    length (w_buf (s_walker s')) = length (w_buf (s_walker s)) \<and> frontier (s_walker s') = frontier (s_walker s) \<and>
    w_zero_stitch (s_walker s') = w_zero_stitch (s_walker s)"
proof -
  obtain new cache where s': "s' = s\<lparr>s_noop_cache := cache, s_walker := rewrite_record (c_byte_ranges c) new (s_walker s)\<rparr>"
    and len: "length new = length (positions (c_byte_ranges c))" and ck: "cache_ok (se_crc env) (se_noop env) cache"
    by (rule drop_record_effect [OF assms(2,3,4)])
  let ?w = "s_walker s" and ?rs = "c_byte_ranges c" and ?fmt = "se_format env"
  have fmt: "format_ok ?fmt" using assms(1) by (simp add: env_ok_def)
  have core: "stream_core env base s" and np: "w_pending ?w = None" and off: "s_wire_offset s \<le> c_start_offset c"
    using assms(2) by (simp_all add: record_ready_def)
  have lay: "laid_out ?fmt (w_buf ?w) (c_start_offset c) (w_page_cursor ?w) ?rs" using assms(3) by (simp add: record_ok_def)
  then have in_buf: "list_all (\<lambda>x. x < length (w_buf ?w)) (positions ?rs)" unfolding laid_out_def by blast
  have w_ok: "walker_ok ?fmt ?w" using core by (simp add: stream_core_def)
  have ok: "walker_ok ?fmt (rewrite_record ?rs new ?w)" by (rule rewrite_ok [OF fmt w_ok np lay len])
  have tk: "take (s_wire_offset s) (scatter ?rs new (w_buf ?w)) = take (s_wire_offset s) (w_buf ?w)"
    using laid_out_data [OF lay] off by (intro take_scatter [OF in_buf len]) (meson le_trans)
  have ls: "length (scatter ?rs new (w_buf ?w)) = length (w_buf ?w)" by (rule length_scatter [OF in_buf len])
  have "stream_core env base s'" using core ok ck tk ls by (simp add: s' stream_core_def rewrite_fields)
  then show ?thesis
    using assms(2) ls by (simp add: s' record_ready_def staged_ok_def rewrite_fields same_frame_def)
qed

lemma round_up_ge: "0 < n \<Longrightarrow> e \<le> (e + (n - 1)) - (e + (n - 1)) mod (n :: nat)"
proof -
  assume n: "0 < n"
  have "(e + (n - 1)) mod n \<le> n - 1" using n by (simp add: less_Suc_eq_le [symmetric])
  then show ?thesis by linarith
qed

lemma end_rec_ptr_ge:
  assumes "env_ok env seg" "s_seg_size s = seg"
  shows "s_current_lsn s + (fst lr + snd lr) \<le> end_rec_ptr env s lr parsed"
proof -
  obtain off len where lr: "lr = (off, len)" by fastforce
  have "len \<le> align_up len (wf_align (se_format env))"
    using assms(1) by (intro format_align_up(1)) (simp add: env_ok_def)
  then have e: "s_current_lsn s + (off + len) \<le> s_current_lsn s + off + align_up len (wf_align (se_format env))" by simp
  moreover have "s_current_lsn s + off + align_up len (wf_align (se_format env)) \<le>
      (s_current_lsn s + off + align_up len (wf_align (se_format env)) + (s_seg_size s - 1)) -
      (s_current_lsn s + off + align_up len (wf_align (se_format env)) + (s_seg_size s - 1)) mod s_seg_size s"
    using assms by (intro round_up_ge) (simp add: env_ok_def)
  ultimately show ?thesis unfolding end_rec_ptr_def lr Let_def by auto
qed

lemma stage_record_core:
  assumes "env_ok env (s_seg_size s)" "record_ready env base c s" "stage_record env c parsed verdict s = (s', res)"
  shows "calls_ok env base s' \<and> (res = Inr u \<longrightarrow>
    stream_core env base s' \<and> staged_ok env s' \<and> same_frame s s' \<and> s_walker s' = s_walker s \<and> s_current_lsn s' = s_current_lsn s)"
proof -
  define lr where "lr = last_range (c_byte_ranges c)"
  define s1 where "s1 = s\<lparr>s_staged_end := max (s_staged_end s) (record_end c)\<rparr>"
  define r where "r = \<lparr>r_parsed = parsed, r_source_lsn = s_current_lsn s1 + c_start_offset c, r_next_lsn = end_rec_ptr env s1 lr parsed,
               r_page_magic = c_page_magic c, r_route = v_route verdict, r_rest = v_rest verdict\<rparr>"
  define s2 where "s2 = s1\<lparr>s_staged := s_staged s1 @ [r]\<rparr>"
  have step: "stage_record env c parsed verdict s =
    (if se_may_park env r \<or> length (s_staged s2) \<ge> STAGED_MAX_RECORDS \<or> s_staged_end s2 - s_wire_offset s2 \<ge> STAGED_MAX_BYTES
     then dispatch_staged env s2 else (s2, Inr ()))"
    unfolding stage_record_def Let_def s2_def r_def s1_def lr_def record_end_def by (rule refl)
  have rdy: "c_start_offset c < record_end c" "record_end c \<le> w_page_cursor (s_walker s)" "record_end c \<le> length (w_buf (s_walker s))"
    "s_wire_offset s \<le> c_start_offset c" "s_staged_end s \<le> c_start_offset c" "w_pending (s_walker s) = None"
    "stream_core env base s" "staged_ok env s"
    using assms(2) by (simp_all add: record_ready_def)
  have se: "s_staged_end s2 = record_end c" using rdy(1,5) by (simp add: s2_def s1_def max_def)
  have same: "s_walker s2 = s_walker s" "s_current_lsn s2 = s_current_lsn s" "s_wire_offset s2 = s_wire_offset s" "same_frame s s2"
    "s_staged s2 = s_staged s @ [r]"
    by (simp_all add: s2_def s1_def same_frame_def)
  have core: "stream_core env base s2"
    using rdy by (simp add: stream_core_def s2_def s1_def frontier_def)
  have next_ge: "s_current_lsn s + record_end c \<le> r_next_lsn r"
    using end_rec_ptr_ge [of env "s_seg_size s" s1 lr parsed] assms(1) by (simp add: r_def record_end_def lr_def [symmetric]) (simp add: s1_def)
  have src: "r_source_lsn r' < s_current_lsn s2 + s_staged_end s2" if "r' \<in> set (s_staged s2)" for r'
  proof (cases "r' = r")
    case True
    then show ?thesis using rdy(1) by (simp add: se same(2) r_def) (simp add: s1_def)
  next
    case False
    then have "r_source_lsn r' < s_current_lsn s + s_staged_end s"
      using that rdy(8) same(5) by (auto simp: staged_ok_def list_all_iff)
    then show ?thesis using rdy(1,5) by (simp add: se same(2))
  qed
  have park: "s_current_lsn s2 + max (s_wire_offset s2) (s_staged_end s2) \<le> r_next_lsn r'"
    if "r' \<in> set (s_staged s2)" "se_may_park env r'" for r'
  proof -
    have "r' = r" using that rdy(8) same(5) by (auto simp: staged_ok_def list_all_iff)
    moreover have "max (s_wire_offset s2) (s_staged_end s2) = record_end c" using rdy(1,4) by (simp add: se same(3))
    ultimately show ?thesis using next_ge by (simp add: same(2))
  qed
  show ?thesis
  proof (cases "se_may_park env r \<or> length (s_staged s2) \<ge> STAGED_MAX_RECORDS \<or> s_staged_end s2 - s_wire_offset s2 \<ge> STAGED_MAX_BYTES")
    case True
    then have d: "dispatch_staged env s2 = (s', res)" using assms(3) step by simp
    from dispatch_core [OF core d src park] same same_frame_trans [OF same(4)] show ?thesis by (auto simp: staged_ok_def)
  next
    case False
    then have "s' = s2" using assms(3) step by simp
    moreover have "staged_ok env s2" using src False rdy(8) same(5) by (auto simp: staged_ok_def list_all_iff)
    ultimately show ?thesis using core same by (simp add: stream_core_def)
  qed
qed

section \<open>What every result keeps\<close>

lemma then_do_keep:
  assumes "P (fst x)" "\<And>a s. P s \<Longrightarrow> P (fst (f a s))"
  shows "P (fst (then_do x f))"
  using assms by (auto simp: then_do_def split: prod.splits sum.splits)

lemma then_do_fuel:
  assumes "snd x \<noteq> Inl OutOfFuel" "\<And>a s. x = (s, Inr a) \<Longrightarrow> snd (f a s) \<noteq> Inl OutOfFuel"
  shows "snd (then_do x f) \<noteq> Inl OutOfFuel"
  using assms by (cases x) (auto simp: then_do_def split: sum.splits)

abbreviation stitched :: "('f, 'p, 'v) wal_stream \<Rightarrow> bool" where
  "stitched s \<equiv> w_zero_stitch (s_walker s)"

lemma emit_keep: "s_walker (fst (emit env ev s)) = s_walker s" "snd (emit env ev s) \<noteq> Inl OutOfFuel"
  by (simp_all add: emit_def)

lemma deliver_keep: "s_walker (fst (deliver env rs s)) = s_walker s" "snd (deliver env rs s) \<noteq> Inl OutOfFuel"
proof (induction rs arbitrary: s)
  case (Cons r rs)
  { case 1 show ?case using Cons(1) by (auto simp: then_do_def emit_def) }
  { case 2 show ?case using Cons(2) by (auto simp: then_do_def emit_def) }
qed simp_all

lemma dispatch_keep: "s_walker (fst (dispatch_staged env s)) = s_walker s" "snd (dispatch_staged env s) \<noteq> Inl OutOfFuel"
  by (auto simp: dispatch_staged_def ship_staged_def then_do_def emit_def deliver_keep)

lemma stage_keep: "s_walker (fst (stage_record env c parsed v s)) = s_walker s" "snd (stage_record env c parsed v s) \<noteq> Inl OutOfFuel"
  by (simp_all add: stage_record_def Let_def dispatch_keep)

lemma in_place_keep: "rewrite_record_in_place off len f w = Inr w' \<Longrightarrow> w_zero_stitch w' = w_zero_stitch w"
  by (cases "f (slice off (off + len) (w_buf w))") (auto simp: rewrite_record_in_place_def)

lemma drop_keep: "stitched (fst (drop_record env c s)) = stitched s" "snd (drop_record env c s) \<noteq> Inl OutOfFuel"
  unfolding drop_record_def Let_def
  by (simp_all add: rewrite_fields in_place_keep split: option.split list.split prod.split sum.split)

lemma handle_keep: "stitched (fst (handle_record env c s)) = stitched s" "snd (handle_record env c s) \<noteq> Inl OutOfFuel"
proof -
  have "stitched (fst (then_do (if b then drop_record env c t else (t, Inr ())) (\<lambda>_ s. stage_record env c parsed v s))) = stitched t" for b t parsed v
    using drop_keep(1) [of env c t] by (auto simp: then_do_def stage_keep split: prod.split sum.split)
  then show "stitched (fst (handle_record env c s)) = stitched s"
    by (auto simp: handle_record_def split: option.split)
  have "snd (then_do (if b then drop_record env c t else (t, Inr ())) (\<lambda>_ s. stage_record env c parsed v s)) \<noteq> Inl OutOfFuel" for b t parsed v
    by (rule then_do_fuel) (simp_all add: drop_keep stage_keep)
  then show "snd (handle_record env c s) \<noteq> Inl OutOfFuel"
    by (auto simp: handle_record_def split: option.split)
qed

lemma drain_stitched: "stitched s \<Longrightarrow> stitched (fst (drain_records env fuel s))"
proof (induction fuel arbitrary: s)
  case (Suc fuel)
  show ?case
  proof (cases "try_next (se_format env) (s_walker s)")
    case (Some x)
    obtain w out where x: "x = (w, out)" by fastforce
    have "w_zero_stitch w" using try_next_zero_stitch Some Suc.prems unfolding x by blast
    then show ?thesis using Some x Suc.IH handle_keep(1) [of env _ "s\<lparr>s_walker := w\<rparr>"]
      by (cases out) (auto simp: dispatch_keep Let_def intro!: then_do_keep [where P = stitched])
  qed (use Suc in simp)
qed simp

section \<open>A successful drain\<close>

lemma filter_frame:
  "stream_core env base (s\<lparr>s_filter := f\<rparr>) = stream_core env base s" "staged_ok env (s\<lparr>s_filter := f\<rparr>) = staged_ok env s"
  by (simp_all add: stream_core_def staged_ok_def)

lemma drop_trace: "s_out (fst (drop_record env c s)) = s_out s \<and> s_seg_size (fst (drop_record env c s)) = s_seg_size s"
  unfolding drop_record_def Let_def by (simp split: option.split list.split prod.split sum.split)

lemma drop_then_stage:
  assumes "env_ok env (s_seg_size s)" "record_ready env base c s" "record_fits env c s"
    and step: "then_do (if b then drop_record env c s else (s, Inr ())) (\<lambda>_ s. stage_record env c parsed verdict s) = (s', res)"
  shows "calls_ok env base s' \<and> (res = Inr u \<longrightarrow> stream_core env base s' \<and> staged_ok env s' \<and> same_frame s s' \<and> s_current_lsn s' = s_current_lsn s \<and>
    length (w_buf (s_walker s')) = length (w_buf (s_walker s)) \<and> frontier (s_walker s') = frontier (s_walker s))"
proof -
  obtain s1 r1 where d: "(if b then drop_record env c s else (s, Inr ())) = (s1, r1)" by fastforce
  have tr: "calls_ok env base s1"
    using d drop_trace [of env c s] assms(2) by (auto simp: record_ready_def stream_core_def split: if_splits)
  show ?thesis
  proof (cases r1)
    case (Inl e)
    then show ?thesis using step d tr by (auto simp: then_do_def)
  next
    case (Inr u1)
    have c1: "record_ready env base c s1 \<and> same_frame s s1 \<and> s_current_lsn s1 = s_current_lsn s \<and>
      length (w_buf (s_walker s1)) = length (w_buf (s_walker s)) \<and> frontier (s_walker s1) = frontier (s_walker s)"
      using drop_record_ready [OF assms(1,2,3), of s1 u1] d Inr assms(2) by (auto split: if_splits)
    then have cfg: "env_ok env (s_seg_size s1)" using assms(1) by (simp add: same_frame_def)
    have st: "stage_record env c parsed verdict s1 = (s', res)" using step d Inr by (simp add: then_do_def)
    show ?thesis using stage_record_core [OF cfg _ st] c1 same_frame_trans [of s s1 s'] by auto
  qed
qed

lemma handle_record_core:
  assumes "env_ok env (s_seg_size s)" "record_ready env base c s" "record_fits env c s" "handle_record env c s = (s', res)"
  shows "calls_ok env base s' \<and> (res = Inr u \<longrightarrow> stream_core env base s' \<and> staged_ok env s' \<and> same_frame s s' \<and> s_current_lsn s' = s_current_lsn s \<and>
    length (w_buf (s_walker s')) = length (w_buf (s_walker s)) \<and> frontier (s_walker s') = frontier (s_walker s))"
proof -
  have tr: "calls_ok env base s" using assms(2) by (simp add: record_ready_def stream_core_def)
  have rdy: "record_ready env base c (s\<lparr>s_filter := f\<rparr>)" for f using assms(2) by (simp add: record_ready_def filter_frame)
  have "calls_ok env base s' \<and> (res = Inr u \<longrightarrow> stream_core env base s' \<and> staged_ok env s' \<and> same_frame (s\<lparr>s_filter := f\<rparr>) s' \<and>
      s_current_lsn s' = s_current_lsn s \<and> length (w_buf (s_walker s')) = length (w_buf (s_walker s)) \<and> frontier (s_walker s') = frontier (s_walker s))"
    if "then_do (if b then drop_record env c (s\<lparr>s_filter := f\<rparr>) else (s\<lparr>s_filter := f\<rparr>, Inr ())) (\<lambda>_ s. stage_record env c parsed v s) = (s', res)"
    for b f parsed v
    using drop_then_stage [OF _ rdy _ that] assms(1,3) by simp
  then show ?thesis using assms(4) tr
    by (simp add: handle_record_def same_frame_def split: option.splits prod.splits) auto
qed

lemma yield_ready:
  assumes "env_ok env (s_seg_size s)" "stream_core env base s" "staged_ok env s"
    "try_next (se_format env) (s_walker s) = Some (w, out)" "\<not> w_zero_stitch w"
  shows "stream_core env base (s\<lparr>s_walker := w\<rparr>) \<and> staged_ok env (s\<lparr>s_walker := w\<rparr>) \<and> w_buf w = w_buf (s_walker s) \<and>
    (\<forall>c. out = Yield c \<longrightarrow> record_ready env base c (s\<lparr>s_walker := w\<rparr>) \<and> record_fits env c (s\<lparr>s_walker := w\<rparr>) \<and>
       frontier (s_walker s) < frontier w \<and> frontier (s_walker s) < length (w_buf (s_walker s)))"
proof -
  have fmt: "format_ok (se_format env)" using assms(1) by (simp add: env_ok_def)
  have w0: "walker_ok (se_format env) (s_walker s)" using assms(2) by (simp add: stream_core_def)
  have step: "step_ok (se_format env) (s_walker s) w (Some out)" by (rule try_next_ok [OF assms(4) fmt assms(5) w0])
  then have b: "w_buf w = w_buf (s_walker s)" "w_seg_size w = w_seg_size (s_walker s)" "walker_ok (se_format env) w"
    "frontier (s_walker s) \<le> frontier w"
    by (simp_all add: step_ok_def)
  have core: "stream_core env base (s\<lparr>s_walker := w\<rparr>)"
    using assms(2) b by (simp add: stream_core_def)
  have stg: "staged_ok env (s\<lparr>s_walker := w\<rparr>)" using assms(3) by (simp add: staged_ok_def)
  have "record_ready env base c (s\<lparr>s_walker := w\<rparr>) \<and> record_fits env c (s\<lparr>s_walker := w\<rparr>) \<and>
       frontier (s_walker s) < frontier w \<and> frontier (s_walker s) < length (w_buf (s_walker s))" if out: "out = Yield c" for c
  proof -
    have rec: "record_ok (se_format env) (w_buf (s_walker s)) (w_page_cursor w) c" and fr: "frontier (s_walker s) \<le> c_start_offset c"
      and np: "w_pending w = None"
      using step out by (simp_all add: step_ok_def)
    note e = record_end_bounds [OF rec]
    have re: "record_end c = fst (last (c_byte_ranges c)) + snd (last (c_byte_ranges c))"
      using e(1) by (simp add: record_end_def last_range_def)
    have "s_wire_offset s \<le> frontier (s_walker s)" "s_staged_end s \<le> frontier (s_walker s)"
      using assms(2) by (simp_all add: stream_core_def)
    then have "record_ready env base c (s\<lparr>s_walker := w\<rparr>)"
      using core stg np e fr re b(1) by (simp add: record_ready_def)
    moreover have "frontier w = w_page_cursor w" using np by (simp add: frontier_def)
    ultimately show ?thesis using rec b(1) e fr by simp
  qed
  then show ?thesis using core stg b(1) by blast
qed

lemma drain_core:
  assumes "env_ok env (s_seg_size s)" "stream_core env base s" "staged_ok env s" "drain_records env fuel s = (s', r)" "\<not> stitched s'"
    "length (w_buf (s_walker s)) - frontier (s_walker s) < fuel"
  shows "r \<noteq> Inl OutOfFuel \<and> calls_ok env base s' \<and> (r = Inr u \<longrightarrow> stream_core env base s' \<and> s_staged s' = [] \<and> same_frame s s' \<and>
    s_current_lsn s' = s_current_lsn s \<and> length (w_buf (s_walker s')) = length (w_buf (s_walker s)))"
  using assms
proof (induction fuel arbitrary: s)
  case (Suc fuel)
  have ps: "0 < wf_page_size (se_format env)" using Suc.prems(1) by (simp add: env_ok_def format_ok_def)
  obtain w out where t: "try_next (se_format env) (s_walker s) = Some (w, out)" by (rule try_next_total [OF ps])
  have z: "\<not> w_zero_stitch w"
  proof
    assume "w_zero_stitch w"
    then have "stitched (fst (drain_records env (Suc fuel) s))"
      using t drain_stitched handle_keep(1) [of env _ "s\<lparr>s_walker := w\<rparr>"]
      by (cases out) (auto simp: dispatch_keep Let_def intro!: then_do_keep [where P = stitched])
    then show False using Suc.prems(4,5) by simp
  qed
  note y = yield_ready [OF Suc.prems(1,2,3) t z]
  let ?s = "s\<lparr>s_walker := w\<rparr>"
  have fr: "same_frame s ?s" by (simp add: same_frame_def)
  have tr: "calls_ok env base ?s" using y by (simp add: stream_core_def)
  show ?case
  proof (cases out)
    case NeedMore
    then have d: "dispatch_staged env ?s = (s', r)" using Suc.prems(4) t by simp
    have r: "r \<noteq> Inl OutOfFuel" using dispatch_keep(2) [of env ?s] d by simp
    have "calls_ok env base s' \<and> (r = Inr u \<longrightarrow> stream_core env base s' \<and> same_frame ?s s' \<and> s_staged s' = [] \<and>
        s_walker s' = s_walker ?s \<and> s_current_lsn s' = s_current_lsn ?s)"
      using y d by (intro dispatch_core) (auto simp: staged_ok_def list_all_iff)
    then show ?thesis using r y same_frame_trans [OF fr] by auto
  next
    case (Yield c)
    then have d: "then_do (handle_record env c ?s) (\<lambda>_ s. drain_records env fuel s) = (s', r)" using Suc.prems(4) t by simp
    obtain s1 r1 where h: "handle_record env c ?s = (s1, r1)" by fastforce
    have cfg: "env_ok env (s_seg_size ?s)" using Suc.prems(1) by simp
    have c1: "calls_ok env base s1 \<and> (r1 = Inr () \<longrightarrow> stream_core env base s1 \<and> staged_ok env s1 \<and> same_frame ?s s1 \<and>
        s_current_lsn s1 = s_current_lsn ?s \<and> length (w_buf (s_walker s1)) = length (w_buf (s_walker ?s)) \<and>
        frontier (s_walker s1) = frontier (s_walker ?s))"
      using y Yield h by (intro handle_record_core [OF cfg]) auto
    show ?thesis
    proof (cases r1)
      case (Inl e)
      then show ?thesis using d h c1 handle_keep(2) [of env c ?s] by (auto simp: then_do_def)
    next
      case (Inr u')
      then have rest: "drain_records env fuel s1 = (s', r)" using d h by (simp add: then_do_def)
      have c2: "stream_core env base s1" "staged_ok env s1" "same_frame s s1" "s_current_lsn s1 = s_current_lsn s"
        "length (w_buf (s_walker s1)) = length (w_buf (s_walker s))" "frontier (s_walker s1) = frontier w"
        using c1 Inr y same_frame_trans [OF fr] by auto
      have cfg1: "env_ok env (s_seg_size s1)" using c2(3) Suc.prems(1) by (simp add: same_frame_def)
      have "frontier (s_walker s) < frontier w \<and> frontier (s_walker s) < length (w_buf (s_walker s))" using y Yield by blast
      then have "length (w_buf (s_walker s1)) - frontier (s_walker s1) < fuel"
        using c2(5,6) Suc.prems(6) by linarith
      from Suc.IH [OF cfg1 c2(1,2) rest Suc.prems(5) this] c2(4,5) show ?thesis
        using same_frame_trans [OF c2(3)] by simp
    qed
  next
    case (Failed e)
    then show ?thesis using Suc.prems(4) t tr by (auto simp: Let_def)
  next
    case Overflowed
    then show ?thesis using Suc.prems(4) t tr by (auto simp: Let_def)
  qed
qed simp

section \<open>Flushing, pushing\<close>

lemma segment_for_lsn_number:
  assumes "0 < s_seg_size s"
  shows "sn_log_id (segment_for_lsn s lsn) * (2 ^ 32 div s_seg_size s) + sn_seg_no (segment_for_lsn s lsn) = lsn div s_seg_size s"
  by (simp add: segment_for_lsn_def Let_def) (rule div_mult_mod_eq)

lemma take_max_split: "take (max a n) xs = take n xs @ take (a - n) (drop n xs)"
  by (cases "a \<le> n") (simp_all add: take_add [symmetric])

lemma flush_wire_core:
  fixes env :: "('f, 'p, 'v) stream_env"
  assumes "stream_core env base s" "s_staged s = []" "first_segment_ready (s_walker s)"
    "(if s_wire_offset s < s_seg_size s
      then emit env (OnWire (s_current_lsn s + s_wire_offset s) (slice (s_wire_offset s) (s_seg_size s) (w_buf (s_walker s)))) s
      else (s, Inr ())) = (s1, res)"
  shows "calls_ok env base s1 \<and> (res = Inr u \<longrightarrow> (\<exists>h. s1 = s\<lparr>s_out := h\<rparr> \<and> segs_of h = segs_of (s_out s) \<and>
    wire_of h = segs_of (s_out s) @ take (max (s_wire_offset s) (s_seg_size s)) (w_buf (s_walker s))))"
proof (cases "s_wire_offset s < s_seg_size s")
  case True
  define e :: "('p, 'v) stream_event" where "e = OnWire (s_current_lsn s + s_wire_offset s) (slice (s_wire_offset s) (s_seg_size s) (w_buf (s_walker s)))"
  have ok: "calls_ok env base s" using assms(1) by (simp add: stream_core_def)
  have "call_ok env (s_seg_size s) base (s_out s) e"
    using core_wire_end [OF assms(1)] by (simp add: call_ok_def e_def)
  moreover have "take (s_wire_offset s) b @ slice (s_wire_offset s) (s_seg_size s) b = take (s_seg_size s) b" for b :: bytes
    using True by (intro take_append_slice) simp
  moreover have "wire_of (s_out s) = segs_of (s_out s) @ take (s_wire_offset s) (w_buf (s_walker s))"
    using assms(1) by (simp add: stream_core_def)
  ultimately have "calls_ok env base (s\<lparr>s_out := s_out s @ [e]\<rparr>)" "segs_of (s_out s @ [e]) = segs_of (s_out s)"
    "wire_of (s_out s @ [e]) = segs_of (s_out s) @ take (max (s_wire_offset s) (s_seg_size s)) (w_buf (s_walker s))"
    using ok True by (simp_all add: e_def max_def)
  moreover have "emit env e s = (s1, res)" using assms(4) True by (simp add: e_def)
  then have "s1 = s\<lparr>s_out := s_out s @ [e]\<rparr> \<or> s1 = s \<and> res = Inl SinkFailed" by (auto simp: emit_def split: if_splits)
  ultimately show ?thesis using ok by blast
next
  case False
  then have "max (s_wire_offset s) (s_seg_size s) = s_wire_offset s" by simp
  moreover have "s1 = s" using assms(4) False by simp
  moreover have "s = s\<lparr>s_out := s_out s\<rparr>" by simp
  ultimately show ?thesis using assms(1) unfolding stream_core_def by metis
qed

lemma try_flush_core:
  fixes env :: "('f, 'p, 'v) stream_env"
  assumes "env_ok env (s_seg_size s)" "stream_core env base s" "s_staged s = []" "try_flush_first_segment env s = (s', res)"
  shows "res \<noteq> Inl OutOfFuel \<and> calls_ok env base s' \<and> stitched s' = stitched s \<and> (res = Inr again \<longrightarrow>
    stream_core env base s' \<and> s_staged s' = [] \<and> same_frame s s' \<and>
    s_current_lsn s' + length (w_buf (s_walker s')) = s_current_lsn s + length (w_buf (s_walker s)) \<and>
    (again \<longrightarrow> length (w_buf (s_walker s')) < length (w_buf (s_walker s))) \<and> (\<not> again \<longrightarrow> s' = s \<and> \<not> first_segment_ready (s_walker s)))"
proof (cases "first_segment_ready (s_walker s)")
  case False
  then show ?thesis using assms by (auto simp: try_flush_first_segment_def stream_core_def)
next
  case True
  let ?n = "s_seg_size s" and ?b = "w_buf (s_walker s)"
  let ?wire = "if s_wire_offset s < ?n then emit env (OnWire (s_current_lsn s + s_wire_offset s) (slice (s_wire_offset s) ?n ?b)) s else (s, Inr ())"
  obtain s1 r1 where w: "?wire = (s1, r1)" by fastforce
  note fw = flush_wire_core [OF assms(2,3) True w]
  have sg: "w_seg_size (s_walker s) = ?n" using assms(2) by (simp add: stream_core_def)
  have n: "0 < ?n" "?n \<le> length ?b" using assms(1) True sg by (simp_all add: env_ok_def first_segment_ready_def)
  show ?thesis
  proof (cases r1)
    case (Inl e)
    moreover have "s1 = s \<and> e = SinkFailed" using w Inl by (auto simp: emit_def split: if_splits)
    ultimately show ?thesis using assms(4) w fw True by (auto simp: try_flush_first_segment_def Let_def then_do_def)
  next
    case (Inr u1)
    then obtain h where h: "s1 = s\<lparr>s_out := h\<rparr>" "segs_of h = segs_of (s_out s)"
      "wire_of h = segs_of (s_out s) @ take (max (s_wire_offset s) ?n) ?b" and ok1: "calls_ok env base s1"
      using fw by blast
    let ?e2 = "OnSegment (segment_for_lsn s1 (s_current_lsn s)) (take ?n ?b)" and ?e3 = "OnRetired (s_current_lsn s) :: ('p, 'v) stream_event"
    have cur: "s_current_lsn s = base + length (segs_of h)" using assms(2) h(2) by (simp add: stream_core_def)
    have sl: "slice (length (segs_of h)) (length (segs_of h) + ?n) (wire_of h) = take ?n ?b"
      by (simp add: slice_def h(2,3) min_def max_def)
    have e2: "call_ok env ?n base h ?e2"
      using segment_for_lsn_number [of s1 "s_current_lsn s"] n sl cur by (simp add: call_ok_def h(1))
    have e3: "call_ok env ?n base (h @ [?e2]) ?e3" using cur n by (simp add: call_ok_def)
    note tf = truncate_first_segment_ok [of "se_format env" "s_walker s"]
    have tr: "walker_ok (se_format env) (truncate_first_segment (s_walker s))"
      "frontier (truncate_first_segment (s_walker s)) = frontier (s_walker s) - ?n"
      "w_buf (truncate_first_segment (s_walker s)) = drop ?n ?b"
      "w_seg_size (truncate_first_segment (s_walker s)) = ?n"
      "w_zero_stitch (truncate_first_segment (s_walker s)) = stitched s"
      using tf assms(1,2) True sg by (simp_all add: env_ok_def stream_core_def)
    define s3 where "s3 = s\<lparr>s_out := h @ [?e2, ?e3], s_walker := truncate_first_segment (s_walker s),
      s_current_lsn := s_current_lsn s + ?n, s_wire_offset := s_wire_offset s - ?n, s_staged_end := s_staged_end s - ?n\<rparr>"
    have run: "try_flush_first_segment env s =
       (if se_sink env h ?e2 then
          (if se_sink env (h @ [?e2]) ?e3 then (s3, Inr True)
           else (s\<lparr>s_out := h @ [?e2], s_walker := truncate_first_segment (s_walker s)\<rparr>, Inl SinkFailed))
        else (s1, Inl SinkFailed))"
      using True w Inr h(1) by (simp add: try_flush_first_segment_def Let_def then_do_def emit_def s3_def)
    have ok3: "along (call_ok env ?n base) (h @ [?e2])" "along (call_ok env ?n base) (h @ [?e2, ?e3])"
      using ok1 e2 e3 along_snoc [of _ "h @ [?e2]" ?e3] by (simp_all add: h(1))
    have "wire_of (s_out s3) = segs_of (s_out s3) @ take (s_wire_offset s3) (w_buf (s_walker s3))"
      by (simp add: s3_def h(2,3) tr(3) take_max_split)
    then have "stream_core env base s3"
      using assms(2) tr n ok3(2) h(2) by (auto simp: s3_def stream_core_def)
    moreover have "same_frame s s3" "s_staged s3 = []" "stitched s3 = stitched s"
      "s_current_lsn s3 + length (w_buf (s_walker s3)) = s_current_lsn s + length ?b" "length (w_buf (s_walker s3)) < length ?b"
      using assms(3) tr n by (simp_all add: s3_def same_frame_def)
    ultimately show ?thesis using assms(4) ok1 ok3 tr(5) h(1) unfolding run
      by (auto simp: stream_core_def split: if_splits)
  qed
qed

lemma truncate_stitched: "w_zero_stitch (truncate_first_segment w) = w_zero_stitch w"
  by (simp add: truncate_first_segment_def Let_def)

lemma try_flush_stitched: "stitched s \<Longrightarrow> stitched (fst (try_flush_first_segment env s))"
  unfolding try_flush_first_segment_def Let_def
  by (auto simp: emit_keep truncate_stitched intro!: then_do_keep [where P = stitched])

lemma drain_and_flush_stitched: "stitched s \<Longrightarrow> stitched (fst (drain_and_flush env fuel s))"
proof (induction fuel arbitrary: s)
  case (Suc fuel)
  have flush: "stitched (fst (then_do (try_flush_first_segment env s) (\<lambda>again s. if again then drain_and_flush env fuel s else (s, Inr ()))))"
    if "stitched s" for s
    by (rule then_do_keep [where P = stitched]) (simp_all add: try_flush_stitched that Suc.IH)
  show ?case unfolding drain_and_flush.simps
    by (rule then_do_keep [where P = stitched]) (rule drain_stitched [OF Suc.prems], rule flush)
qed simp

lemma drain_and_flush_core:
  assumes "env_ok env (s_seg_size s)" "stream_core env base s" "s_staged s = []" "drain_and_flush env fuel s = (s', r)" "\<not> stitched s'"
    "length (w_buf (s_walker s)) < fuel"
  shows "r \<noteq> Inl OutOfFuel \<and> calls_ok env base s' \<and> (r = Inr u \<longrightarrow> stream_core env base s' \<and> s_staged s' = [] \<and> same_frame s s' \<and>
    s_current_lsn s' + length (w_buf (s_walker s')) = s_current_lsn s + length (w_buf (s_walker s)) \<and> \<not> first_segment_ready (s_walker s'))"
  using assms
proof (induction fuel arbitrary: s)
  case (Suc fuel)
  obtain s1 r1 where d: "drain_records env (Suc (length (w_buf (s_walker s)))) s = (s1, r1)" by fastforce
  obtain s2 r2 where f: "try_flush_first_segment env s1 = (s2, r2)" by fastforce
  have run: "(s', r) = then_do (s1, r1) (\<lambda>_ s. then_do (try_flush_first_segment env s) (\<lambda>again s. if again then drain_and_flush env fuel s else (s, Inr ())))"
    using Suc.prems(4) by (simp add: d del: drain_records.simps)
  have again: "stitched (fst (then_do (try_flush_first_segment env t) (\<lambda>again s. if again then drain_and_flush env fuel s else (s, Inr ()))))"
    if "stitched t" for t
    by (rule then_do_keep [where P = stitched]) (simp_all add: try_flush_stitched that drain_and_flush_stitched)
  have "stitched s1 \<Longrightarrow> stitched (fst (s', r))"
    unfolding run by (rule then_do_keep [where P = stitched]) (simp only: fst_conv, rule again)
  then have z1: "\<not> stitched s1" using Suc.prems(5) by auto
  have so: "staged_ok env s" by (simp add: staged_ok_def Suc.prems(3))
  have c1: "r1 \<noteq> Inl OutOfFuel \<and> calls_ok env base s1 \<and> (r1 = Inr () \<longrightarrow> stream_core env base s1 \<and> s_staged s1 = [] \<and> same_frame s s1 \<and>
    s_current_lsn s1 = s_current_lsn s \<and> length (w_buf (s_walker s1)) = length (w_buf (s_walker s)))"
    by (rule drain_core [OF Suc.prems(1,2) so d z1]) simp
  show ?case
  proof (cases r1)
    case (Inl e)
    then show ?thesis using run c1 by (simp add: then_do_def)
  next
    case (Inr u1)
    have m: "stream_core env base s1" "s_staged s1 = []" "same_frame s s1" "s_current_lsn s1 = s_current_lsn s"
      "length (w_buf (s_walker s1)) = length (w_buf (s_walker s))" "calls_ok env base s1"
      using c1 Inr by simp_all
    have cfg: "env_ok env (s_seg_size s1)" using m(3) Suc.prems(1) by (simp add: same_frame_def)
    have c2: "r2 \<noteq> Inl OutOfFuel \<and> calls_ok env base s2 \<and> stitched s2 = stitched s1 \<and> (r2 = Inr again \<longrightarrow>
        stream_core env base s2 \<and> s_staged s2 = [] \<and> same_frame s1 s2 \<and>
        s_current_lsn s2 + length (w_buf (s_walker s2)) = s_current_lsn s1 + length (w_buf (s_walker s1)) \<and>
        (again \<longrightarrow> length (w_buf (s_walker s2)) < length (w_buf (s_walker s1))) \<and> (\<not> again \<longrightarrow> s2 = s1 \<and> \<not> first_segment_ready (s_walker s1)))" for again
      by (rule try_flush_core [OF cfg m(1,2) f])
    show ?thesis
    proof (cases r2)
      case (Inl e)
      then show ?thesis using run Inr f c2 by (simp add: then_do_def)
    next
      case r2: (Inr again)
      show ?thesis
      proof (cases again)
        case True
        then have rest: "drain_and_flush env fuel s2 = (s', r)" using run Inr f r2 by (simp add: then_do_def)
        have k: "stream_core env base s2" "s_staged s2 = []" "same_frame s s2" "length (w_buf (s_walker s2)) < fuel"
          "s_current_lsn s2 + length (w_buf (s_walker s2)) = s_current_lsn s + length (w_buf (s_walker s))"
          using m(4,5) c2 [of True] r2 True Suc.prems(6) same_frame_trans [OF m(3)] by simp_all
        have cfg2: "env_ok env (s_seg_size s2)" using k(3) Suc.prems(1) by (simp add: same_frame_def)
        from Suc.IH [OF cfg2 k(1,2) rest Suc.prems(5) k(4)] k(5) show ?thesis
          using same_frame_trans [OF k(3)] by simp
      next
        case False
        then have no: "s2 = s1" "\<not> first_segment_ready (s_walker s1)" using c2 [of False] r2 by simp_all
        then have "s' = s1" "r = Inr ()" using run Inr f r2 False by (simp_all add: then_do_def)
        then show ?thesis using m no by simp
      qed
    qed
  qed
qed simp

lemma check_splice_length: "prefix_apply p lsn bs = Inr out \<Longrightarrow> length out = length bs"
  unfolding prefix_apply_def Let_def prefix_end_lsn_def
  by (auto simp: ok_iff slice_def split: if_splits)

lemma feed_core:
  assumes "stream_core env base s" "feed_walker lsn chunk s = (s1, Inr u)"
  shows "stream_core env base s1" "s_staged s1 = s_staged s" "s_current_lsn s1 = s_current_lsn s" "s_seg_size s1 = s_seg_size s"
    "length (w_buf (s_walker s1)) = length (w_buf (s_walker s)) + length chunk" "stitched s1 = stitched s"
    "s_next_lsn s1 = s_next_lsn s" "s_poisoned s1 = s_poisoned s" "s_raw_crc s1 = s_raw_crc s" "s_raw_crc_from s1 = s_raw_crc_from s"
proof -
  obtain bs p where s1: "s1 = s\<lparr>s_walker := walker_extend bs (s_walker s), s_resume_prefix := p\<rparr>" and len: "length bs = length chunk"
  proof (cases "s_resume_prefix s")
    case None
    then have "s1 = s\<lparr>s_walker := walker_extend chunk (s_walker s), s_resume_prefix := None\<rparr>"
      using assms(2) by (auto simp: feed_walker_def)
    then show ?thesis using that by blast
  next
    case (Some p)
    then obtain out where "prefix_apply p lsn chunk = Inr out" using assms(2) by (cases "prefix_apply p lsn chunk") (simp_all add: feed_walker_def)
    moreover from this have "s1 = s\<lparr>s_walker := walker_extend out (s_walker s), s_resume_prefix := (if lsn + length chunk \<ge> prefix_end_lsn p then None else Some p)\<rparr>"
      using assms(2) Some by (auto simp: feed_walker_def Let_def)
    ultimately show ?thesis using that check_splice_length by blast
  qed
  have fr: "frontier (walker_extend bs (s_walker s)) = frontier (s_walker s)"
    by (cases "w_pending (s_walker s)") (simp_all add: frontier_def walker_extend_def)
  show "stream_core env base s1"
    using assms(1) walker_extend_ok [of "se_format env" "s_walker s" bs] fr
    by (auto simp: s1 stream_core_def walker_extend_def)
  show "s_staged s1 = s_staged s" "s_current_lsn s1 = s_current_lsn s" "s_seg_size s1 = s_seg_size s"
    "length (w_buf (s_walker s1)) = length (w_buf (s_walker s)) + length chunk" "stitched s1 = stitched s"
    "s_next_lsn s1 = s_next_lsn s" "s_poisoned s1 = s_poisoned s" "s_raw_crc s1 = s_raw_crc s" "s_raw_crc_from s1 = s_raw_crc_from s"
    by (simp_all add: s1 walker_extend_def len)
qed

text \<open>The state between two pushes.\<close>

definition stream_ok :: "('f, 'p, 'v) stream_env \<Rightarrow> nat \<Rightarrow> ('f, 'p, 'v) wal_stream \<Rightarrow> bool" where
  "stream_ok env base s \<longleftrightarrow>
     env_ok env (s_seg_size s) \<and> stream_core env base s \<and> s_staged s = [] \<and>
     s_next_lsn s = s_current_lsn s + length (w_buf (s_walker s)) \<and> \<not> first_segment_ready (s_walker s)"

lemma poison_fields:
  "stitched (fst (poison x)) = stitched (fst x)" "s_out (fst (poison x)) = s_out (fst x)"
  "s_seg_size (fst (poison x)) = s_seg_size (fst x)" "snd (poison x) = snd x"
  "poison x = (s', Inr a) \<longleftrightarrow> x = (s', Inr a)" "poison x = (s', Inl e) \<Longrightarrow> s_poisoned s'"
  by (auto simp: poison_def split: prod.splits sum.splits)

lemma feed_stitched: "stitched (fst (feed_walker lsn chunk s)) = stitched s" "s_out (fst (feed_walker lsn chunk s)) = s_out s"
  "s_seg_size (fst (feed_walker lsn chunk s)) = s_seg_size s" "snd (feed_walker lsn chunk s) \<noteq> Inl OutOfFuel"
  by (auto simp: feed_walker_def walker_extend_def Let_def split: option.split sum.split)

lemma push_loop_stitched: "stitched s \<Longrightarrow> stitched (fst (push_loop env fuel lsn data s))"
proof (induction env fuel lsn data s rule: push_loop.induct)
  case (3 env fuel lsn d ds s)
  let ?t = "min (s_seg_size s) (length (d # ds))"
  have rest: "stitched (fst (then_do (poison (drain_and_flush env (Suc (length (w_buf (s_walker t)))) t))
      (\<lambda>_ s. push_loop env fuel (lsn + ?t) (drop ?t (d # ds)) s)))" if "stitched t" for t
    by (rule then_do_keep [where P = stitched])
      (simp_all only: poison_fields drain_and_flush_stitched that 3 (1) [OF refl])
  show ?case unfolding push_loop.simps Let_def
    by (rule then_do_keep [where P = stitched]) (simp add: poison_fields feed_stitched 3(2), rule rest)
qed simp_all

lemma push_loop_core:
  assumes "env_ok env (s_seg_size s)" "stream_core env base s" "s_staged s = []" "push_loop env fuel lsn data s = (s', r)"
    "\<not> stitched s'" "length data \<le> fuel" "\<not> first_segment_ready (s_walker s)"
  shows "r \<noteq> Inl OutOfFuel \<and> calls_ok env base s' \<and> (\<forall>e. r = Inl e \<longrightarrow> s_poisoned s') \<and>
    (r = Inr n \<longrightarrow> stream_core env base s' \<and> s_staged s' = [] \<and> n = lsn + length data \<and> s_seg_size s' = s_seg_size s \<and>
      s_next_lsn s' = s_next_lsn s \<and> s_poisoned s' = s_poisoned s \<and> s_raw_crc s' = s_raw_crc s \<and> s_raw_crc_from s' = s_raw_crc_from s \<and>
      s_current_lsn s' + length (w_buf (s_walker s')) = s_current_lsn s + length (w_buf (s_walker s)) + length data \<and>
      \<not> first_segment_ready (s_walker s'))"
  using assms
proof (induction env fuel lsn data s rule: push_loop.induct)
  case (1 env fuel lsn s)
  then show ?case by (auto simp: stream_core_def)
next
  case (2 env lsn d ds s)
  then show ?case by simp
next
  case (3 env fuel lsn d ds s)
  let ?t = "min (s_seg_size s) (length (d # ds))"
  have t: "0 < ?t" "?t \<le> length (d # ds)" using 3(2) by (simp_all add: env_ok_def)
  obtain s1 r1 where f: "feed_walker lsn (take ?t (d # ds)) s = (s1, r1)" by fastforce
  have run: "(s', r) = then_do (poison (s1, r1)) (\<lambda>_ s. then_do (poison (drain_and_flush env (Suc (length (w_buf (s_walker s)))) s))
             (\<lambda>_ s. push_loop env fuel (lsn + ?t) (drop ?t (d # ds)) s))"
    using 3(5) unfolding push_loop.simps Let_def f by simp
  show ?case
  proof (cases r1)
    case (Inl e)
    have "e \<noteq> OutOfFuel" using feed_stitched(4) [of lsn "take ?t (d # ds)" s] f Inl by auto
    moreover have "s' = s1\<lparr>s_poisoned := True\<rparr>" "r = Inl e" using run Inl by (simp_all add: poison_def then_do_def)
    moreover have "calls_ok env base s1"
      using 3(3) feed_stitched(2,3) [of lsn "take ?t (d # ds)" s] f by (simp add: stream_core_def)
    ultimately show ?thesis by simp
  next
    case (Inr u1)
    note fc = feed_core [OF 3(3) f [unfolded Inr]]
    obtain s2 r2 where df: "drain_and_flush env (Suc (length (w_buf (s_walker s1)))) s1 = (s2, r2)" by fastforce
    have run2: "(s', r) = then_do (poison (s2, r2)) (\<lambda>_ s. push_loop env fuel (lsn + ?t) (drop ?t (d # ds)) s)"
      using run Inr df by (simp add: poison_def then_do_def del: drain_and_flush.simps)
    have "stitched s2 \<Longrightarrow> stitched (fst (s', r))"
      unfolding run2 by (rule then_do_keep [where P = stitched]) (simp only: fst_conv poison_fields, rule push_loop_stitched)
    then have z2: "\<not> stitched s2" using 3(6) by auto
    have cfg: "env_ok env (s_seg_size s1)" using 3(2) fc(4) by simp
    have st: "s_staged s1 = []" using fc(2) 3(4) by simp
    note dc = drain_and_flush_core [OF cfg fc(1) st df z2 lessI]
    show ?thesis
    proof (cases r2)
      case (Inl e)
      then show ?thesis using run2 dc by (simp add: poison_def then_do_def)
    next
      case r2: (Inr u2)
      then have rest: "push_loop env fuel (lsn + ?t) (drop ?t (d # ds)) s2 = (s', r)"
        using run2 by (simp add: poison_def then_do_def)
      have k: "stream_core env base s2" "s_staged s2 = []" "same_frame s1 s2" "\<not> first_segment_ready (s_walker s2)"
        "s_current_lsn s2 + length (w_buf (s_walker s2)) = s_current_lsn s1 + length (w_buf (s_walker s1))"
        using dc r2 by blast+
      have cfg2: "env_ok env (s_seg_size s2)" using cfg k(3) by (simp add: same_frame_def)
      have len: "length (drop ?t (d # ds)) \<le> fuel" using t 3(7) by simp
      have tot: "lsn + ?t + length (drop ?t (d # ds)) = lsn + length (d # ds)"
        "length (take ?t (d # ds)) + length (drop ?t (d # ds)) = length (d # ds)" using t by simp_all
      note ih = 3(1) [OF refl cfg2 k(1,2) rest 3(6) len k(4)]
      then show ?thesis using k(3,5) fc(3,4,5,7,8,9,10) tot by (simp add: same_frame_def)
    qed
  qed
qed

end
