(* ===== verification/Walker_Props.thy ===== *)
theory Walker_Props
  imports Walker_Layout
begin

text \<open>
  The properties of the segment walker, with a page of 128 bytes for the witnesses.
\<close>

definition small_format :: wal_format where
  "small_format = pg_format\<lparr>wf_page_size := 128\<rparr>"

definition sample_page :: bytes where
  "sample_page =
     [16, 209, 0, 0, 0, 0, 0, 0, 0, 0, 0, 0, 0, 0, 0, 0, 0, 0, 0, 0, 0, 0, 0, 0, 30, 0, 0, 0, 7, 7,
     7, 7, 7, 7, 7, 7, 7, 7, 7, 7, 7, 7, 7, 7, 7, 7, 7, 7, 7, 7, 7, 7, 7, 7, 0, 0]"



lemma small_format_ok: "format_ok small_format"
  by (simp add: format_ok_def small_format_def pg_format_def)

lemma small_format_fields:
  "wf_page_size small_format = 128" "wf_rec_header small_format = 24" "wf_align small_format = 8"
  "wf_magic_pg15 small_format = 0xD110" "wf_long_header small_format = 2"
  by (simp_all add: small_format_def pg_format_def)




lemma sample_walker_ok: "walker_ok fmt (walker_extend bs (walker_new n))"
  by (intro walker_extend_ok walker_new_ok)




text \<open>C25: The loop of the walker always returns: from any state, with any buffer contents, one call
  yields a record, asks for more bytes, or fails; it never spins on a page.\<close>

theorem walker_try_next_returns:
  assumes "0 < wf_page_size fmt"
  shows "\<exists>w' out. try_next fmt w = Some (w', out)"
  using try_next_total [OF assms] by metis

theorem walker_try_next_returns_witness:
  "\<exists>w' out. try_next pg_format (walker_extend sample_page (walker_new 16777216)) = Some (w', out)"
  by (rule walker_try_next_returns) (simp add: pg_format_def)



text \<open>C27: Dropping the shipped first segment loses nothing that is still needed: a pending record reads
  the same bytes from the rebased ranges, the frontier moves down by exactly the segment, and the
  walker stays well formed.\<close>

theorem walker_truncate_keeps_pending:
  assumes "format_ok fmt" "w_seg_size w mod wf_page_size fmt = 0" "walker_ok fmt w" "first_segment_ready w"
  shows "walker_ok fmt (truncate_first_segment w) \<and>
    frontier (truncate_first_segment w) = frontier w - w_seg_size w \<and>
    w_buf w = take (w_seg_size w) (w_buf w) @ w_buf (truncate_first_segment w) \<and>
    map_option (\<lambda>p. gather (w_buf (truncate_first_segment w)) (p_byte_ranges p)) (w_pending (truncate_first_segment w)) =
    map_option (\<lambda>p. gather (w_buf w) (p_byte_ranges p)) (w_pending w)"
proof -
  note t = truncate_first_segment_ok [OF assms]
  have "w_pending (truncate_first_segment w) = map_option (rebase_pending (w_seg_size w)) (w_pending w)"
    by (simp add: truncate_first_segment_def Let_def)
  moreover have "gather (drop (w_seg_size w) (w_buf w)) (p_byte_ranges (rebase_pending (w_seg_size w) p)) = gather (w_buf w) (p_byte_ranges p)"
    if "w_pending w = Some p" for p
    using that assms(3,4)
    by (intro pending_ok_drop(2) [OF assms(1,2), where ps = "w_page_start w" and stop = "w_page_cursor w"])
      (auto simp: walker_ok_def first_segment_ready_def)
  ultimately show ?thesis using t by (cases "w_pending w") simp_all
qed

theorem walker_truncate_keeps_pending_witness:
  "walker_ok small_format (truncate_first_segment (walker_extend (replicate 256 0) (walker_new 256))) \<and>
   frontier (truncate_first_segment (walker_extend (replicate 256 0) (walker_new 256))) = 0"
proof -
  let ?w = "walker_extend (replicate 256 0) (walker_new 256)"
  have h: "w_seg_size ?w mod wf_page_size small_format = 0" "first_segment_ready ?w" "frontier ?w = 0"
    by (simp_all add: walker_extend_def walker_new_def small_format_fields first_segment_ready_def frontier_def)
  show ?thesis using walker_truncate_keeps_pending [OF small_format_ok h(1) sample_walker_ok h(2)] h(3) by simp
qed

text \<open>A record whose header straddles two pages skips the check of its declared length: when that
  length is below a record header, the bytes already taken exceed it and the next iteration
  computes a negative remainder.\<close>

theorem walker_short_straddle_overflows:
  assumes "format_ok fmt" "walker_ok fmt w" "w_page_magic w \<noteq> 0" "\<not> w_done_in_segment w" "w_pending w = Some p" "p_total_len p = None"
    "w_page_cursor w + (wf_rec_header fmt - p_accumulated_len p) \<le> w_page_start w + wf_page_size fmt"
    "w_page_cursor w + (wf_rec_header fmt - p_accumulated_len p) \<le> length (w_buf w)"
    "le_nat (take 4 (gather (w_buf w) (p_byte_ranges p))) < wf_rec_header fmt" "4 \<le> p_accumulated_len p"
  shows "\<exists>w'. try_next fmt w = Some (w', Overflowed)"
proof -
  define n where "n = wf_rec_header fmt - p_accumulated_len p"
  define q where "q = try_resolve_total_len fmt (w_buf w) (push_range (w_page_cursor w) n p)"
  define w1 where "w1 = w\<lparr>w_page_cursor := w_page_cursor w + n, w_pending := Some q\<rparr>"
  have pg: "page_ok fmt w" and pd: "pending_ok fmt (w_buf w) (w_page_start w) (w_page_cursor w) p"
    using assms(2,5) by (simp_all add: walker_ok_def)
  have acc: "p_accumulated_len p < wf_rec_header fmt" "0 < n" using pd assms(6) by (simp_all add: pending_ok_def n_def)
  have n: "n \<le> w_page_start w + wf_page_size fmt - w_page_cursor w" "n \<le> length (w_buf w) - w_page_cursor w"
    using assms(7,8) by (simp_all add: n_def)
  have q: "pending_ok fmt (w_buf w) (w_page_start w) (w_page_cursor w + n) q"
    unfolding q_def using pending_ok_resolve [OF assms(1) pg assms(3) pd assms(6) n] .
  have rs: "p_byte_ranges q = p_byte_ranges p @ [(w_page_cursor w, n)]" "p_accumulated_len q = wf_rec_header fmt"
    using acc by (simp_all add: q_def push_range_def n_def)
  have "length (gather (w_buf w) (p_byte_ranges p)) = p_accumulated_len p"
    using pd length_gather [of "w_buf w" "p_byte_ranges p"] unfolding pending_ok_def laid_out_def by metis
  then have "take 4 (gather (w_buf w) (p_byte_ranges q)) = take 4 (gather (w_buf w) (p_byte_ranges p))"
    "length (take 4 (gather (w_buf w) (p_byte_ranges p))) = 4"
    using assms(10) by (simp_all add: rs gather_append)
  then obtain t where t: "p_total_len q = Some t" "unat t < wf_rec_header fmt"
    using q rs(2) assms(9) by (auto simp: pending_ok_def unat_header_word split: option.splits)
  have m: "min (min n (w_page_start w + wf_page_size fmt - w_page_cursor w)) (length (w_buf w) - w_page_cursor w) = n"
    using n by simp
  have "pending_header_step fmt w p = (w1, None)"
    unfolding pending_header_step_def Let_def n_def [symmetric] m using acc t rs(2)
    by (simp add: q_def [symmetric] fully_loaded_def w1_def)
  then have "loop_body fmt w = (w1, None)" using assms(3,5,6) by (simp add: loop_body_def record_step_def)
  moreover have "loop_body fmt w1 = (w1, Some Overflowed)"
    using assms(3) t rs(2) by (simp add: loop_body_def record_step_def pending_total_step_def w1_def)
  ultimately have "walk_loop fmt w = Some (w1, Overflowed)" by (subst walk_loop.simps, simp, subst walk_loop.simps, simp)
  then show ?thesis using assms(4) by (simp add: try_next_def)
qed

end
