(* ===== verification/Stream_Props.thy ===== *)
theory Stream_Props
  imports Stream_Wire Walker_Props
begin


section \<open>One push\<close>










section \<open>The digest of the raw bytes\<close>









section \<open>The segment size is a constant of the stream\<close>
















section \<open>A run for the witnesses\<close>






















section \<open>Properties of the pipeline\<close>











end
