(* ===== verification/Dirty_Tree.thy ===== *)
theory Dirty_Tree
  imports WS_Prelude
begin

text \<open>
  The catalog-dirty transaction tree of the pump (\<open>src/src/filter/dirty_tree.rs\<close>). State is
  keyed by the writing transaction id and links by subtransaction id; both maps are iterated, so
  they are association lists. The per-root counter is only looked up and is a partial function;
  it counts distinct transaction ids and is a natural. \<open>touch\<close> hands out a mutable
  state in the source; the caller's update is an argument here.
\<close>

section \<open>State and operations\<close>

record dirty_state =
  ds_first_touch :: u64
  ds_oids :: "(u32, u64) hmap"
  ds_unenumerated :: bool
  ds_direct_write :: bool
  ds_db :: "u32 option"
  ds_db_other :: "u32 option"

definition dirty_state_new :: "u64 \<Rightarrow> dirty_state" where
  "dirty_state_new first_touch =
     \<lparr>ds_first_touch = first_touch, ds_oids = [], ds_unenumerated = False, ds_direct_write = False,
      ds_db = None, ds_db_other = None\<rparr>"

definition option_or :: "'a option \<Rightarrow> 'a option \<Rightarrow> 'a option" where
  "option_or a b = (case a of Some v \<Rightarrow> Some v | None \<Rightarrow> b)"

fun absorb_oids :: "(u32, u64) hmap \<Rightarrow> (u32, u64) hmap \<Rightarrow> (u32, u64) hmap" where
  "absorb_oids [] oids = oids"
| "absorb_oids ((oid, lsn) # other) oids =
     absorb_oids other
       (hm_insert oid (case hm_get oids oid of Some l \<Rightarrow> min l lsn | None \<Rightarrow> lsn) oids)"

definition dirty_absorb :: "dirty_state \<Rightarrow> dirty_state \<Rightarrow> dirty_state" where
  "dirty_absorb s other =
     (let s = s\<lparr>ds_first_touch := min (ds_first_touch s) (ds_first_touch other),
                ds_unenumerated := ds_unenumerated s \<or> ds_unenumerated other,
                ds_direct_write := ds_direct_write s \<or> ds_direct_write other\<rparr>;
          s = (case (ds_db s, ds_db other) of
                 (Some ours, Some theirs) \<Rightarrow> if ours \<noteq> theirs then s\<lparr>ds_db_other := Some theirs\<rparr> else s
               | (None, theirs) \<Rightarrow> s\<lparr>ds_db := theirs\<rparr>
               | _ \<Rightarrow> s)
      in s\<lparr>ds_db_other := option_or (ds_db_other s) (ds_db_other other), ds_oids := absorb_oids (ds_oids other) (ds_oids s)\<rparr>)"

record dirty_tree =
  dt_top_by_xid :: "(u32, u32) hmap"
  dt_state_by_xid :: "(u32, dirty_state) hmap"
  dt_dirty_members :: "u32 \<Rightarrow> nat option"

definition dirty_tree_default :: dirty_tree where
  "dirty_tree_default = \<lparr>dt_top_by_xid = [], dt_state_by_xid = [], dt_dirty_members = Map.empty\<rparr>"

definition dirty_root :: "dirty_tree \<Rightarrow> u32 \<Rightarrow> u32" where
  "dirty_root t xid = (case hm_get (dt_top_by_xid t) xid of Some top_xid \<Rightarrow> top_xid | None \<Rightarrow> xid)"

definition decrement :: "(u32 \<Rightarrow> nat option) \<Rightarrow> u32 \<Rightarrow> u32 \<Rightarrow> nat option" where
  "decrement counts key =
     (case counts key of
        None \<Rightarrow> counts
      | Some n \<Rightarrow> if n - 1 = 0 then counts(key := None) else counts(key \<mapsto> n - 1))"

definition increment :: "(u32 \<Rightarrow> nat option) \<Rightarrow> u32 \<Rightarrow> u32 \<Rightarrow> nat option" where
  "increment counts key = counts(key \<mapsto> (case counts key of None \<Rightarrow> 0 | Some n \<Rightarrow> n) + 1)"

definition dirty_link :: "u32 \<Rightarrow> u32 \<Rightarrow> dirty_tree \<Rightarrow> dirty_tree" where
  "dirty_link sub top_xid t =
     (if sub = 0 \<or> top_xid = 0 \<or> sub = top_xid then t
      else
        let old = hm_get (dt_top_by_xid t) sub;
            t = t\<lparr>dt_top_by_xid := hm_insert sub top_xid (dt_top_by_xid t)\<rparr>
        in if old = None \<and> hm_get (dt_state_by_xid t) sub \<noteq> None
           then t\<lparr>dt_dirty_members := increment (decrement (dt_dirty_members t) sub) top_xid\<rparr>
           else t)"

definition dirty_touch :: "u32 \<Rightarrow> u64 \<Rightarrow> (dirty_state \<Rightarrow> dirty_state) \<Rightarrow> dirty_tree \<Rightarrow> dirty_tree" where
  "dirty_touch xid lsn upd t =
     (let root = dirty_root t xid
      in case hm_get (dt_state_by_xid t) xid of
           Some s \<Rightarrow> t\<lparr>dt_state_by_xid := hm_insert xid (upd s) (dt_state_by_xid t)\<rparr>
         | None \<Rightarrow> t\<lparr>dt_dirty_members := increment (dt_dirty_members t) root,
                    dt_state_by_xid := hm_insert xid (upd (dirty_state_new lsn)) (dt_state_by_xid t)\<rparr>)"

definition is_dirty :: "dirty_tree \<Rightarrow> u32 \<Rightarrow> bool" where
  "is_dirty t xid \<longleftrightarrow> xid \<noteq> 0 \<and> dt_dirty_members t (dirty_root t xid) \<noteq> None"

definition drain_members :: "u32 \<Rightarrow> u32 option \<Rightarrow> u32 list \<Rightarrow> dirty_tree \<Rightarrow> u32 list" where
  "drain_members header_xid twophase_xid subxacts t =
     (let roots = [Some header_xid, twophase_xid]
      in concat (map (\<lambda>r. case r of Some x \<Rightarrow> [x] | None \<Rightarrow> []) roots) @ subxacts @
         map fst (filter (\<lambda>(x, top_xid). Some top_xid \<in> set roots) (dt_top_by_xid t)))"

fun drain_loop :: "u32 list \<Rightarrow> dirty_tree \<Rightarrow> dirty_state option \<Rightarrow> u32 list \<Rightarrow> dirty_tree \<times> dirty_state option \<times> u32 list" where
  "drain_loop [] t merged drained = (t, merged, drained)"
| "drain_loop (x # xs) t merged drained =
     (if x \<in> set drained then drain_loop xs t merged drained
      else
        let drained = drained @ [x]
        in case hm_get (dt_state_by_xid t) x of
             None \<Rightarrow> drain_loop xs (t\<lparr>dt_top_by_xid := hm_remove x (dt_top_by_xid t)\<rparr>) merged drained
           | Some state \<Rightarrow>
               let t = t\<lparr>dt_state_by_xid := hm_remove x (dt_state_by_xid t)\<rparr>;
                   root = dirty_root t x;
                   t = t\<lparr>dt_dirty_members := decrement (dt_dirty_members t) root\<rparr>;
                   t = t\<lparr>dt_top_by_xid := hm_remove x (dt_top_by_xid t)\<rparr>;
                   merged = (case merged of None \<Rightarrow> Some state | Some m \<Rightarrow> Some (dirty_absorb m state))
               in drain_loop xs t merged drained)"

definition drain_tree :: "u32 \<Rightarrow> u32 option \<Rightarrow> u32 list \<Rightarrow> dirty_tree \<Rightarrow> dirty_tree \<times> dirty_state option \<times> u32 list" where
  "drain_tree header_xid twophase_xid subxacts t =
     (if dt_state_by_xid t = [] \<and> dt_top_by_xid t = [] then (t, None, [])
      else drain_loop (drain_members header_xid twophase_xid subxacts t) t None [])"

section \<open>The counters are exact\<close>

definition credit :: "dirty_tree \<Rightarrow> u32 \<Rightarrow> nat" where
  "credit t r = length (filter (\<lambda>x. dirty_root t x = r) (map fst (dt_state_by_xid t)))"

definition counts_exact :: "dirty_tree \<Rightarrow> bool" where
  "counts_exact t \<longleftrightarrow> (\<forall>r. dt_dirty_members t r = (if credit t r = 0 then None else Some (credit t r)))"

definition dirty_ok :: "dirty_tree \<Rightarrow> bool" where
  "dirty_ok t \<longleftrightarrow> hm_wf (dt_top_by_xid t) \<and> hm_wf (dt_state_by_xid t) \<and> counts_exact t"

text \<open>The count of the keys that satisfy a predicate, under the map operations.\<close>

definition keys_such :: "('k \<Rightarrow> bool) \<Rightarrow> ('k, 'v) hmap \<Rightarrow> nat" where
  "keys_such P m = length (filter P (map fst m))"

lemma keys_such_insert_old: "hm_get m k \<noteq> None \<Longrightarrow> keys_such P (hm_insert k v m) = keys_such P m"
  by (induction m) (auto simp: keys_such_def)

lemma keys_such_insert_new: "hm_get m k = None \<Longrightarrow> keys_such P (hm_insert k v m) = keys_such P m + (if P k then 1 else 0)"
  by (induction m) (auto simp: keys_such_def)

lemma keys_such_remove:
  assumes "hm_wf m" "hm_get m k \<noteq> None"
  shows "keys_such P m = keys_such P (hm_remove k m) + (if P k then 1 else 0)"
  using assms
proof (induction m)
  case (Cons kv m)
  show ?case
  proof (cases "fst kv = k")
    case True
    then have "k \<notin> fst ` set m" using Cons.prems(1) by auto
    then have "hm_remove k m = m" by (simp add: AList.delete_idem)
    then show ?thesis using True by (simp add: keys_such_def hm_remove_Cons)
  next
    case False
    then show ?thesis using Cons by (auto simp: keys_such_def hm_remove_Cons)
  qed
qed simp

lemma keys_such_cong: "(\<And>k. hm_get m k \<noteq> None \<Longrightarrow> P k = Q k) \<Longrightarrow> keys_such P m = keys_such Q m"
  unfolding keys_such_def by (intro arg_cong [where f = length] filter_cong) (auto simp: map_of_eq_None_iff)

lemma keys_such_pos: "0 < keys_such P m \<longleftrightarrow> (\<exists>k. hm_get m k \<noteq> None \<and> P k)"
  by (auto simp: keys_such_def map_of_eq_None_iff filter_empty_conv)

lemma credit_keys: "credit t r = keys_such (\<lambda>x. dirty_root t x = r) (dt_state_by_xid t)"
  by (simp add: credit_def keys_such_def)

text \<open>Moving a credit.\<close>

lemma increment_apply: "increment c k r = (if r = k then Some ((case c k of None \<Rightarrow> 0 | Some n \<Rightarrow> n) + 1) else c r)"
  by (simp add: increment_def)

lemma decrement_apply: "decrement c k r = (if r = k then (case c k of None \<Rightarrow> None | Some n \<Rightarrow> if n - 1 = 0 then None else Some (n - 1)) else c r)"
  by (auto simp: decrement_def split: option.split)

lemma counts_increment:
  assumes "counts_exact t" "\<And>r. credit t' r = credit t r + (if r = k then 1 else 0)" "dt_dirty_members t' = increment (dt_dirty_members t) k"
  shows "counts_exact t'"
  using assms(1) unfolding counts_exact_def assms(2,3) increment_apply by auto

lemma counts_decrement:
  assumes "counts_exact t" "\<And>r. credit t r = credit t' r + (if r = k then 1 else 0)" "dt_dirty_members t' = decrement (dt_dirty_members t) k"
  shows "counts_exact t'"
  using assms(1) unfolding counts_exact_def assms(2,3) decrement_apply by auto

lemma counts_move:
  assumes "counts_exact t" "\<And>r. credit t r + (if r = b then 1 else 0) = credit t' r + (if r = a then 1 else 0)" "a \<noteq> b"
    "dt_dirty_members t' = increment (decrement (dt_dirty_members t) a) b"
  shows "counts_exact t'"
proof -
  have a: "credit t a = credit t' a + 1" using assms(2) [of a] assms(3) by simp
  have b: "credit t' b = credit t b + 1" using assms(2) [of b] assms(3) by simp
  have c: "credit t' r = credit t r" if "r \<noteq> a" "r \<noteq> b" for r using assms(2) [of r] that by simp
  have m: "dt_dirty_members t r = (if credit t r = 0 then None else Some (credit t r))" for r
    using assms(1) by (simp add: counts_exact_def)
  show ?thesis unfolding counts_exact_def
  proof
    fix r
    consider "r = a" | "r = b" | "r \<noteq> a" "r \<noteq> b" by blast
    then show "dt_dirty_members t' r = (if credit t' r = 0 then None else Some (credit t' r))"
      by cases (use a b c m assms(3) in \<open>simp_all add: assms(4) increment_apply decrement_apply\<close>)
  qed
qed

lemma counts_same:
  assumes "counts_exact t" "\<And>r. credit t' r = credit t r" "dt_dirty_members t' = dt_dirty_members t"
  shows "counts_exact t'"
  using assms by (simp add: counts_exact_def)

definition link_stable :: "u32 \<Rightarrow> u32 \<Rightarrow> dirty_tree \<Rightarrow> bool" where
  "link_stable sub tp t \<longleftrightarrow> hm_get (dt_top_by_xid t) sub = None \<or> hm_get (dt_top_by_xid t) sub = Some tp"

lemma dirty_link_ok:
  assumes "dirty_ok t" "link_stable sub tp t"
  shows "dirty_ok (dirty_link sub tp t)"
proof (cases "sub = 0 \<or> tp = 0 \<or> sub = tp")
  case True
  then show ?thesis using assms(1) by (auto simp: dirty_link_def)
next
  case False
  let ?t = "dirty_link sub tp t"
  have wf: "hm_wf (dt_top_by_xid ?t)" "hm_wf (dt_state_by_xid ?t)" "dt_state_by_xid ?t = dt_state_by_xid t"
    using assms(1) False by (auto simp: dirty_link_def Let_def dirty_ok_def intro: ws_inv)
  have root: "dirty_root ?t x = (if x = sub then tp else dirty_root t x)" for x
    using False by (simp add: dirty_link_def Let_def dirty_root_def ws_simps)
  have "counts_exact ?t"
  proof (cases "hm_get (dt_top_by_xid t) sub = None \<and> hm_get (dt_state_by_xid t) sub \<noteq> None")
    case True
    then have own: "dirty_root t sub = sub" by (simp add: dirty_root_def)
    have st: "hm_wf (dt_state_by_xid t)" "hm_get (dt_state_by_xid t) sub \<noteq> None" using assms(1) True by (simp_all add: dirty_ok_def)
    have "keys_such (\<lambda>x. dirty_root ?t x = r) (hm_remove sub (dt_state_by_xid t)) = keys_such (\<lambda>x. dirty_root t x = r) (hm_remove sub (dt_state_by_xid t))" for r
      by (rule keys_such_cong) (auto simp: root ws_simps split: if_splits)
    then have "credit t r + (if r = tp then 1 else 0) = credit ?t r + (if r = sub then 1 else 0)" for r
      using keys_such_remove [OF st, of "\<lambda>x. dirty_root t x = r"] keys_such_remove [OF st, of "\<lambda>x. dirty_root ?t x = r"] root [of sub]
      unfolding credit_keys wf(3) own by simp
    moreover have "dt_dirty_members ?t = increment (decrement (dt_dirty_members t) sub) tp"
      using True False by (simp add: dirty_link_def Let_def)
    ultimately show ?thesis using assms(1) False counts_move [of t tp ?t sub] unfolding dirty_ok_def by blast
  next
    case same: False
    have at: "dirty_root t sub = tp" if "hm_get (dt_state_by_xid t) sub \<noteq> None"
      using that same assms(2) by (auto simp: link_stable_def dirty_root_def)
    have "keys_such (\<lambda>x. dirty_root ?t x = r) (dt_state_by_xid t) = keys_such (\<lambda>x. dirty_root t x = r) (dt_state_by_xid t)" for r
    proof (rule keys_such_cong)
      fix k assume "hm_get (dt_state_by_xid t) k \<noteq> None"
      then show "(dirty_root ?t k = r) = (dirty_root t k = r)" using at by (cases "k = sub") (simp_all add: root)
    qed
    then have "credit ?t r = credit t r" for r unfolding credit_keys wf(3) .
    moreover have "dt_dirty_members ?t = dt_dirty_members t" using same by (auto simp: dirty_link_def Let_def)
    ultimately show ?thesis using assms(1) counts_same [of t ?t] unfolding dirty_ok_def by blast
  qed
  then show ?thesis using wf by (simp add: dirty_ok_def)
qed

lemma dirty_touch_ok:
  assumes "dirty_ok t"
  shows "dirty_ok (dirty_touch xid lsn upd t)"
proof -
  let ?t = "dirty_touch xid lsn upd t"
  have wf: "hm_wf (dt_top_by_xid ?t)" "hm_wf (dt_state_by_xid ?t)" "dt_top_by_xid ?t = dt_top_by_xid t"
    using assms by (auto simp: dirty_touch_def Let_def dirty_ok_def intro: ws_inv split: option.split)
  have root: "dirty_root ?t = dirty_root t" by (simp add: dirty_root_def wf(3) fun_eq_iff)
  have "counts_exact ?t"
  proof (cases "hm_get (dt_state_by_xid t) xid")
    case None
    then have st: "dt_state_by_xid ?t = hm_insert xid (upd (dirty_state_new lsn)) (dt_state_by_xid t)"
      and dm: "dt_dirty_members ?t = increment (dt_dirty_members t) (dirty_root t xid)"
      by (simp_all add: dirty_touch_def Let_def)
    have "credit ?t r = credit t r + (if r = dirty_root t xid then 1 else 0)" for r
      unfolding credit_keys root st keys_such_insert_new [OF None] by auto
    then show ?thesis using assms dm counts_increment [of t ?t "dirty_root t xid"] unfolding dirty_ok_def by blast
  next
    case (Some s)
    then have st: "dt_state_by_xid ?t = hm_insert xid (upd s) (dt_state_by_xid t)" "dt_dirty_members ?t = dt_dirty_members t"
      by (simp_all add: dirty_touch_def Let_def)
    have "credit ?t r = credit t r" for r
      unfolding credit_keys root st(1) using Some by (intro keys_such_insert_old) simp
    then show ?thesis using assms st(2) counts_same [of t ?t] unfolding dirty_ok_def by blast
  qed
  then show ?thesis using wf by (simp add: dirty_ok_def)
qed

text \<open>One round of the drain.\<close>

definition drain_step :: "u32 \<Rightarrow> dirty_tree \<Rightarrow> dirty_tree" where
  "drain_step x t =
     t\<lparr>dt_state_by_xid := hm_remove x (dt_state_by_xid t),
       dt_dirty_members := (if hm_get (dt_state_by_xid t) x = None then dt_dirty_members t
                            else decrement (dt_dirty_members t) (dirty_root t x)),
       dt_top_by_xid := hm_remove x (dt_top_by_xid t)\<rparr>"

definition merge_state :: "dirty_state option \<Rightarrow> dirty_state option \<Rightarrow> dirty_state option" where
  "merge_state merged s =
     (case s of None \<Rightarrow> merged | Some state \<Rightarrow> (case merged of None \<Rightarrow> Some state | Some m \<Rightarrow> Some (dirty_absorb m state)))"

lemma drain_loop_step:
  "drain_loop (x # xs) t merged drained =
     (if x \<in> set drained then drain_loop xs t merged drained
      else drain_loop xs (drain_step x t) (merge_state merged (hm_get (dt_state_by_xid t) x)) (drained @ [x]))"
proof (cases "hm_get (dt_state_by_xid t) x")
  case None
  then have "hm_remove x (dt_state_by_xid t) = dt_state_by_xid t" by (simp add: map_of_eq_None_iff delete_idem)
  then show ?thesis using None by (simp add: drain_step_def merge_state_def)
next
  case (Some s)
  then show ?thesis by (simp add: drain_step_def merge_state_def dirty_root_def Let_def)
qed

lemma drain_step_ok:
  assumes "dirty_ok t"
  shows "dirty_ok (drain_step x t)"
proof -
  let ?t = "drain_step x t"
  have wf: "hm_wf (dt_top_by_xid ?t)" "hm_wf (dt_state_by_xid ?t)" using assms by (auto simp: dirty_ok_def drain_step_def intro: ws_inv)
  have members: "dt_dirty_members ?t = (if hm_get (dt_state_by_xid t) x = None then dt_dirty_members t
      else decrement (dt_dirty_members t) (dirty_root t x))"
    by (simp add: drain_step_def)
  have root: "y \<noteq> x \<Longrightarrow> dirty_root ?t y = dirty_root t y" for y by (simp add: dirty_root_def drain_step_def ws_simps)
  have eq: "keys_such (\<lambda>y. dirty_root ?t y = r) (hm_remove x (dt_state_by_xid t)) = keys_such (\<lambda>y. dirty_root t y = r) (hm_remove x (dt_state_by_xid t))" for r
    by (rule keys_such_cong) (auto simp: root ws_simps split: if_splits)
  have "counts_exact ?t"
  proof (cases "hm_get (dt_state_by_xid t) x")
    case None
    then have "hm_remove x (dt_state_by_xid t) = dt_state_by_xid t" by (simp add: map_of_eq_None_iff delete_idem)
    then have "credit ?t r = credit t r" for r using eq [of r] by (simp add: credit_keys drain_step_def)
    then show ?thesis using assms None counts_same [of t ?t] members unfolding dirty_ok_def by simp
  next
    case (Some s)
    have st: "hm_wf (dt_state_by_xid t)" "hm_get (dt_state_by_xid t) x \<noteq> None" using assms Some by (simp_all add: dirty_ok_def)
    have "credit t r = credit ?t r + (if r = dirty_root t x then 1 else 0)" for r
      using keys_such_remove [OF st, of "\<lambda>y. dirty_root t y = r"] eq [of r] by (auto simp: credit_keys drain_step_def)
    then show ?thesis using assms Some counts_decrement [of t ?t "dirty_root t x"] members unfolding dirty_ok_def by simp
  qed
  then show ?thesis using wf by (simp add: dirty_ok_def)
qed

section \<open>What a drain removes and merges\<close>

lemma drain_step_lookup:
  "hm_get (dt_state_by_xid (drain_step x t)) y = (if y = x then None else hm_get (dt_state_by_xid t) y)"
  "hm_get (dt_top_by_xid (drain_step x t)) y = (if y = x then None else hm_get (dt_top_by_xid t) y)"
  by (simp_all add: drain_step_def ws_simps)

lemma drain_loop_ok:
  assumes "dirty_ok t" "drain_loop xs t merged drained = (t', m, d)" "distinct drained"
  shows "dirty_ok t' \<and> (\<exists>ys. d = drained @ ys \<and> distinct d \<and> set ys = set xs - set drained \<and>
      m = fold (\<lambda>x m. merge_state m (hm_get (dt_state_by_xid t) x)) ys merged \<and>
      (\<forall>y. hm_get (dt_state_by_xid t') y = (if y \<in> set ys then None else hm_get (dt_state_by_xid t) y)) \<and>
      (\<forall>y. hm_get (dt_top_by_xid t') y = (if y \<in> set ys then None else hm_get (dt_top_by_xid t) y)))"
  using assms
proof (induction xs arbitrary: t merged drained)
  case (Cons x xs)
  show ?case
  proof (cases "x \<in> set drained")
    case True
    then have "drain_loop xs t merged drained = (t', m, d)" using Cons.prems(2) unfolding drain_loop_step by simp
    from Cons.IH [OF Cons.prems(1) this Cons.prems(3)] show ?thesis using True by (simp add: insert_Diff_if)
  next
    case False
    let ?m = "merge_state merged (hm_get (dt_state_by_xid t) x)"
    have run: "drain_loop xs (drain_step x t) ?m (drained @ [x]) = (t', m, d)" using Cons.prems(2) False unfolding drain_loop_step by simp
    have dist: "distinct (drained @ [x])" using Cons.prems(3) False by simp
    from Cons.IH [OF drain_step_ok [OF Cons.prems(1)] run dist] obtain ys where
      ih: "dirty_ok t'" "d = (drained @ [x]) @ ys" "distinct d" "set ys = set xs - set (drained @ [x])"
        "m = fold (\<lambda>y m. merge_state m (hm_get (dt_state_by_xid (drain_step x t)) y)) ys ?m"
        "\<And>y. hm_get (dt_state_by_xid t') y = (if y \<in> set ys then None else hm_get (dt_state_by_xid (drain_step x t)) y)"
        "\<And>y. hm_get (dt_top_by_xid t') y = (if y \<in> set ys then None else hm_get (dt_top_by_xid (drain_step x t)) y)"
      by blast
    have nx: "x \<notin> set ys" using ih(4) by simp
    have "fold (\<lambda>y m. merge_state m (hm_get (dt_state_by_xid (drain_step x t)) y)) ys ?m =
        fold (\<lambda>y m. merge_state m (hm_get (dt_state_by_xid t) y)) ys ?m"
      using nx by (intro fold_cong) (auto simp: drain_step_lookup)
    then have "m = fold (\<lambda>y m. merge_state m (hm_get (dt_state_by_xid t) y)) (x # ys) merged" using ih(5) by simp
    moreover have "set (x # ys) = set (x # xs) - set drained" using ih(4) False by auto
    moreover have "d = drained @ (x # ys)" using ih(2) by simp
    ultimately show ?thesis using ih(1,3) ih(6,7) by (intro conjI exI [of _ "x # ys"]) (auto simp: drain_step_lookup)
  qed
qed simp










section \<open>Properties\<close>

datatype tree_op =
    OpLink u32 u32
  | OpTouch u32 u64 "dirty_state \<Rightarrow> dirty_state"
  | OpDrain u32 "u32 option" "u32 list"

fun tree_step :: "tree_op \<Rightarrow> dirty_tree \<Rightarrow> dirty_tree" where
  "tree_step (OpLink sub tp) t = dirty_link sub tp t"
| "tree_step (OpTouch xid lsn upd) t = dirty_touch xid lsn upd t"
| "tree_step (OpDrain x tp subs) t = fst (drain_tree x tp subs t)"

fun links_stable :: "tree_op list \<Rightarrow> dirty_tree \<Rightarrow> bool" where
  "links_stable [] t = True"
| "links_stable (op # ops) t =
     ((case op of OpLink sub tp \<Rightarrow> link_stable sub tp t | _ \<Rightarrow> True) \<and> links_stable ops (tree_step op t))"

lemma dirty_default_ok: "dirty_ok dirty_tree_default"
  by (simp add: dirty_ok_def dirty_tree_default_def counts_exact_def credit_def)

lemma drain_tree_ok: "dirty_ok t \<Longrightarrow> dirty_ok (fst (drain_tree x tp subs t))"
proof -
  assume ok: "dirty_ok t"
  obtain t' m d where run: "drain_loop (drain_members x tp subs t) t None [] = (t', m, d)" by (cases "drain_loop (drain_members x tp subs t) t None []") auto
  show ?thesis using drain_loop_ok [OF ok run] ok run by (auto simp: drain_tree_def)
qed

lemma tree_run_ok: "dirty_ok t \<Longrightarrow> links_stable ops t \<Longrightarrow> dirty_ok (fold tree_step ops t)"
proof (induction ops arbitrary: t)
  case (Cons op ops)
  have "dirty_ok (tree_step op t)"
    using Cons.prems by (cases op) (simp_all add: dirty_link_ok dirty_touch_ok drain_tree_ok)
  then show ?case using Cons by simp
qed simp

text \<open>C32: Admission is exact. After any sequence of links, catalog writes and transaction ends in which
  no subtransaction is linked to two different tops, a record is reported dirty exactly when some
  transaction with pending catalog state has the same known root, and the counter of every root is
  the number of such transactions.\<close>

theorem dirty_admission_exact:
  assumes "links_stable ops dirty_tree_default" "t = fold tree_step ops dirty_tree_default"
  shows "(is_dirty t xid \<longleftrightarrow> xid \<noteq> 0 \<and> (\<exists>y. hm_get (dt_state_by_xid t) y \<noteq> None \<and> dirty_root t y = dirty_root t xid)) \<and>
    dt_dirty_members t r = (if credit t r = 0 then None else Some (credit t r))"
proof -
  have "counts_exact t" using tree_run_ok [OF dirty_default_ok assms(1)] assms(2) by (simp add: dirty_ok_def)
  then have m: "dt_dirty_members t r = (if credit t r = 0 then None else Some (credit t r))" for r
    by (simp add: counts_exact_def)
  have "0 < credit t (dirty_root t xid) \<longleftrightarrow> (\<exists>y. hm_get (dt_state_by_xid t) y \<noteq> None \<and> dirty_root t y = dirty_root t xid)"
    unfolding credit_keys by (rule keys_such_pos)
  then show ?thesis unfolding is_dirty_def m by auto
qed


definition sample_ops :: "tree_op list" where
  "sample_ops = [OpTouch 5 100 (\<lambda>s. s\<lparr>ds_db := Some 1\<rparr>), OpLink 5 9, OpTouch 9 80 (\<lambda>s. s\<lparr>ds_db := Some 1, ds_oids := [(77, 80)]\<rparr>), OpTouch 4 90 (\<lambda>s. s)]"

definition sample_tree :: dirty_tree where
  "sample_tree = fold tree_step sample_ops dirty_tree_default"

lemmas tree_eval = sample_tree_def sample_ops_def dirty_touch_def dirty_link_def dirty_root_def dirty_tree_default_def
  dirty_state_new_def link_stable_def Let_def

theorem dirty_admission_exact_witness:
  "links_stable sample_ops dirty_tree_default \<and>
   (is_dirty sample_tree 9 \<longleftrightarrow> (\<exists>y. hm_get (dt_state_by_xid sample_tree) y \<noteq> None \<and> dirty_root sample_tree y = dirty_root sample_tree 9)) \<and>
   dt_dirty_members sample_tree 9 = Some 2"
proof -
  have st: "links_stable sample_ops dirty_tree_default" by (simp add: tree_eval)
  have "credit sample_tree 9 = 2" by (simp add: tree_eval credit_def)
  then show ?thesis using dirty_admission_exact [OF st sample_tree_def, of 9 9] st by simp
qed


end
