(* ===== verification/Budget.thy ===== *)
theory Budget
  imports WS_Prelude Text
begin

text \<open>
  The resident-payload budget (\<open>src/src/budget.rs\<close>) and its sizing
  (\<open>src/src/emit/pipeline/mod.rs\<close>). A semaphore is its number of free permits. The state of the
  pool carries, besides the counters of the source, the permits that are live and the
  acquisitions that are waiting: an \<open>await\<close> that is not satisfied at once leaves an entry in
  \<open>ps_waiting\<close>, and a later \<open>wake\<close> grants it when the permits are there. \<open>None\<close> is the
  panic of the unit conversion.
\<close>

section \<open>The pool and its permits\<close>

definition GRANULARITY :: nat where "GRANULARITY = 1024"

record budget =
  b_sem :: nat
  b_admission :: nat
  b_big_leaf :: nat
  b_total :: nat
  b_admission_max :: nat
  b_leaf_max :: nat
  b_cur :: nat
  b_peak :: nat
  b_waits :: nat
  b_overshoots :: nat
  b_big_leaf_waits :: nat

record memory_permit =
  mp_bytes :: nat
  mp_units :: nat
  mp_admission_units :: nat
  mp_big_leaf :: bool

datatype waiting = ForBigLeaf nat | ForAdmission nat nat | ForPool nat nat nat bool

record pool_state =
  ps_budget :: budget
  ps_live :: "memory_permit list"
  ps_waiting :: "waiting list"

definition units_for :: "nat \<Rightarrow> nat option" where
  "units_for n = (let u = div_ceil n GRANULARITY in if u < 2 ^ 32 then Some u else None)"

definition with_leaf_reserve :: "nat \<Rightarrow> nat \<Rightarrow> budget" where
  "with_leaf_reserve total_bytes leaf_reserve =
     (let admission_max = total_bytes - leaf_reserve
      in \<lparr>b_sem = max (div_ceil total_bytes GRANULARITY) 1, b_admission = max (div_ceil admission_max GRANULARITY) 1,
          b_big_leaf = 1, b_total = total_bytes, b_admission_max = admission_max,
          b_leaf_max = (if leaf_reserve = 0 then total_bytes else leaf_reserve),
          b_cur = 0, b_peak = 0, b_waits = 0, b_overshoots = 0, b_big_leaf_waits = 0\<rparr>)"

definition budget_new :: "nat \<Rightarrow> budget" where
  "budget_new total_bytes = with_leaf_reserve total_bytes 0"

text \<open>\<open>permit\<close>: account the bytes and hand out the value.\<close>

definition budget_permit :: "nat \<Rightarrow> nat \<Rightarrow> nat \<Rightarrow> budget \<Rightarrow> budget \<times> memory_permit" where
  "budget_permit n units admission_units b =
     (let now = b_cur b + n
      in (b\<lparr>b_cur := now, b_peak := max (b_peak b) now\<rparr>,
          \<lparr>mp_bytes = n, mp_units = units, mp_admission_units = admission_units, mp_big_leaf = False\<rparr>))"

definition issue :: "nat \<Rightarrow> nat \<Rightarrow> nat \<Rightarrow> bool \<Rightarrow> pool_state \<Rightarrow> pool_state" where
  "issue n units admission_units big s =
     (let (b, p) = budget_permit n units admission_units (ps_budget s)
      in s\<lparr>ps_budget := b, ps_live := ps_live s @ [p\<lparr>mp_big_leaf := big\<rparr>]\<rparr>)"

definition enqueue :: "waiting \<Rightarrow> pool_state \<Rightarrow> pool_state" where
  "enqueue w s = s\<lparr>ps_waiting := ps_waiting s @ [w]\<rparr>"

text \<open>\<open>sem_units\<close> on each semaphore: take the permits, or count a wait and queue.\<close>

definition enter_pool :: "nat \<Rightarrow> nat \<Rightarrow> nat \<Rightarrow> bool \<Rightarrow> pool_state \<Rightarrow> pool_state" where
  "enter_pool n units admission_units big s =
     (let b = ps_budget s
      in if units \<le> b_sem b then issue n units admission_units big (s\<lparr>ps_budget := b\<lparr>b_sem := b_sem b - units\<rparr>\<rparr>)
         else enqueue (ForPool n units admission_units big) (s\<lparr>ps_budget := b\<lparr>b_waits := b_waits b + 1\<rparr>\<rparr>))"

definition enter_admission :: "nat \<Rightarrow> nat \<Rightarrow> pool_state \<Rightarrow> pool_state" where
  "enter_admission n units s =
     (let b = ps_budget s
      in if units \<le> b_admission b then enter_pool n units units False (s\<lparr>ps_budget := b\<lparr>b_admission := b_admission b - units\<rparr>\<rparr>)
         else enqueue (ForAdmission n units) (s\<lparr>ps_budget := b\<lparr>b_waits := b_waits b + 1\<rparr>\<rparr>))"

definition enter_big_leaf :: "nat \<Rightarrow> pool_state \<Rightarrow> pool_state option" where
  "enter_big_leaf n s =
     (let b = ps_budget s
      in if 1 \<le> b_big_leaf b
         then map_option (\<lambda>units. enter_pool n units 0 True (s\<lparr>ps_budget := b\<lparr>b_big_leaf := b_big_leaf b - 1\<rparr>\<rparr>))
                (units_for (min n (b_leaf_max b)))
         else Some (enqueue (ForBigLeaf n) (s\<lparr>ps_budget := b\<lparr>b_big_leaf_waits := b_big_leaf_waits b + 1\<rparr>\<rparr>)))"

definition overshoot :: "pool_state \<Rightarrow> pool_state" where
  "overshoot s = s\<lparr>ps_budget := (ps_budget s)\<lparr>b_overshoots := b_overshoots (ps_budget s) + 1\<rparr>\<rparr>"

definition acquire :: "nat \<Rightarrow> pool_state \<Rightarrow> pool_state option" where
  "acquire n s =
     (let metered = min n (b_leaf_max (ps_budget s));
          big = (metered < n)
      in if big then enter_big_leaf n (overshoot s)
         else map_option (\<lambda>units. enter_pool n units 0 False s) (units_for metered))"

definition admit :: "nat \<Rightarrow> pool_state \<Rightarrow> pool_state option" where
  "admit n s =
     (if n > b_admission_max (ps_budget s) then Some (issue n 0 0 False (overshoot s))
      else map_option (\<lambda>units. enter_admission n units s) (units_for n))"

definition try_admit :: "nat \<Rightarrow> pool_state \<Rightarrow> pool_state option" where
  "try_admit n s =
     (let b = ps_budget s
      in if n > b_admission_max b then Some (issue n 0 0 False (overshoot s))
         else map_option (\<lambda>units.
                if units \<le> b_admission b \<and> units \<le> b_sem b
                then issue n units units False (s\<lparr>ps_budget := b\<lparr>b_admission := b_admission b - units, b_sem := b_sem b - units\<rparr>\<rparr>)
                else s) (units_for n))"

text \<open>Releasing: \<open>shrink\<close> and \<open>drop\<close>.\<close>

definition permit_shrink :: "nat \<Rightarrow> memory_permit \<Rightarrow> budget \<Rightarrow> (memory_permit \<times> budget) option" where
  "permit_shrink n p b =
     (if n \<ge> mp_bytes p then Some (p, b)
      else map_option (\<lambda>u.
        let new_units = min u (mp_units p);
            freed = mp_units p - new_units;
            (p, b) = (if freed > 0 then
                        let b = b\<lparr>b_sem := b_sem b + freed\<rparr>;
                            freed_adm = min freed (mp_admission_units p);
                            (p, b) = (if freed_adm > 0 then
                                        (p\<lparr>mp_admission_units := mp_admission_units p - freed_adm\<rparr>, b\<lparr>b_admission := b_admission b + freed_adm\<rparr>)
                                      else (p, b))
                        in (p\<lparr>mp_units := new_units\<rparr>, b)
                      else (p, b));
            b = b\<lparr>b_cur := b_cur b - (mp_bytes p - n)\<rparr>;
            p = p\<lparr>mp_bytes := n\<rparr>
        in if mp_big_leaf p \<and> n \<le> b_leaf_max b then (p\<lparr>mp_big_leaf := False\<rparr>, b\<lparr>b_big_leaf := b_big_leaf b + 1\<rparr>) else (p, b))
      (units_for n))"

definition permit_drop :: "memory_permit \<Rightarrow> budget \<Rightarrow> budget" where
  "permit_drop p b =
     (let b = b\<lparr>b_cur := b_cur b - mp_bytes p, b_sem := b_sem b + mp_units p\<rparr>;
          b = (if mp_admission_units p > 0 then b\<lparr>b_admission := b_admission b + mp_admission_units p\<rparr> else b)
      in if mp_big_leaf p then b\<lparr>b_big_leaf := b_big_leaf b + 1\<rparr> else b)"

text \<open>The schedule: entries are named by their position.\<close>

definition remove_at :: "nat \<Rightarrow> 'a list \<Rightarrow> 'a list" where
  "remove_at i xs = take i xs @ drop (Suc i) xs"

definition pool_shrink :: "nat \<Rightarrow> nat \<Rightarrow> pool_state \<Rightarrow> pool_state option" where
  "pool_shrink i n s =
     (if i < length (ps_live s) then
        map_option (\<lambda>(p, b). s\<lparr>ps_budget := b, ps_live := (ps_live s)[i := p]\<rparr>) (permit_shrink n (ps_live s ! i) (ps_budget s))
      else Some s)"

definition pool_drop :: "nat \<Rightarrow> pool_state \<Rightarrow> pool_state" where
  "pool_drop i s =
     (if i < length (ps_live s)
      then s\<lparr>ps_budget := permit_drop (ps_live s ! i) (ps_budget s), ps_live := remove_at i (ps_live s)\<rparr> else s)"

definition wake_ready :: "budget \<Rightarrow> waiting \<Rightarrow> bool" where
  "wake_ready b w =
     (case w of
        ForBigLeaf n \<Rightarrow> 1 \<le> b_big_leaf b
      | ForAdmission n units \<Rightarrow> units \<le> b_admission b
      | ForPool n units adm big \<Rightarrow> units \<le> b_sem b)"

definition wake :: "nat \<Rightarrow> pool_state \<Rightarrow> pool_state option" where
  "wake i s =
     (if i < length (ps_waiting s) \<and> wake_ready (ps_budget s) (ps_waiting s ! i) then
        let t = s\<lparr>ps_waiting := remove_at i (ps_waiting s)\<rparr>
        in case ps_waiting s ! i of
             ForBigLeaf n \<Rightarrow> enter_big_leaf n t
           | ForAdmission n units \<Rightarrow> Some (enter_admission n units t)
           | ForPool n units adm big \<Rightarrow> Some (enter_pool n units adm big t)
      else Some s)"

datatype pool_op = Acquire nat | Admit nat | TryAdmit nat | Wake nat | Shrink nat nat | DropPermit nat

fun pool_step :: "pool_op \<Rightarrow> pool_state \<Rightarrow> pool_state option" where
  "pool_step (Acquire n) s = acquire n s"
| "pool_step (Admit n) s = admit n s"
| "pool_step (TryAdmit n) s = try_admit n s"
| "pool_step (Wake i) s = wake i s"
| "pool_step (Shrink i n) s = pool_shrink i n s"
| "pool_step (DropPermit i) s = Some (pool_drop i s)"

fun pool_run :: "pool_op list \<Rightarrow> pool_state \<Rightarrow> pool_state option" where
  "pool_run [] s = Some s"
| "pool_run (op # ops) s = Option.bind (pool_step op s) (pool_run ops)"

definition pool_start :: "budget \<Rightarrow> pool_state" where
  "pool_start b = \<lparr>ps_budget = b, ps_live = [], ps_waiting = []\<rparr>"

section \<open>Sizing\<close>






text \<open>The limit of the host, over the contents of the three files.\<close>

definition parse_usize :: "codepoints \<Rightarrow> nat option" where
  "parse_usize s = parse_unsigned (2 ^ 64) s"

definition trim :: "codepoints \<Rightarrow> codepoints" where
  "trim s = rev (trim_start (rev (trim_start s)))"

definition read_usize :: "codepoints option \<Rightarrow> nat option" where
  "read_usize contents = Option.bind contents (\<lambda>s. parse_usize (trim s))"

definition strip_prefix :: "'a list \<Rightarrow> 'a list \<Rightarrow> 'a list option" where
  "strip_prefix key l = (if take (length key) l = key then Some (drop (length key) l) else None)"

fun find_field :: "codepoints \<Rightarrow> codepoints list \<Rightarrow> codepoints option" where
  "find_field key [] = None"
| "find_field key (l # ls) = (case strip_prefix key l of Some r \<Rightarrow> Some r | None \<Rightarrow> find_field key ls)"

definition proc_field :: "codepoints \<Rightarrow> codepoints \<Rightarrow> nat option" where
  "proc_field text key =
     Option.bind (find_field key (text_lines text)) (\<lambda>r.
       case split_whitespace r of [] \<Rightarrow> None | w # _ \<Rightarrow> parse_unsigned (2 ^ 64) w)"

definition MEM_TOTAL :: codepoints where "MEM_TOTAL = [77, 101, 109, 84, 111, 116, 97, 108, 58]"

definition read_mem_total :: "codepoints option \<Rightarrow> nat option" where
  "read_mem_total contents =
     Option.bind contents (\<lambda>text. Option.bind (proc_field text MEM_TOTAL) (\<lambda>n. if n * 1024 < 2 ^ 64 then Some (n * 1024) else None))"

definition memory_limit_from :: "codepoints option \<Rightarrow> codepoints option \<Rightarrow> codepoints option \<Rightarrow> nat option" where
  "memory_limit_from v2 v1 meminfo =
     (let total_mem = read_mem_total meminfo;
          limit = (case read_usize v2 of Some l \<Rightarrow> Some l | None \<Rightarrow> read_usize v1)
      in case (limit, total_mem) of (Some l, Some t) \<Rightarrow> Some (min l t) | (Some l, None) \<Rightarrow> Some l | (None, t) \<Rightarrow> t)"

section \<open>No unit is lost\<close>

fun adm_held :: "waiting \<Rightarrow> nat" where
  "adm_held (ForPool n u adm big) = adm"
| "adm_held _ = 0"

fun big_held :: "waiting \<Rightarrow> nat" where
  "big_held (ForPool n u adm big) = of_bool big"
| "big_held _ = 0"

definition held_total :: "('a \<Rightarrow> nat) \<Rightarrow> 'a list \<Rightarrow> nat" where
  "held_total f xs = sum_list (map f xs)"

definition permit_kind :: "nat \<Rightarrow> nat \<Rightarrow> nat \<Rightarrow> bool" where
  "permit_kind leaf_units units adm \<longleftrightarrow> adm = units \<or> adm = 0 \<and> units \<le> leaf_units"

fun waiting_ok :: "nat \<Rightarrow> waiting \<Rightarrow> bool" where
  "waiting_ok leaf_units (ForPool n u adm big) = permit_kind leaf_units u adm"
| "waiting_ok leaf_units _ = True"

definition conserved :: "nat \<Rightarrow> nat \<Rightarrow> pool_state \<Rightarrow> bool" where
  "conserved pool_units adm_units s \<longleftrightarrow>
     b_sem (ps_budget s) + held_total mp_units (ps_live s) = pool_units \<and>
     b_admission (ps_budget s) + held_total mp_admission_units (ps_live s) + held_total adm_held (ps_waiting s) = adm_units \<and>
     b_big_leaf (ps_budget s) + held_total (\<lambda>p. of_bool (mp_big_leaf p)) (ps_live s) + held_total big_held (ps_waiting s) = 1 \<and>
     b_cur (ps_budget s) = held_total mp_bytes (ps_live s) \<and> b_cur (ps_budget s) \<le> b_peak (ps_budget s)"

definition kinds_ok :: "nat \<Rightarrow> pool_state \<Rightarrow> bool" where
  "kinds_ok leaf_max s \<longleftrightarrow>
     b_leaf_max (ps_budget s) = leaf_max \<and>
     list_all (\<lambda>p. permit_kind (div_ceil leaf_max GRANULARITY) (mp_units p) (mp_admission_units p)) (ps_live s) \<and>
     list_all (waiting_ok (div_ceil leaf_max GRANULARITY)) (ps_waiting s)"

lemma held_simps [simp]: "held_total f [] = 0" "held_total f (xs @ ys) = held_total f xs + held_total f ys" "held_total f (x # xs) = f x + held_total f xs"
  by (simp_all add: held_total_def)

lemma held_remove: "i < length xs \<Longrightarrow> held_total f xs = held_total f (remove_at i xs) + f (xs ! i)"
  by (subst id_take_nth_drop [of i xs]) (simp_all add: remove_at_def)

lemma held_update: "i < length xs \<Longrightarrow> held_total f (xs[i := y]) + f (xs ! i) = held_total f xs + f y"
  using held_remove [of i xs f] by (simp add: upd_conv_take_nth_drop remove_at_def)

lemma list_all_remove: "list_all P xs \<Longrightarrow> list_all P (remove_at i xs)"
  by (auto simp: list_all_iff remove_at_def dest: in_set_takeD in_set_dropD)

lemma held_zero: "(\<And>x. x \<in> set xs \<Longrightarrow> f x = g x) \<Longrightarrow> held_total f xs = held_total g xs"
  unfolding held_total_def by (metis map_eq_conv)

lemma div_ceil_mono: "m \<le> n \<Longrightarrow> div_ceil m d \<le> div_ceil n d"
  by (simp add: div_ceil_def div_le_mono)

lemma units_for_leaf: "units_for n = Some u \<Longrightarrow> n \<le> m \<Longrightarrow> u \<le> div_ceil m GRANULARITY"
  using div_ceil_mono [of n m GRANULARITY] by (simp add: units_for_def Let_def split: if_splits)

lemma issue_conserved:
  assumes "b_sem (ps_budget s) + held_total mp_units (ps_live s) + units = pool_units"
    "b_admission (ps_budget s) + held_total mp_admission_units (ps_live s) + held_total adm_held (ps_waiting s) + adm = adm_units"
    "b_big_leaf (ps_budget s) + held_total (\<lambda>p. of_bool (mp_big_leaf p)) (ps_live s) + held_total big_held (ps_waiting s) + of_bool big = 1"
    "b_cur (ps_budget s) = held_total mp_bytes (ps_live s)"
  shows "conserved pool_units adm_units (issue n units adm big s)"
  using assms by (simp add: conserved_def issue_def budget_permit_def Let_def)

text \<open>An acquisition that has already taken \<open>adm\<close> admission units and, when \<open>big\<close>, the
  large-value permit.\<close>

lemma enter_pool_conserved:
  assumes "b_sem (ps_budget s) + held_total mp_units (ps_live s) = pool_units"
    "b_admission (ps_budget s) + held_total mp_admission_units (ps_live s) + held_total adm_held (ps_waiting s) + adm = adm_units"
    "b_big_leaf (ps_budget s) + held_total (\<lambda>p. of_bool (mp_big_leaf p)) (ps_live s) + held_total big_held (ps_waiting s) + of_bool big = 1"
    "b_cur (ps_budget s) = held_total mp_bytes (ps_live s)" "b_cur (ps_budget s) \<le> b_peak (ps_budget s)"
  shows "conserved pool_units adm_units (enter_pool n units adm big s)"
proof (cases "units \<le> b_sem (ps_budget s)")
  case True
  then show ?thesis using assms unfolding enter_pool_def Let_def by (simp only: if_True) (rule issue_conserved; simp)
next
  case False
  then show ?thesis using assms by (simp add: enter_pool_def enqueue_def Let_def conserved_def)
qed

lemma enter_admission_conserved:
  "conserved pool_units adm_units s \<Longrightarrow> conserved pool_units adm_units (enter_admission n units s)"
proof -
  assume c: "conserved pool_units adm_units s"
  show ?thesis
  proof (cases "units \<le> b_admission (ps_budget s)")
    case True
    then show ?thesis using c unfolding enter_admission_def Let_def
      by (simp only: if_True) (rule enter_pool_conserved; simp add: conserved_def)
  next
    case False
    then show ?thesis using c by (simp add: enter_admission_def enqueue_def Let_def conserved_def)
  qed
qed

lemma enter_big_conserved:
  "conserved pool_units adm_units s \<Longrightarrow> enter_big_leaf n s = Some s' \<Longrightarrow> conserved pool_units adm_units s'"
proof -
  assume c: "conserved pool_units adm_units s" and run: "enter_big_leaf n s = Some s'"
  show ?thesis
  proof (cases "1 \<le> b_big_leaf (ps_budget s)")
    case True
    let ?b = "ps_budget s"
    obtain units where s': "s' = enter_pool n units 0 True (s\<lparr>ps_budget := ?b\<lparr>b_big_leaf := b_big_leaf ?b - 1\<rparr>\<rparr>)"
      using run True by (auto simp: enter_big_leaf_def Let_def)
    show ?thesis unfolding s' using c True by (intro enter_pool_conserved) (simp_all add: conserved_def)
  next
    case False
    then show ?thesis using c run by (auto simp: enter_big_leaf_def enqueue_def Let_def conserved_def)
  qed
qed

lemma overshoot_conserved: "conserved pool_units adm_units (overshoot s) = conserved pool_units adm_units s"
  by (simp add: overshoot_def conserved_def)

lemma issue_free_conserved: "conserved pool_units adm_units s \<Longrightarrow> conserved pool_units adm_units (issue n 0 0 False s)"
  by (rule issue_conserved) (simp_all add: conserved_def)

lemma acquire_eq:
  "acquire n s = (if b_leaf_max (ps_budget s) < n then enter_big_leaf n (overshoot s)
     else map_option (\<lambda>units. enter_pool n units 0 False s) (units_for n))"
  by (simp add: acquire_def Let_def min_def)

lemma acquire_conserved:
  assumes c: "conserved pool_units adm_units s" and run: "acquire n s = Some s'"
  shows "conserved pool_units adm_units s'"
proof (cases "b_leaf_max (ps_budget s) < n")
  case True
  then have big: "enter_big_leaf n (overshoot s) = Some s'" using run by (simp add: acquire_eq)
  show ?thesis by (rule enter_big_conserved [OF _ big]) (simp add: overshoot_conserved c)
next
  case False
  then obtain units where s': "s' = enter_pool n units 0 False s" using run by (auto simp: acquire_eq)
  show ?thesis unfolding s' using c by (intro enter_pool_conserved) (simp_all add: conserved_def)
qed

lemma admit_conserved: "conserved pool_units adm_units s \<Longrightarrow> admit n s = Some s' \<Longrightarrow> conserved pool_units adm_units s'"
  by (auto simp: admit_def overshoot_conserved issue_free_conserved enter_admission_conserved split: if_splits)

lemma try_admit_conserved:
  assumes c: "conserved pool_units adm_units s" and run: "try_admit n s = Some s'"
  shows "conserved pool_units adm_units s'"
proof -
  let ?b = "ps_budget s"
  consider "s' = issue n 0 0 False (overshoot s)" | "s' = s"
    | (both) units where "units \<le> b_admission ?b" "units \<le> b_sem ?b"
        "s' = issue n units units False (s\<lparr>ps_budget := ?b\<lparr>b_admission := b_admission ?b - units, b_sem := b_sem ?b - units\<rparr>\<rparr>)"
    using run by (auto simp: try_admit_def Let_def split: if_splits)
  then show ?thesis
  proof cases
    case both
    show ?thesis unfolding both(3) using c both(1,2) by (intro issue_conserved) (simp_all add: conserved_def)
  qed (use c in \<open>simp_all add: issue_free_conserved overshoot_conserved\<close>)
qed

lemma wake_conserved:
  assumes c: "conserved pool_units adm_units s" and run: "wake i s = Some s'"
  shows "conserved pool_units adm_units s'"
proof (cases "i < length (ps_waiting s) \<and> wake_ready (ps_budget s) (ps_waiting s ! i)")
  case True
  let ?t = "s\<lparr>ps_waiting := remove_at i (ps_waiting s)\<rparr>"
  have h: "held_total f (ps_waiting s) = held_total f (remove_at i (ps_waiting s)) + f (ps_waiting s ! i)" for f
    using True by (intro held_remove) simp
  show ?thesis
  proof (cases "ps_waiting s ! i")
    case (ForBigLeaf n)
    then have "enter_big_leaf n ?t = Some s'" using run True by (simp add: wake_def)
    moreover have "conserved pool_units adm_units ?t" using c h [of adm_held] h [of big_held] ForBigLeaf by (simp add: conserved_def)
    ultimately show ?thesis using enter_big_conserved by blast
  next
    case (ForAdmission n units)
    then have "s' = enter_admission n units ?t" using run True by (simp add: wake_def)
    moreover have "conserved pool_units adm_units ?t" using c h [of adm_held] h [of big_held] ForAdmission by (simp add: conserved_def)
    ultimately show ?thesis using enter_admission_conserved by blast
  next
    case (ForPool n units adm big)
    then have s': "s' = enter_pool n units adm big ?t" using run True by (simp add: wake_def)
    show ?thesis unfolding s' using c h [of adm_held] h [of big_held] ForPool
      by (intro enter_pool_conserved) (simp_all add: conserved_def)
  qed
next
  case False
  then show ?thesis using assms by (auto simp: wake_def split: if_splits)
qed

text \<open>What a shrink moves: every quantity leaves the permit and arrives in the pool.\<close>

lemma shrink_eq:
  assumes "n < mp_bytes p" "units_for n = Some u" "nu = min u (mp_units p)" "fa = min (mp_units p - nu) (mp_admission_units p)"
    "p1 = p\<lparr>mp_admission_units := mp_admission_units p - fa, mp_units := nu, mp_bytes := n\<rparr>"
    "b1 = b\<lparr>b_sem := b_sem b + (mp_units p - nu), b_admission := b_admission b + fa, b_cur := b_cur b - (mp_bytes p - n)\<rparr>"
  shows "permit_shrink n p b = Some (if mp_big_leaf p \<and> n \<le> b_leaf_max b then (p1\<lparr>mp_big_leaf := False\<rparr>, b1\<lparr>b_big_leaf := b_big_leaf b + 1\<rparr>) else (p1, b1))"
proof -
  have nn: "\<not> n \<ge> mp_bytes p" using assms(1) by simp
  show ?thesis
  proof (cases "mp_units p - nu = 0")
    case True
    then have "fa = 0" "nu = mp_units p" "mp_units p \<le> u" using assms(3,4) by (simp_all add: min_def split: if_splits)
    then show ?thesis using nn assms(2) unfolding assms(5,6) by (cases p; cases b) (simp add: permit_shrink_def Let_def)
  next
    case False
    then have nu: "nu = u" "u < mp_units p" using assms(3) by (simp_all add: min_def split: if_splits)
    show ?thesis
    proof (cases "mp_admission_units p = 0")
      case True
      then show ?thesis using nn assms(2) nu assms(4) unfolding assms(5,6) by (cases p; cases b) (simp add: permit_shrink_def Let_def)
    next
      case pos: False
      then show ?thesis using nn assms(2) nu assms(4) unfolding assms(5,6) by (cases p; cases b) (simp add: permit_shrink_def Let_def)
    qed
  qed
qed

lemma shrink_moves:
  assumes "permit_shrink n p b = Some (p', b')" "mp_bytes p \<le> b_cur b"
  shows "b_sem b' + mp_units p' = b_sem b + mp_units p" "b_admission b' + mp_admission_units p' = b_admission b + mp_admission_units p"
    "b_big_leaf b' + of_bool (mp_big_leaf p') = b_big_leaf b + of_bool (mp_big_leaf p)"
    "b_cur b' + mp_bytes p = b_cur b + mp_bytes p'" "b_peak b' = b_peak b" "b_leaf_max b' = b_leaf_max b" "mp_bytes p' \<le> mp_bytes p"
    "permit_kind l (mp_units p) (mp_admission_units p) \<Longrightarrow> permit_kind l (mp_units p') (mp_admission_units p')"
proof -
  have "(p', b') = (p, b) \<or> (\<exists>u. n < mp_bytes p \<and> units_for n = Some u)"
    using assms(1) by (cases "mp_bytes p \<le> n") (auto simp: permit_shrink_def)
  then consider "p' = p" "b' = b" | (less) u where "n < mp_bytes p" "units_for n = Some u" by blast
  then have "b_sem b' + mp_units p' = b_sem b + mp_units p \<and> b_admission b' + mp_admission_units p' = b_admission b + mp_admission_units p \<and>
    b_big_leaf b' + of_bool (mp_big_leaf p') = b_big_leaf b + of_bool (mp_big_leaf p) \<and>
    b_cur b' + mp_bytes p = b_cur b + mp_bytes p' \<and> b_peak b' = b_peak b \<and> b_leaf_max b' = b_leaf_max b \<and> mp_bytes p' \<le> mp_bytes p \<and>
    (permit_kind l (mp_units p) (mp_admission_units p) \<longrightarrow> permit_kind l (mp_units p') (mp_admission_units p'))"
  proof cases
    case less
    define nu where "nu = min u (mp_units p)"
    define fa where "fa = min (mp_units p - nu) (mp_admission_units p)"
    have le: "nu \<le> mp_units p" "fa \<le> mp_admission_units p" "fa = mp_units p - nu \<or> fa = mp_admission_units p" "fa \<le> mp_units p - nu"
      by (auto simp: nu_def fa_def)
    have k: "permit_kind l (mp_units p) (mp_admission_units p) \<longrightarrow> permit_kind l nu (mp_admission_units p - fa)"
      using le by (auto simp: permit_kind_def fa_def)
    note eq = shrink_eq [OF less nu_def fa_def refl refl, of b]
    show ?thesis
    proof (cases "mp_big_leaf p \<and> n \<le> b_leaf_max b")
      case True
      then show ?thesis using eq assms less(1) le k by auto
    next
      case False
      then have "p' = p\<lparr>mp_admission_units := mp_admission_units p - fa, mp_units := nu, mp_bytes := n\<rparr>"
        "b' = b\<lparr>b_sem := b_sem b + (mp_units p - nu), b_admission := b_admission b + fa, b_cur := b_cur b - (mp_bytes p - n)\<rparr>"
        using eq assms(1) by (simp_all only: if_False option.inject prod.inject)
      then show ?thesis using assms(2) less(1) le k by simp
    qed
  qed simp
  then show "b_sem b' + mp_units p' = b_sem b + mp_units p" "b_admission b' + mp_admission_units p' = b_admission b + mp_admission_units p"
    "b_big_leaf b' + of_bool (mp_big_leaf p') = b_big_leaf b + of_bool (mp_big_leaf p)"
    "b_cur b' + mp_bytes p = b_cur b + mp_bytes p'" "b_peak b' = b_peak b" "b_leaf_max b' = b_leaf_max b" "mp_bytes p' \<le> mp_bytes p"
    "permit_kind l (mp_units p) (mp_admission_units p) \<Longrightarrow> permit_kind l (mp_units p') (mp_admission_units p')"
    by blast+
qed

lemma held_ge: "i < length xs \<Longrightarrow> f (xs ! i) \<le> held_total f xs"
  using held_remove [of i xs f] by simp

lemma shrink_conserved:
  assumes c: "conserved pool_units adm_units s" and run: "pool_shrink i n s = Some s'"
  shows "conserved pool_units adm_units s'"
proof (cases "i < length (ps_live s)")
  case True
  let ?p = "ps_live s ! i"
  obtain p b where sh: "permit_shrink n ?p (ps_budget s) = Some (p, b)" and s': "s' = s\<lparr>ps_budget := b, ps_live := (ps_live s)[i := p]\<rparr>"
    using run True by (auto simp: pool_shrink_def)
  have le: "mp_bytes ?p \<le> b_cur (ps_budget s)" using c held_ge [OF True, of mp_bytes] by (simp add: conserved_def)
  note m = shrink_moves [OF sh le]
  have "held_total f ((ps_live s)[i := p]) + f ?p = held_total f (ps_live s) + f p" for f :: "memory_permit \<Rightarrow> nat" by (rule held_update [OF True])
  note h = this [of mp_units] this [of mp_admission_units] this [of "\<lambda>p. of_bool (mp_big_leaf p)"] this [of mp_bytes]
  show ?thesis using c m(1-5,7) h unfolding s' conserved_def by simp
qed (use assms in \<open>simp add: pool_shrink_def\<close>)

lemma drop_fields:
  "b_sem (permit_drop p b) = b_sem b + mp_units p" "b_admission (permit_drop p b) = b_admission b + mp_admission_units p"
  "b_big_leaf (permit_drop p b) = b_big_leaf b + of_bool (mp_big_leaf p)" "b_cur (permit_drop p b) = b_cur b - mp_bytes p"
  "b_peak (permit_drop p b) = b_peak b" "b_leaf_max (permit_drop p b) = b_leaf_max b"
  by (simp_all add: permit_drop_def Let_def)

lemma drop_conserved: "conserved pool_units adm_units s \<Longrightarrow> conserved pool_units adm_units (pool_drop i s)"
proof (cases "i < length (ps_live s)")
  case True
  assume c: "conserved pool_units adm_units s"
  have "held_total f (ps_live s) = held_total f (remove_at i (ps_live s)) + f (ps_live s ! i)" for f :: "memory_permit \<Rightarrow> nat" by (rule held_remove [OF True])
  note h = this [of mp_units] this [of mp_admission_units] this [of "\<lambda>p. of_bool (mp_big_leaf p)"] this [of mp_bytes]
  show ?thesis using c h True by (simp add: pool_drop_def conserved_def drop_fields)
qed (simp add: pool_drop_def)

section \<open>Kinds of permits\<close>

lemma issue_kinds:
  "kinds_ok leaf_max s \<Longrightarrow> permit_kind (div_ceil leaf_max GRANULARITY) units adm \<Longrightarrow> kinds_ok leaf_max (issue n units adm big s)"
  by (simp add: kinds_ok_def issue_def budget_permit_def Let_def)

lemma kinds_budget: "b_leaf_max b = b_leaf_max (ps_budget s) \<Longrightarrow> kinds_ok leaf_max (s\<lparr>ps_budget := b\<rparr>) = kinds_ok leaf_max s"
  by (simp add: kinds_ok_def)

lemma enqueue_kinds: "kinds_ok leaf_max s \<Longrightarrow> waiting_ok (div_ceil leaf_max GRANULARITY) w \<Longrightarrow> kinds_ok leaf_max (enqueue w s)"
  by (simp add: kinds_ok_def enqueue_def)

lemma enter_pool_kinds:
  assumes "kinds_ok leaf_max s" "permit_kind (div_ceil leaf_max GRANULARITY) units adm"
  shows "kinds_ok leaf_max (enter_pool n units adm big s)"
  using assms by (simp add: enter_pool_def Let_def issue_kinds enqueue_kinds kinds_budget)

lemma enter_admission_kinds: "kinds_ok leaf_max s \<Longrightarrow> kinds_ok leaf_max (enter_admission n units s)"
  by (simp add: enter_admission_def Let_def enter_pool_kinds enqueue_kinds kinds_budget permit_kind_def)

lemma enter_big_kinds:
  assumes "kinds_ok leaf_max s" "enter_big_leaf n s = Some s'"
  shows "kinds_ok leaf_max s'"
proof -
  have lm: "b_leaf_max (ps_budget s) = leaf_max" using assms(1) by (simp add: kinds_ok_def)
  have "permit_kind (div_ceil leaf_max GRANULARITY) u 0" if "units_for (min n leaf_max) = Some u" for u
    using units_for_leaf [OF that, of leaf_max] by (simp add: permit_kind_def)
  then show ?thesis using assms
    by (auto simp: enter_big_leaf_def Let_def lm split: if_splits intro!: enter_pool_kinds enqueue_kinds) (simp_all add: kinds_budget)
qed

lemma overshoot_kinds: "kinds_ok leaf_max (overshoot s) = kinds_ok leaf_max s"
  by (simp add: overshoot_def kinds_budget)

lemma acquire_kinds:
  assumes "kinds_ok leaf_max s" "acquire n s = Some s'"
  shows "kinds_ok leaf_max s'"
proof (cases "b_leaf_max (ps_budget s) < n")
  case True
  then have "enter_big_leaf n (overshoot s) = Some s'" using assms(2) by (simp add: acquire_eq)
  then show ?thesis using enter_big_kinds assms(1) overshoot_kinds by blast
next
  case False
  then obtain u where u: "units_for n = Some u" "s' = enter_pool n u 0 False s" using assms(2) by (auto simp: acquire_eq)
  have "n \<le> leaf_max" using False assms(1) by (simp add: kinds_ok_def)
  then have "permit_kind (div_ceil leaf_max GRANULARITY) u 0" using units_for_leaf [OF u(1)] by (simp add: permit_kind_def)
  then show ?thesis unfolding u(2) using assms(1) by (intro enter_pool_kinds)
qed

lemma admit_kinds: "kinds_ok leaf_max s \<Longrightarrow> admit n s = Some s' \<Longrightarrow> kinds_ok leaf_max s'"
  by (auto simp: admit_def overshoot_kinds issue_kinds permit_kind_def enter_admission_kinds split: if_splits)

lemma try_admit_kinds: "kinds_ok leaf_max s \<Longrightarrow> try_admit n s = Some s' \<Longrightarrow> kinds_ok leaf_max s'"
  by (auto simp: try_admit_def Let_def overshoot_kinds kinds_budget issue_kinds permit_kind_def split: if_splits)

lemma wake_kinds:
  assumes "kinds_ok leaf_max s" "wake i s = Some s'"
  shows "kinds_ok leaf_max s'"
proof (cases "i < length (ps_waiting s) \<and> wake_ready (ps_budget s) (ps_waiting s ! i)")
  case True
  let ?t = "s\<lparr>ps_waiting := remove_at i (ps_waiting s)\<rparr>"
  have t: "kinds_ok leaf_max ?t" using assms(1) by (simp add: kinds_ok_def list_all_remove)
  have w: "waiting_ok (div_ceil leaf_max GRANULARITY) (ps_waiting s ! i)" using assms(1) True by (simp add: kinds_ok_def list_all_length)
  show ?thesis using assms(2) True t w
    by (cases "ps_waiting s ! i") (auto simp: wake_def Let_def enter_admission_kinds enter_pool_kinds dest: enter_big_kinds)
next
  case False
  then show ?thesis using assms by (auto simp: wake_def split: if_splits)
qed

lemma shrink_kinds:
  assumes "conserved pool_units adm_units s" "kinds_ok leaf_max s" "pool_shrink i n s = Some s'"
  shows "kinds_ok leaf_max s'"
proof (cases "i < length (ps_live s)")
  case True
  obtain p b where sh: "permit_shrink n (ps_live s ! i) (ps_budget s) = Some (p, b)" and s': "s' = s\<lparr>ps_budget := b, ps_live := (ps_live s)[i := p]\<rparr>"
    using assms(3) True by (auto simp: pool_shrink_def)
  have "mp_bytes (ps_live s ! i) \<le> b_cur (ps_budget s)" using assms(1) held_ge [OF True, of mp_bytes] by (simp add: conserved_def)
  note m = shrink_moves [OF sh this]
  have "permit_kind (div_ceil leaf_max GRANULARITY) (mp_units (ps_live s ! i)) (mp_admission_units (ps_live s ! i))"
    using assms(2) True by (simp add: kinds_ok_def list_all_length)
  from m(8) [OF this] show ?thesis using assms(2) m(6) True
    by (auto simp: s' kinds_ok_def list_all_length nth_list_update)
qed (use assms in \<open>simp add: pool_shrink_def\<close>)

lemma drop_kinds: "kinds_ok leaf_max s \<Longrightarrow> kinds_ok leaf_max (pool_drop i s)"
  by (simp add: pool_drop_def kinds_ok_def drop_fields list_all_remove)

lemma pool_step_ok:
  assumes "conserved pool_units adm_units s" "kinds_ok leaf_max s" "pool_step op s = Some s'"
  shows "conserved pool_units adm_units s' \<and> kinds_ok leaf_max s'"
  using assms
  by (cases op) (auto dest: acquire_conserved acquire_kinds admit_conserved admit_kinds try_admit_conserved try_admit_kinds
      wake_conserved wake_kinds shrink_conserved shrink_kinds simp: drop_conserved drop_kinds)

lemma pool_run_ok:
  "conserved pool_units adm_units s \<Longrightarrow> kinds_ok leaf_max s \<Longrightarrow> pool_run ops s = Some s' \<Longrightarrow> conserved pool_units adm_units s' \<and> kinds_ok leaf_max s'"
proof (induction ops arbitrary: s)
  case (Cons op ops)
  then obtain t where "pool_step op s = Some t" "pool_run ops t = Some s'" by (auto simp: ok_iff)
  then show ?case using Cons pool_step_ok by blast
qed simp

lemma pool_start_ok:
  "conserved (max (div_ceil n GRANULARITY) 1) (max (div_ceil (n - r) GRANULARITY) 1) (pool_start (with_leaf_reserve n r))"
  "kinds_ok (if r = 0 then n else r) (pool_start (with_leaf_reserve n r))"
  by (simp_all add: conserved_def kinds_ok_def pool_start_def with_leaf_reserve_def Let_def)

lemma div_ceil_split:
  assumes "0 < d" "d dvd r" "r \<le> n"
  shows "div_ceil n d = div_ceil (n - r) d + div_ceil r d"
proof -
  obtain k where k: "r = d * k" using assms(2) by blast
  have r: "div_ceil r d = k"
  proof -
    have "((d - 1) + d * k) div d = k + (d - 1) div d" using assms(1) by (intro div_mult_self2) simp
    moreover have "r + d - 1 = (d - 1) + d * k" using assms(1) k by simp
    ultimately show ?thesis using assms(1) unfolding div_ceil_def by simp
  qed
  have "n + d - 1 = (n - r + d - 1) + d * k" using assms(1,3) k by simp
  then have "div_ceil n d = div_ceil (n - r) d + k" using assms(1) unfolding div_ceil_def by (metis add.commute div_mult_self2 not_gr_zero)
  then show ?thesis using r by simp
qed

section \<open>Properties\<close>


text \<open>C35: Leaf requests never wait for admission. When the reserve is a whole number of KiB and no leaf
  permit is live, every leaf request queued for the pool (a large value that holds the large-value
  permit included) finds its units free, however many admission permits are held and whatever
  they wait for.\<close>

theorem leaf_waits_only_for_leaves:
  assumes "pool_run ops (pool_start (with_leaf_reserve n r)) = Some s" "GRANULARITY dvd r" "0 < r" "r < n"
    "list_all (\<lambda>p. mp_units p = mp_admission_units p) (ps_live s)"
    "i < length (ps_waiting s)" "ps_waiting s ! i = ForPool m u 0 big"
  shows "wake_ready (ps_budget s) (ps_waiting s ! i)"
proof -
  let ?U = "div_ceil n GRANULARITY" and ?A = "div_ceil (n - r) GRANULARITY" and ?L = "div_ceil r GRANULARITY"
  have ok: "conserved (max ?U 1) (max ?A 1) s" "kinds_ok r s"
    using pool_run_ok [OF pool_start_ok assms(1)] assms(3) by auto
  have split: "?U = ?A + ?L" using assms(2,4) by (intro div_ceil_split) (simp_all add: GRANULARITY_def)
  have "0 < ?A" using assms(4) by (simp add: div_ceil_def GRANULARITY_def)
  then have A: "max ?A 1 = ?A" "max ?U 1 = ?U" using split by simp_all
  have "held_total mp_units (ps_live s) = held_total mp_admission_units (ps_live s)"
    using assms(5) by (intro held_zero) (simp add: list_all_iff)
  then have free: "?L \<le> b_sem (ps_budget s)" using ok(1) split unfolding conserved_def A by linarith
  have "waiting_ok ?L (ps_waiting s ! i)" using ok(2) assms(6) by (simp add: kinds_ok_def list_all_length)
  then have "u \<le> ?L" using assms(7) by (auto simp: permit_kind_def)
  then show ?thesis using free assms(7) by (simp add: wake_ready_def)
qed



theorem leaf_waits_only_for_leaves_witness:
  "(\<exists>s. pool_run [Admit 6144, Acquire 2048, Acquire 1000, DropPermit 1] (pool_start (with_leaf_reserve 8192 2048)) = Some s \<and>
     ps_waiting s = [ForPool 1000 1 0 False] \<and> wake_ready (ps_budget s) (ps_waiting s ! 0))"
proof -
  have "\<exists>s. pool_run [Admit 6144, Acquire 2048, Acquire 1000, DropPermit 1] (pool_start (with_leaf_reserve 8192 2048)) = Some s \<and>
      ps_waiting s = [ForPool 1000 1 0 False] \<and> list_all (\<lambda>p. mp_units p = mp_admission_units p) (ps_live s)"
    by (simp add: pool_start_def with_leaf_reserve_def Let_def admit_def acquire_eq units_for_def div_ceil_def GRANULARITY_def
        enter_admission_def enter_pool_def issue_def budget_permit_def enqueue_def pool_drop_def remove_at_def permit_drop_def)
  then obtain s where s: "pool_run [Admit 6144, Acquire 2048, Acquire 1000, DropPermit 1] (pool_start (with_leaf_reserve 8192 2048)) = Some s"
    and w: "ps_waiting s = [ForPool 1000 1 0 False]" and l: "list_all (\<lambda>p. mp_units p = mp_admission_units p) (ps_live s)"
    by blast
  have "wake_ready (ps_budget s) (ps_waiting s ! 0)"
    by (rule leaf_waits_only_for_leaves [OF s _ _ _ l, where m = 1000 and u = 1 and big = False]) (simp_all add: w GRANULARITY_def)
  then show ?thesis using s w by blast
qed

end
