(* ===== verification/Xact_Record.thy ===== *)
theory Xact_Record
  imports WS_Prelude
begin

unbundle bit_operations_syntax

text \<open>
  Parsing of transaction WAL records (\<open>src/src/decode/wal_xact.rs\<close>). A reader takes the unread
  bytes and returns the value with the rest. \<open>usize\<close> products are checked at 64 bits, signed
  fields are words read with \<open>sint\<close>.
\<close>

section \<open>Constants and data\<close>

definition XLOG_XACT_HAS_INFO :: u8 where "XLOG_XACT_HAS_INFO = 0x80"
definition XACT_XINFO_HAS_DBINFO :: u32 where "XACT_XINFO_HAS_DBINFO = 1"
definition XACT_XINFO_HAS_SUBXACTS :: u32 where "XACT_XINFO_HAS_SUBXACTS = 2"
definition XACT_XINFO_HAS_RELFILELOCATORS :: u32 where "XACT_XINFO_HAS_RELFILELOCATORS = 4"
definition XACT_XINFO_HAS_INVALS :: u32 where "XACT_XINFO_HAS_INVALS = 8"
definition XACT_XINFO_HAS_TWOPHASE :: u32 where "XACT_XINFO_HAS_TWOPHASE = 16"
definition XACT_XINFO_HAS_ORIGIN :: u32 where "XACT_XINFO_HAS_ORIGIN = 32"
definition XACT_XINFO_HAS_GID :: u32 where "XACT_XINFO_HAS_GID = 128"
definition XACT_XINFO_HAS_DROPPED_STATS :: u32 where "XACT_XINFO_HAS_DROPPED_STATS = 256"
definition PG_NAMESPACE_OID :: u32 where "PG_NAMESPACE_OID = 2615"

record relcache_inval =
  ri_db_id :: u32
  ri_rel_id :: u32

datatype namespace_inval = NsEmpty | NsShared | NsUnshared u32 | NsBoth u32

record inval_set =
  is_relcache :: "relcache_inval list"
  is_namespace :: namespace_inval

definition inval_set_default :: inval_set where
  "inval_set_default = \<lparr>is_relcache = [], is_namespace = NsEmpty\<rparr>"

fun ns_mark :: "namespace_inval \<Rightarrow> u32 \<Rightarrow> namespace_inval" where
  "ns_mark NsEmpty db = (if db = 0 then NsShared else NsUnshared db)"
| "ns_mark NsShared db = (if db = 0 then NsShared else NsBoth db)"
| "ns_mark (NsUnshared db) m = (if m = 0 then NsBoth db else if m = db then NsUnshared db else NsShared)"
| "ns_mark (NsBoth db) m = (if m = 0 then NsBoth db else if m = db then NsBoth db else NsShared)"

fun ns_hits :: "namespace_inval \<Rightarrow> (u32 \<Rightarrow> bool) \<Rightarrow> bool" where
  "ns_hits NsEmpty local_db = False"
| "ns_hits NsShared local_db = local_db 0"
| "ns_hits (NsUnshared db) local_db = local_db db"
| "ns_hits (NsBoth db) local_db = (local_db 0 \<or> local_db db)"

record xact_commit_payload =
  xp_xact_time :: u64
  xp_subxacts :: "u32 list"
  xp_twophase_xid :: "u32 option"
  xp_invals :: inval_set
  xp_db_id :: "u32 option"

datatype xact_payload_error =
    Malformed string
  | ForeignScope u32 u32
  | MixedScope u32 u32

section \<open>Readers\<close>

definition take_u32 :: "bytes \<Rightarrow> (u32 \<times> bytes) option" where
  "take_u32 data = map_option (\<lambda>(v, rest). (word_of_nat (le_nat v), rest)) (split_at_checked 4 data)"

definition take_i64 :: "bytes \<Rightarrow> (u64 \<times> bytes) option" where
  "take_i64 data = map_option (\<lambda>(v, rest). (word_of_nat (le_nat v), rest)) (split_at_checked 8 data)"

definition take_count :: "bytes \<Rightarrow> (nat \<times> bytes) option" where
  "take_count data =
     Option.bind (take_u32 data) (\<lambda>(v, rest). if 0 \<le> sint v then Some (nat (sint v), rest) else None)"

definition skip_bytes :: "nat \<Rightarrow> bytes \<Rightarrow> bytes option" where
  "skip_bytes count data = map_option snd (split_at_checked count data)"

definition skip_counted :: "u32 \<Rightarrow> u32 \<Rightarrow> nat \<Rightarrow> bytes \<Rightarrow> bytes option" where
  "skip_counted xinfo flag width data =
     (if xinfo AND flag = 0 then Some data
      else Option.bind (take_count data) (\<lambda>(count, rest).
             if count * width < 2 ^ 64 then skip_bytes (count * width) rest else None))"

definition parse_xact_assignment :: "bytes \<Rightarrow> (u32 \<times> u32 list) option" where
  "parse_xact_assignment data =
     Option.bind (take_u32 data) (\<lambda>(top_xid, data).
     Option.bind (take_count data) (\<lambda>(count, data).
     map_option (\<lambda>(subs, data). (top_xid, subs)) (take_n take_u32 count data)))"

definition stats_item_width :: "u16 \<Rightarrow> nat" where
  "stats_item_width page_magic = (if page_magic \<ge> 0xD118 then 16 else 12)"

definition namespace_catcache_ids :: "u16 \<Rightarrow> int list" where
  "namespace_catcache_ids page_magic = (if page_magic \<ge> 0xD118 then [37, 38] else [35, 36])"

definition u32_from :: "bytes \<Rightarrow> u32" where
  "u32_from bs = word_of_nat (le_nat bs)"

definition classify_inval :: "u16 \<Rightarrow> bytes \<Rightarrow> inval_set \<Rightarrow> (xact_payload_error, inval_set) result" where
  "classify_inval page_magic msg out =
     (let ns_ids = namespace_catcache_ids page_magic;
          db_id = u32_from (slice 4 8 msg);
          arg = u32_from (slice 8 12 msg);
          id = sint (msg ! 0)
      in if id = - 2 then Inr (out\<lparr>is_relcache := is_relcache out @ [\<lparr>ri_db_id = db_id, ri_rel_id = arg\<rparr>]\<rparr>)
         else if id = - 1 \<and> arg = PG_NAMESPACE_OID then Inr (out\<lparr>is_namespace := ns_mark (is_namespace out) db_id\<rparr>)
         else if id \<in> set ns_ids then Inr (out\<lparr>is_namespace := ns_mark (is_namespace out) db_id\<rparr>)
         else if - 6 \<le> id \<and> id \<le> - 1 then Inr out
         else if id \<ge> 0 then Inr out
         else Inl (Malformed ''unknown sinval id''))"

fun take_inval_msgs :: "u16 \<Rightarrow> nat \<Rightarrow> bytes \<Rightarrow> inval_set \<Rightarrow> (xact_payload_error, inval_set \<times> bytes) result" where
  "take_inval_msgs page_magic 0 data out = Inr (out, data)"
| "take_inval_msgs page_magic (Suc n) data out =
     rbind (ok_or (Malformed ''inval msg'') (split_at_checked 16 data)) (\<lambda>(msg, data).
     rbind (classify_inval page_magic msg out) (\<lambda>out. take_inval_msgs page_magic n data out))"

definition take_invals :: "u16 \<Rightarrow> inval_set \<Rightarrow> bytes \<Rightarrow> (xact_payload_error, inval_set \<times> bytes) result" where
  "take_invals page_magic out data =
     rbind (ok_or (Malformed ''inval count'') (take_count data)) (\<lambda>(count, data). take_inval_msgs page_magic count data out)"

definition parse_xact_invalidations :: "bytes \<Rightarrow> u16 \<Rightarrow> (xact_payload_error, inval_set) result" where
  "parse_xact_invalidations data page_magic =
     rbind (take_invals page_magic inval_set_default data) (\<lambda>(out, data). Inr out)"

text \<open>The optional sections of a commit or abort record, in order.\<close>

definition rd_xinfo :: "u8 \<Rightarrow> bytes \<Rightarrow> (xact_payload_error, u32 \<times> bytes) result" where
  "rd_xinfo info data =
     (if info AND XLOG_XACT_HAS_INFO \<noteq> 0 then ok_or (Malformed ''xinfo'') (take_u32 data) else Inr (0, data))"

definition rd_dbinfo :: "u32 \<Rightarrow> bytes \<Rightarrow> (xact_payload_error, u32 option \<times> bytes) result" where
  "rd_dbinfo xinfo data =
     (if xinfo AND XACT_XINFO_HAS_DBINFO \<noteq> 0 then
        rbind (ok_or (Malformed ''dbinfo'') (take_u32 data)) (\<lambda>(db_id, data).
        rbind (ok_or (Malformed ''dbinfo'') (take_u32 data)) (\<lambda>(ts_id, data). Inr (Some db_id, data)))
      else Inr (None, data))"

definition rd_subxacts :: "u32 \<Rightarrow> bytes \<Rightarrow> (xact_payload_error, u32 list \<times> bytes) result" where
  "rd_subxacts xinfo data =
     (if xinfo AND XACT_XINFO_HAS_SUBXACTS \<noteq> 0 then
        rbind (ok_or (Malformed ''subxact count'') (take_count data)) (\<lambda>(count, data).
        ok_or (Malformed ''subxact'') (take_n take_u32 count data))
      else Inr ([], data))"

definition rd_twophase :: "u32 \<Rightarrow> bytes \<Rightarrow> (xact_payload_error, u32 option \<times> bytes) result" where
  "rd_twophase xinfo data =
     (if xinfo AND XACT_XINFO_HAS_TWOPHASE \<noteq> 0 then
        rbind (ok_or (Malformed ''twophase xid'') (take_u32 data)) (\<lambda>(xid, data).
        if xinfo AND XACT_XINFO_HAS_GID \<noteq> 0 then
          (case dropWhile (\<lambda>b. b \<noteq> 0) data of
             [] \<Rightarrow> Inl (Malformed ''gid terminator'')
           | _ # rest \<Rightarrow> Inr (Some xid, rest))
        else Inr (Some xid, data))
      else Inr (None, data))"

definition rd_skip :: "string \<Rightarrow> u32 \<Rightarrow> u32 \<Rightarrow> nat \<Rightarrow> bytes \<Rightarrow> (xact_payload_error, unit \<times> bytes) result" where
  "rd_skip what xinfo flag width data = map_sum id (Pair ()) (ok_or (Malformed what) (skip_counted xinfo flag width data))"

definition rd_invals :: "u16 \<Rightarrow> u32 \<Rightarrow> bytes \<Rightarrow> (xact_payload_error, inval_set \<times> bytes) result" where
  "rd_invals page_magic xinfo data =
     (if xinfo AND XACT_XINFO_HAS_INVALS \<noteq> 0 then take_invals page_magic inval_set_default data else Inr (inval_set_default, data))"

definition parse_xact_payload :: "u8 \<Rightarrow> bytes \<Rightarrow> u16 \<Rightarrow> (xact_payload_error, xact_commit_payload) result" where
  "parse_xact_payload info data page_magic =
     rbind (ok_or (Malformed ''xact_time'') (take_i64 data)) (\<lambda>(xact_time, data).
     rbind (rd_xinfo info data) (\<lambda>(xinfo, data).
     rbind (rd_dbinfo xinfo data) (\<lambda>(db_id, data).
     rbind (rd_subxacts xinfo data) (\<lambda>(subxacts, data).
     rbind (rd_skip ''relfilelocators'' xinfo XACT_XINFO_HAS_RELFILELOCATORS 12 data) (\<lambda>(_, data).
     rbind (rd_skip ''dropped stats'' xinfo XACT_XINFO_HAS_DROPPED_STATS (stats_item_width page_magic) data) (\<lambda>(_, data).
     rbind (rd_invals page_magic xinfo data) (\<lambda>(invals, data).
     rbind (rd_twophase xinfo data) (\<lambda>(twophase_xid, data).
       if xinfo AND XACT_XINFO_HAS_ORIGIN \<noteq> 0 \<and> length data < 16 then Inl (Malformed ''origin'')
       else Inr \<lparr>xp_xact_time = xact_time, xp_subxacts = subxacts, xp_twophase_xid = twophase_xid,
                 xp_invals = invals, xp_db_id = db_id\<rparr>))))))))"

section \<open>The fixed-width fields\<close>

definition le4 :: "u32 \<Rightarrow> bytes" where "le4 w = le_bytes 4 (unat w)"
definition le8 :: "u64 \<Rightarrow> bytes" where "le8 w = le_bytes 8 (unat w)"

interpretation u32_field: field_codec le4 take_u32 4
  by unfold_locales (auto simp: take_u32_def le4_def split_at_checked_def word_le_roundtrip split: if_splits)

interpretation i64_field: field_codec le8 take_i64 8
  by unfold_locales (auto simp: take_i64_def le8_def split_at_checked_def word_le_roundtrip split: if_splits)

section \<open>Readers and encodings\<close>

text \<open>A reader accepts exactly an encoding: it returns the value and the bytes after it, and refuses
  every proper prefix.\<close>

definition reads :: "(bytes \<Rightarrow> ('e, 'a \<times> bytes) result) \<Rightarrow> bytes \<Rightarrow> 'a \<Rightarrow> bool" where
  "reads rd e x \<longleftrightarrow> (\<forall>rest. rd (e @ rest) = Inr (x, rest)) \<and> (\<forall>k < length e. \<exists>err. rd (take k e) = Inl err)"

lemma reads_bind:
  assumes "reads rd e x" "reads (f x) e' y"
  shows "reads (\<lambda>d. rbind (rd d) (\<lambda>(x, d). f x d)) (e @ e') y"
proof -
  have "\<exists>err. rbind (rd (take k (e @ e'))) (\<lambda>(x, d). f x d) = Inl err" if "k < length (e @ e')" for k
  proof (cases "k < length e")
    case True
    then obtain err where "rd (take k e) = Inl err" using assms(1) by (auto simp: reads_def)
    then show ?thesis using True by simp
  next
    case False
    then have "k - length e < length e'" using that by simp
    then obtain err where "f x (take (k - length e) e') = Inl err" using assms(2) unfolding reads_def by blast
    then show ?thesis using False assms(1) by (simp add: reads_def)
  qed
  then show ?thesis using assms by (simp add: reads_def)
qed

lemma reads_return: "reads (\<lambda>d. Inr (x, d)) [] x"
  by (simp add: reads_def)

lemma reads_map: "reads rd e x \<Longrightarrow> reads (\<lambda>d. rbind (rd d) (\<lambda>(x, d). Inr (g x, d))) e (g x)"
  using reads_bind [of rd e x "\<lambda>x d. Inr (g x, d)" "[]" "g x"] reads_return [of "g x"] by simp

context field_codec
begin

lemma reads_field: "reads (\<lambda>d. ok_or err (rd d)) (enc x) x"
  by (simp add: reads_def rd_enc rd_short length_enc)

lemma reads_fields: "reads (\<lambda>d. ok_or err (take_n rd (length xs) d)) (concat (map enc xs)) xs"
  by (simp add: reads_def take_n_enc length_concat_enc mult.commute take_n_short)

end

lemma reads_count: "n < 2 ^ 31 \<Longrightarrow> reads (\<lambda>d. ok_or err (take_count d)) (le4 (word_of_nat n)) n"
proof -
  assume n: "n < 2 ^ 31"
  have "sint (word_of_nat n :: u32) = int n" using n by (simp add: signed_of_nat signed_take_bit_int_eq_self)
  then show ?thesis
    by (auto simp: reads_def take_count_def u32_field.rd_enc u32_field.rd_short u32_field.length_enc)
qed

lemma reads_subxacts:
  assumes "length subs < 2 ^ 31"
  shows "reads (rd_subxacts xinfo)
    (if xinfo AND XACT_XINFO_HAS_SUBXACTS \<noteq> 0 then le4 (word_of_nat (length subs)) @ concat (map le4 subs) else [])
    (if xinfo AND XACT_XINFO_HAS_SUBXACTS \<noteq> 0 then subs else [])"
proof -
  have "reads (\<lambda>d. rbind (ok_or (Malformed ''subxact count'') (take_count d)) (\<lambda>(n, d). ok_or (Malformed ''subxact'') (take_n take_u32 n d)))
      (le4 (word_of_nat (length subs)) @ concat (map le4 subs)) subs"
    by (rule reads_bind, rule reads_count [OF assms], rule u32_field.reads_fields)
  then show ?thesis by (simp add: rd_subxacts_def [abs_def] reads_return)
qed

lemma reads_dbinfo:
  "reads (rd_dbinfo xinfo) (if xinfo AND XACT_XINFO_HAS_DBINFO \<noteq> 0 then le4 db @ le4 ts else [])
    (if xinfo AND XACT_XINFO_HAS_DBINFO \<noteq> 0 then Some db else None)"
proof -
  have "reads (\<lambda>d. rbind (ok_or (Malformed ''dbinfo'') (take_u32 d)) (\<lambda>(db_id, d).
      rbind (ok_or (Malformed ''dbinfo'') (take_u32 d)) (\<lambda>(ts_id, d). Inr (Some db_id, d)))) (le4 db @ le4 ts) (Some db)"
    by (rule reads_bind, rule u32_field.reads_field, rule reads_map, rule u32_field.reads_field)
  then show ?thesis by (simp add: rd_dbinfo_def [abs_def] reads_return)
qed

lemma reads_xinfo:
  "reads (rd_xinfo info) (if info AND XLOG_XACT_HAS_INFO \<noteq> 0 then le4 xinfo else []) (if info AND XLOG_XACT_HAS_INFO \<noteq> 0 then xinfo else 0)"
  using u32_field.reads_field [of "Malformed ''xinfo''" xinfo] by (simp add: rd_xinfo_def [abs_def] reads_return)

lemma reads_skip:
  assumes "length items < 2 ^ 31" "list_all (\<lambda>i. length i = width) items" "width \<le> 16"
  shows "reads (rd_skip what xinfo flag width)
    (if xinfo AND flag \<noteq> 0 then le4 (word_of_nat (length items)) @ concat items else []) ()"
proof (cases "xinfo AND flag = 0")
  case True
  then show ?thesis by (simp add: rd_skip_def [abs_def] skip_counted_def [abs_def] reads_return)
next
  case False
  have len: "length (concat items) = length items * width" using assms(2) by (induction items) simp_all
  have "length items * width \<le> 2 ^ 31 * 16" using assms(1, 3) by (intro mult_le_mono) simp_all
  then have "length items * width < 2 ^ 64" by simp
  then have tail: "reads (\<lambda>d. map_sum id (Pair ()) (ok_or (Malformed what) (if length items * width < 2 ^ 64 then skip_bytes (length items * width) d else None)))
      (concat items) ()"
    by (simp add: reads_def skip_bytes_def split_at_checked_def len)
  have "rd_skip what xinfo flag width = (\<lambda>d. rbind (ok_or (Malformed what) (take_count d)) (\<lambda>(c, d).
      map_sum id (Pair ()) (ok_or (Malformed what) (if c * width < 2 ^ 64 then skip_bytes (c * width) d else None))))"
  proof (rule ext)
    fix d
    show "rd_skip what xinfo flag width d = rbind (ok_or (Malformed what) (take_count d)) (\<lambda>(c, d).
      map_sum id (Pair ()) (ok_or (Malformed what) (if c * width < 2 ^ 64 then skip_bytes (c * width) d else None)))"
      using False by (cases "take_count d") (auto simp: rd_skip_def skip_counted_def)
  qed
  moreover have "reads (\<lambda>d. rbind (ok_or (Malformed what) (take_count d)) (\<lambda>(c, d).
      map_sum id (Pair ()) (ok_or (Malformed what) (if c * width < 2 ^ 64 then skip_bytes (c * width) d else None))))
      (le4 (word_of_nat (length items)) @ concat items) ()"
    by (rule reads_bind, rule reads_count [OF assms(1)], rule tail)
  ultimately show ?thesis using False by simp
qed

definition inval_id :: "bytes \<Rightarrow> int" where
  "inval_id msg = sint (msg ! 0)"

definition inval_known :: "bytes \<Rightarrow> bool" where
  "inval_known msg \<longleftrightarrow> length msg = 16 \<and> - 6 \<le> inval_id msg"

text \<open>What a list of messages says: the relations whose cache entry is dropped, in order, and the
  databases whose namespace is touched.\<close>

definition inval_relations :: "bytes list \<Rightarrow> relcache_inval list" where
  "inval_relations msgs =
     map (\<lambda>m. \<lparr>ri_db_id = u32_from (slice 4 8 m), ri_rel_id = u32_from (slice 8 12 m)\<rparr>) (filter (\<lambda>m. inval_id m = - 2) msgs)"

definition inval_namespaces :: "u16 \<Rightarrow> bytes list \<Rightarrow> u32 list" where
  "inval_namespaces page_magic msgs =
     map (\<lambda>m. u32_from (slice 4 8 m))
       (filter (\<lambda>m. inval_id m = - 1 \<and> u32_from (slice 8 12 m) = PG_NAMESPACE_OID \<or> inval_id m \<in> set (namespace_catcache_ids page_magic)) msgs)"

definition invals_from :: "u16 \<Rightarrow> inval_set \<Rightarrow> bytes list \<Rightarrow> inval_set" where
  "invals_from page_magic out msgs =
     \<lparr>is_relcache = is_relcache out @ inval_relations msgs,
      is_namespace = fold (\<lambda>db ns. ns_mark ns db) (inval_namespaces page_magic msgs) (is_namespace out)\<rparr>"

lemma classify_known:
  assumes "inval_known m"
  shows "classify_inval page_magic m out = Inr (invals_from page_magic out [m])"
proof -
  have ids: "x \<in> set (namespace_catcache_ids page_magic) \<Longrightarrow> 0 \<le> x" for x by (auto simp: namespace_catcache_ids_def split: if_splits)
  have "- 6 \<le> inval_id m" using assms by (simp add: inval_known_def)
  then show ?thesis using ids [of "inval_id m"]
    by (auto simp: classify_inval_def Let_def invals_from_def inval_relations_def inval_namespaces_def inval_id_def)
qed

lemma invals_from_Cons: "invals_from page_magic (invals_from page_magic out [m]) ms = invals_from page_magic out (m # ms)"
  by (auto simp: invals_from_def inval_relations_def inval_namespaces_def)

lemma reads_msgs:
  "list_all inval_known msgs \<Longrightarrow>
   reads (\<lambda>d. take_inval_msgs page_magic (length msgs) d out) (concat msgs) (invals_from page_magic out msgs)"
proof (induction msgs arbitrary: out)
  case Nil
  have "invals_from page_magic out [] = out" by (simp add: invals_from_def inval_relations_def inval_namespaces_def)
  then show ?case by (simp add: reads_return)
next
  case (Cons m msgs)
  have m: "inval_known m" "length m = 16" using Cons.prems by (simp_all add: inval_known_def)
  have one: "reads (\<lambda>d. ok_or (Malformed ''inval msg'') (split_at_checked 16 d)) m m"
    using m(2) by (simp add: reads_def split_at_checked_def)
  have rest: "reads (\<lambda>d. rbind (classify_inval page_magic m out) (\<lambda>out. take_inval_msgs page_magic (length msgs) d out)) (concat msgs)
      (invals_from page_magic out (m # msgs))"
    using Cons.IH [of "invals_from page_magic out [m]"] Cons.prems by (simp add: classify_known [OF m(1)] invals_from_Cons)
  have "reads (\<lambda>d. rbind (ok_or (Malformed ''inval msg'') (split_at_checked 16 d)) (\<lambda>(m, d).
      rbind (classify_inval page_magic m out) (\<lambda>out. take_inval_msgs page_magic (length msgs) d out))) (m @ concat msgs)
      (invals_from page_magic out (m # msgs))"
    by (rule reads_bind, rule one, rule rest)
  then show ?case by simp
qed

lemma reads_invals:
  assumes "list_all inval_known msgs" "length msgs < 2 ^ 31"
  shows "reads (rd_invals page_magic xinfo)
    (if xinfo AND XACT_XINFO_HAS_INVALS \<noteq> 0 then le4 (word_of_nat (length msgs)) @ concat msgs else [])
    (if xinfo AND XACT_XINFO_HAS_INVALS \<noteq> 0 then invals_from page_magic inval_set_default msgs else inval_set_default)"
proof -
  have "reads (\<lambda>d. rbind (ok_or (Malformed ''inval count'') (take_count d)) (\<lambda>(n, d). take_inval_msgs page_magic n d inval_set_default))
      (le4 (word_of_nat (length msgs)) @ concat msgs) (invals_from page_magic inval_set_default msgs)"
    by (rule reads_bind, rule reads_count [OF assms(2)], rule reads_msgs [OF assms(1)])
  then show ?thesis by (simp add: rd_invals_def [abs_def] take_invals_def [abs_def] reads_return)
qed

lemma reads_twophase:
  assumes "0 \<notin> set gid"
  shows "reads (rd_twophase xinfo)
    (if xinfo AND XACT_XINFO_HAS_TWOPHASE \<noteq> 0 then le4 xid @ (if xinfo AND XACT_XINFO_HAS_GID \<noteq> 0 then gid @ [0] else []) else [])
    (if xinfo AND XACT_XINFO_HAS_TWOPHASE \<noteq> 0 then Some xid else None)"
proof -
  have dw: "dropWhile (\<lambda>b. b \<noteq> 0) (gid @ 0 # rest) = 0 # rest" for rest using assms by (induction gid) auto
  have short: "dropWhile (\<lambda>b. b \<noteq> 0) (take k gid) = []" for k
    using assms in_set_takeD [of 0 k gid] by (auto simp: dropWhile_eq_Nil_conv)
  let ?g = "\<lambda>xid d. case dropWhile (\<lambda>b. b \<noteq> 0) d of [] \<Rightarrow> Inl (Malformed ''gid terminator'') | _ # rest \<Rightarrow> Inr (Some xid, rest)"
  have gid: "reads (?g xid) (gid @ [0]) (Some xid)"
    using dw by (simp add: reads_def short del: dropWhile_eq_Nil_conv)
  have "reads (\<lambda>d. rbind (ok_or (Malformed ''twophase xid'') (take_u32 d)) (\<lambda>(xid, d). ?g xid d)) (le4 xid @ (gid @ [0])) (Some xid)"
    by (rule reads_bind, rule u32_field.reads_field, rule gid)
  moreover have "reads (\<lambda>d. rbind (ok_or (Malformed ''twophase xid'') (take_u32 d)) (\<lambda>(xid, d). Inr (Some xid, d))) (le4 xid) (Some xid)"
    by (rule reads_map, rule u32_field.reads_field)
  ultimately show ?thesis by (simp add: rd_twophase_def [abs_def] reads_return)
qed

section \<open>Commit and abort records\<close>

text \<open>The contents of a commit or abort record, section by section.  A section is on the wire when
  its bit of the flag word is set; the flag word itself when the info byte says so.\<close>

record xact_wire =
  xw_time :: u64
  xw_xinfo :: u32
  xw_db :: u32
  xw_ts :: u32
  xw_subs :: "u32 list"
  xw_rels :: "bytes list"
  xw_stats :: "bytes list"
  xw_msgs :: "bytes list"
  xw_xid :: u32
  xw_gid :: bytes
  xw_origin :: bytes

definition wire_ok :: "u16 \<Rightarrow> xact_wire \<Rightarrow> bool" where
  "wire_ok page_magic w \<longleftrightarrow>
     length (xw_subs w) < 2 ^ 31 \<and> length (xw_rels w) < 2 ^ 31 \<and> length (xw_stats w) < 2 ^ 31 \<and> length (xw_msgs w) < 2 ^ 31 \<and>
     list_all (\<lambda>i. length i = 12) (xw_rels w) \<and> list_all (\<lambda>i. length i = stats_item_width page_magic) (xw_stats w) \<and>
     list_all inval_known (xw_msgs w) \<and> 0 \<notin> set (xw_gid w) \<and> length (xw_origin w) = 16"

definition wire_xinfo :: "u8 \<Rightarrow> xact_wire \<Rightarrow> u32" where
  "wire_xinfo info w = (if info AND XLOG_XACT_HAS_INFO \<noteq> 0 then xw_xinfo w else 0)"

definition enc_counted :: "bytes list \<Rightarrow> bytes" where
  "enc_counted items = le4 (word_of_nat (length items)) @ concat items"

definition enc_xact :: "u8 \<Rightarrow> xact_wire \<Rightarrow> bytes" where
  "enc_xact info w =
     (let x = wire_xinfo info w in
      le8 (xw_time w) @
      (if info AND XLOG_XACT_HAS_INFO \<noteq> 0 then le4 (xw_xinfo w) else []) @
      (if x AND XACT_XINFO_HAS_DBINFO \<noteq> 0 then le4 (xw_db w) @ le4 (xw_ts w) else []) @
      (if x AND XACT_XINFO_HAS_SUBXACTS \<noteq> 0 then enc_counted (map le4 (xw_subs w)) else []) @
      (if x AND XACT_XINFO_HAS_RELFILELOCATORS \<noteq> 0 then enc_counted (xw_rels w) else []) @
      (if x AND XACT_XINFO_HAS_DROPPED_STATS \<noteq> 0 then enc_counted (xw_stats w) else []) @
      (if x AND XACT_XINFO_HAS_INVALS \<noteq> 0 then enc_counted (xw_msgs w) else []) @
      (if x AND XACT_XINFO_HAS_TWOPHASE \<noteq> 0
       then le4 (xw_xid w) @ (if x AND XACT_XINFO_HAS_GID \<noteq> 0 then xw_gid w @ [0] else []) else []) @
      (if x AND XACT_XINFO_HAS_ORIGIN \<noteq> 0 then xw_origin w else []))"

definition wire_payload :: "u8 \<Rightarrow> u16 \<Rightarrow> xact_wire \<Rightarrow> xact_commit_payload" where
  "wire_payload info page_magic w =
     (let x = wire_xinfo info w in
      \<lparr>xp_xact_time = xw_time w,
       xp_subxacts = (if x AND XACT_XINFO_HAS_SUBXACTS \<noteq> 0 then xw_subs w else []),
       xp_twophase_xid = (if x AND XACT_XINFO_HAS_TWOPHASE \<noteq> 0 then Some (xw_xid w) else None),
       xp_invals = (if x AND XACT_XINFO_HAS_INVALS \<noteq> 0 then invals_from page_magic inval_set_default (xw_msgs w) else inval_set_default),
       xp_db_id = (if x AND XACT_XINFO_HAS_DBINFO \<noteq> 0 then Some (xw_db w) else None)\<rparr>)"

text \<open>The parser with its last check read as a section, so that it composes.\<close>

definition rd_origin :: "u32 \<Rightarrow> bytes \<Rightarrow> (xact_payload_error, unit \<times> bytes) result" where
  "rd_origin xinfo data =
     (if xinfo AND XACT_XINFO_HAS_ORIGIN \<noteq> 0 then map_sum id (Pair ()) (ok_or (Malformed ''origin'') (skip_bytes 16 data))
      else Inr ((), data))"

definition rd_payload :: "u8 \<Rightarrow> u16 \<Rightarrow> bytes \<Rightarrow> (xact_payload_error, xact_commit_payload \<times> bytes) result" where
  "rd_payload info page_magic data =
     rbind (ok_or (Malformed ''xact_time'') (take_i64 data)) (\<lambda>(xact_time, data).
     rbind (rd_xinfo info data) (\<lambda>(xinfo, data).
     rbind (rd_dbinfo xinfo data) (\<lambda>(db_id, data).
     rbind (rd_subxacts xinfo data) (\<lambda>(subxacts, data).
     rbind (rd_skip ''relfilelocators'' xinfo XACT_XINFO_HAS_RELFILELOCATORS 12 data) (\<lambda>(_, data).
     rbind (rd_skip ''dropped stats'' xinfo XACT_XINFO_HAS_DROPPED_STATS (stats_item_width page_magic) data) (\<lambda>(_, data).
     rbind (rd_invals page_magic xinfo data) (\<lambda>(invals, data).
     rbind (rd_twophase xinfo data) (\<lambda>(twophase_xid, data).
     rbind (rd_origin xinfo data) (\<lambda>(_, data).
       Inr (\<lparr>xp_xact_time = xact_time, xp_subxacts = subxacts, xp_twophase_xid = twophase_xid,
              xp_invals = invals, xp_db_id = db_id\<rparr>, data))))))))))"

lemma map_sum_rbind: "map_sum id fst (rbind r f) = rbind r (\<lambda>x. map_sum id fst (f x))"
  by (cases r) simp_all

lemma origin_check:
  "rbind (rd_origin xinfo d) (\<lambda>y. Inr p) =
     (if xinfo AND XACT_XINFO_HAS_ORIGIN \<noteq> 0 \<and> length d < 16 then Inl (Malformed ''origin'') else Inr p)"
  by (simp add: rd_origin_def skip_bytes_def split_at_checked_def)

lemma parse_xact_payload_reader: "parse_xact_payload info data page_magic = map_sum id fst (rd_payload info page_magic data)"
  unfolding parse_xact_payload_def rd_payload_def map_sum_rbind
  by (simp add: case_prod_beta' map_sum_rbind origin_check)

lemma reads_origin:
  "length origin = 16 \<Longrightarrow> reads (rd_origin xinfo) (if xinfo AND XACT_XINFO_HAS_ORIGIN \<noteq> 0 then origin else []) ()"
  by (simp add: reads_def rd_origin_def skip_bytes_def split_at_checked_def)

lemma reads_payload:
  assumes "wire_ok page_magic w"
  shows "reads (rd_payload info page_magic) (enc_xact info w) (wire_payload info page_magic w)"
proof -
  have subs: "length (xw_subs w) < 2 ^ 31" and rels: "length (xw_rels w) < 2 ^ 31" "list_all (\<lambda>i. length i = 12) (xw_rels w)"
    and stats: "length (xw_stats w) < 2 ^ 31" "list_all (\<lambda>i. length i = stats_item_width page_magic) (xw_stats w)"
    and msgs: "list_all inval_known (xw_msgs w)" "length (xw_msgs w) < 2 ^ 31"
    and gid: "0 \<notin> set (xw_gid w)" and origin: "length (xw_origin w) = 16"
    using assms unfolding wire_ok_def by blast+
  have widths: "12 \<le> (16 :: nat)" "stats_item_width page_magic \<le> 16" by (simp_all add: stats_item_width_def)
  have xinfo: "reads (rd_xinfo info) (if info AND XLOG_XACT_HAS_INFO \<noteq> 0 then le4 (xw_xinfo w) else []) (wire_xinfo info w)"
    unfolding wire_xinfo_def by (rule reads_xinfo)
  show ?thesis
    unfolding rd_payload_def [abs_def] enc_xact_def wire_payload_def Let_def enc_counted_def length_map
    by (rule reads_bind, rule i64_field.reads_field, rule reads_bind, rule xinfo, rule reads_bind, rule reads_dbinfo,
        rule reads_bind, rule reads_subxacts [OF subs], rule reads_bind, rule reads_skip [OF rels widths(1)],
        rule reads_bind, rule reads_skip [OF stats widths(2)], rule reads_bind, rule reads_invals [OF msgs],
        rule reads_bind, rule reads_twophase [OF gid], rule reads_map, rule reads_origin [OF origin])
qed

lemma ns_mark_hits:
  assumes "local_db 0" "ns_hits ns local_db \<or> local_db db"
  shows "ns_hits (ns_mark ns db) local_db"
  using assms by (cases ns) (auto split: if_splits)

lemma ns_fold_hits:
  "local_db 0 \<Longrightarrow> ns_hits ns local_db \<or> (\<exists>db \<in> set dbs. local_db db) \<Longrightarrow> ns_hits (fold (\<lambda>db ns. ns_mark ns db) dbs ns) local_db"
  by (induction dbs arbitrary: ns) (auto intro: ns_mark_hits)

text \<open>While only one database other than the shared one has been marked, nothing is lost.\<close>

fun ns_within :: "u32 \<Rightarrow> namespace_inval \<Rightarrow> bool" where
  "ns_within db (NsUnshared d) = (d = db)"
| "ns_within db (NsBoth d) = (d = db)"
| "ns_within db _ = True"

lemma ns_fold_exact:
  "set dbs \<subseteq> {0, db} \<Longrightarrow> ns_within db ns \<Longrightarrow>
   ns_hits (fold (\<lambda>db ns. ns_mark ns db) dbs ns) local_db \<longleftrightarrow> ns_hits ns local_db \<or> (\<exists>d \<in> set dbs. local_db d)"
proof (induction dbs arbitrary: ns)
  case (Cons d dbs)
  have "ns_within db (ns_mark ns d)" "ns_hits (ns_mark ns d) local_db \<longleftrightarrow> ns_hits ns local_db \<or> local_db d"
    using Cons.prems by (cases ns; auto)+
  then show ?case using Cons.IH [of "ns_mark ns d"] Cons.prems(1) by auto
qed simp

section \<open>Properties\<close>

text \<open>C37: A commit or abort record that carries, after its time, the sections its flag word announces
  (database, subtransactions, dropped relations and statistics, invalidation messages, prepared
  transaction, replication origin) is parsed to exactly those contents: the subtransactions and
  invalidated relations in order, the prepared transaction and the database when present, whatever
  bytes follow.\<close>

theorem xact_payload_roundtrip:
  assumes "wire_ok page_magic w"
  shows "parse_xact_payload info (enc_xact info w @ rest) page_magic = Inr (wire_payload info page_magic w)"
  using reads_payload [OF assms, of info] by (simp add: parse_xact_payload_reader reads_def)

text \<open>C38: A commit or abort record cut short anywhere is refused as malformed: no proper prefix of
  an encoded record parses.\<close>

theorem xact_payload_truncated:
  assumes "wire_ok page_magic w" "k < length (enc_xact info w)"
  shows "\<exists>err. parse_xact_payload info (take k (enc_xact info w)) page_magic = Inl err"
  using reads_payload [OF assms(1), of info] assms(2) by (fastforce simp: parse_xact_payload_reader reads_def)

text \<open>C39: The invalidation messages of a record are all kept: every relation message appears in
  order, and a namespace message for a database that counts as local is never lost when the marks
  are folded into one value, given that the shared catalogs count as local; when at most one
  database other than the shared one is named, the folded value hits exactly the named ones.\<close>

theorem xact_invals_kept:
  assumes "list_all inval_known msgs" "length msgs < 2 ^ 31"
  shows "\<exists>out. parse_xact_invalidations (enc_counted msgs @ rest) page_magic = Inr out \<and>
    is_relcache out = inval_relations msgs \<and>
    (\<forall>local_db db. local_db 0 \<longrightarrow> db \<in> set (inval_namespaces page_magic msgs) \<longrightarrow> local_db db \<longrightarrow> ns_hits (is_namespace out) local_db) \<and>
    (\<forall>local_db db. set (inval_namespaces page_magic msgs) \<subseteq> {0, db} \<longrightarrow>
       ns_hits (is_namespace out) local_db = (\<exists>d \<in> set (inval_namespaces page_magic msgs). local_db d))"
proof -
  let ?out = "invals_from page_magic inval_set_default msgs"
  have "reads (\<lambda>d. take_invals page_magic inval_set_default d) (enc_counted msgs) ?out"
    unfolding take_invals_def enc_counted_def by (rule reads_bind, rule reads_count [OF assms(2)], rule reads_msgs [OF assms(1)])
  then have "parse_xact_invalidations (enc_counted msgs @ rest) page_magic = Inr ?out"
    by (simp add: parse_xact_invalidations_def reads_def)
  moreover have "is_relcache ?out = inval_relations msgs" by (simp add: invals_from_def inval_set_default_def)
  moreover have ns: "is_namespace ?out = fold (\<lambda>db ns. ns_mark ns db) (inval_namespaces page_magic msgs) NsEmpty"
    by (simp add: invals_from_def inval_set_default_def)
  ultimately show ?thesis
    using ns_fold_hits [of _ NsEmpty "inval_namespaces page_magic msgs"] ns_fold_exact [of "inval_namespaces page_magic msgs" _ NsEmpty]
    by (intro exI [of _ ?out]) (auto simp: ns)
qed

definition sample_msg :: "int \<Rightarrow> u32 \<Rightarrow> u32 \<Rightarrow> bytes" where
  "sample_msg tag db arg = [word_of_int tag, 0, 0, 0] @ le4 db @ le4 arg @ [0, 0, 0, 0]"

definition sample_wire :: xact_wire where
  "sample_wire = \<lparr>xw_time = 77, xw_xinfo = 0x1BF, xw_db = 5, xw_ts = 1663, xw_subs = [701, 702],
     xw_rels = [replicate 12 1], xw_stats = [replicate 16 2], xw_msgs = [sample_msg (- 2) 5 16384, sample_msg 37 5 9],
     xw_xid = 700, xw_gid = [103, 49], xw_origin = replicate 16 3\<rparr>"

lemma sample_msgs_known: "list_all inval_known [sample_msg (- 2) 5 16384, sample_msg 37 5 9]"
  by (simp add: inval_known_def sample_msg_def inval_id_def u32_field.length_enc)

lemma sample_wire_ok: "wire_ok 0xD118 sample_wire"
  using sample_msgs_known by (simp add: wire_ok_def sample_wire_def stats_item_width_def)

theorem xact_payload_roundtrip_witness:
  "parse_xact_payload 0x80 (enc_xact 0x80 sample_wire @ [9, 9]) 0xD118 = Inr (wire_payload 0x80 0xD118 sample_wire) \<and>
   xp_subxacts (wire_payload 0x80 0xD118 sample_wire) = [701, 702] \<and> xp_twophase_xid (wire_payload 0x80 0xD118 sample_wire) = Some 700"
proof -
  have "xp_subxacts (wire_payload 0x80 0xD118 sample_wire) = [701, 702]" "xp_twophase_xid (wire_payload 0x80 0xD118 sample_wire) = Some 700"
    by (simp_all add: wire_payload_def wire_xinfo_def sample_wire_def Let_def XLOG_XACT_HAS_INFO_def
        XACT_XINFO_HAS_SUBXACTS_def XACT_XINFO_HAS_TWOPHASE_def)
  then show ?thesis using xact_payload_roundtrip [OF sample_wire_ok, of "0x80" "[9, 9]"] by blast
qed

theorem xact_payload_truncated_witness:
  "\<exists>err. parse_xact_payload 0x80 (take 100 (enc_xact 0x80 sample_wire)) 0xD118 = Inl err"
proof -
  have "100 < length (enc_xact 0x80 sample_wire)"
    by (simp add: enc_xact_def enc_counted_def wire_xinfo_def sample_wire_def Let_def sample_msg_def u32_field.length_enc i64_field.length_enc
        XLOG_XACT_HAS_INFO_def XACT_XINFO_HAS_SUBXACTS_def XACT_XINFO_HAS_TWOPHASE_def XACT_XINFO_HAS_DBINFO_def
        XACT_XINFO_HAS_RELFILELOCATORS_def XACT_XINFO_HAS_DROPPED_STATS_def XACT_XINFO_HAS_INVALS_def XACT_XINFO_HAS_ORIGIN_def XACT_XINFO_HAS_GID_def)
  then show ?thesis by (rule xact_payload_truncated [OF sample_wire_ok])
qed

theorem xact_invals_kept_witness:
  "\<exists>out. parse_xact_invalidations (enc_counted [sample_msg (- 2) 5 16384, sample_msg 37 5 9] @ []) 0xD118 = Inr out \<and>
    ns_hits (is_namespace out) (\<lambda>db. db = 0 \<or> db = 5)"
proof -
  let ?msgs = "[sample_msg (- 2) 5 16384, sample_msg 37 5 9]"
  have known: "list_all inval_known ?msgs" by (rule sample_msgs_known)
  have len: "length ?msgs < 2 ^ 31" by simp
  have mem: "5 \<in> set (inval_namespaces 0xD118 ?msgs)"
    using word_le_roundtrip [of 4 "5 :: u32"]
    by (simp add: inval_namespaces_def inval_id_def sample_msg_def namespace_catcache_ids_def slice_def u32_from_def le4_def)
  obtain out where out: "parse_xact_invalidations (enc_counted ?msgs @ []) 0xD118 = Inr out"
    and hits: "\<forall>local_db db. local_db 0 \<longrightarrow> db \<in> set (inval_namespaces 0xD118 ?msgs) \<longrightarrow> local_db db \<longrightarrow> ns_hits (is_namespace out) local_db"
    using xact_invals_kept [OF known len, of "[]" "0xD118"] by blast
  have "ns_hits (is_namespace out) (\<lambda>db. db = 0 \<or> db = 5)" by (rule hits [rule_format, OF _ mem]) simp_all
  then show ?thesis using out by blast
qed

end
