(* ===== verification/Spec2Isabelle.thy ===== *)
theory Spec2Isabelle
  imports Pipeline Resume Retention Retire_Ledger Xid_Ceiling Stream_Props Dirty_Tree Budget Xact_Record
begin

text \<open>
  A verification of walshadow, which replicates PostgreSQL rows into ClickHouse from physical WAL.
  WAL arrives from the source in chunks; a filter walks its records, turns those that must not be
  replayed into no-operations and forwards the stream to a shadow PostgreSQL that answers catalog
  questions, archiving whole segments on the way; transactions are decoded into rows, placed into
  numbered slices and inserted in parallel; an acknowledgement collector turns finished slices into
  the position that is safe to resume from; a manifest on disk keeps that position, and pruning and
  the replication slot follow it.

  \<^bold>\<open>Shared vocabulary.\<close> \<open>WS_Prelude\<close> holds machine integers, byte strings, checked
  slices, fallible results, hash maps and histories; \<open>Positions\<close> the typed positions and
  forward-only cells of \<open>src/src/pos.rs\<close>; \<open>Text\<close> the string functions of the standard library.

  \<^bold>\<open>Reading WAL.\<close> \<open>WAL_Page\<close> models \<open>parse_page_header\<close> (\<open>src/src/source/wal_page.rs\<close>),
  \<open>WAL_Walker\<close> the \<open>StreamingWalker\<close> (\<open>src/src/source/streaming_walker.rs\<close>). \<open>Walker_Layout\<close> has
  the invariant \<open>walker_ok\<close> every operation keeps, \<open>Walker_Props\<close> its properties: a yielded record is
  laid out without gaps over data bytes, after the records before it; a call returns; rewriting
  changes the bytes of the record and nothing else; dropping a finished segment keeps a record that
  straddles it. \<open>Noop_Rewrite\<close> models \<open>noop_replace\<close> (\<open>src/src/filter/rewrite.rs\<close>) and shows that
  its CRC cache changes nothing; \<open>Resume_Prefix\<close> the continuation kept over a restart
  (\<open>src/src/source/resume_prefix.rs\<close>). \<open>Xact_Record\<close> models the transaction record parsers
  (\<open>src/src/decode/wal_xact.rs\<close>) and shows that they read back exactly what a record carries and
  refuse every truncation; \<open>Dirty_Tree\<close> the catalog-dirty transactions
  (\<open>src/src/filter/dirty_tree.rs\<close>) with the exactness of the admission test and of draining.

  \<^bold>\<open>The filter pipeline.\<close> \<open>WAL_Stream\<close> models \<open>WalStream\<close> (\<open>src/src/source/wal_stream.rs\<close>):
  its record is the stream with the log of its sink calls, \<open>push\<close> takes a chunk. \<open>Stream_Wire\<close>
  keeps the invariant \<open>stream_ok\<close>; \<open>Stream_Props\<close> shows over whole runs that the wire is contiguous,
  records follow their first byte, the archive is a prefix of the wire, every push returns, a
  failure poisons the stream and the fork digest covers the raw bytes for any chunking.

  \<^bold>\<open>Delivery.\<close> \<open>Ack\<close> models the acknowledgement collector
  (\<open>src/src/emit/pipeline/ack.rs\<close>), \<open>Ack_Spec\<close> the reference computed from the complete history of
  events that the collector refines. \<open>Outbox\<close> models row placement and the outbox of the reorder
  stage (\<open>src/src/emit/pipeline/decode.rs\<close>, \<open>src/src/emit/pipeline/reorder.rs\<close>) and shows that it keeps
  the protocol. \<open>Pipeline\<close> composes the two through the locale \<open>producer\<close>; the properties at the
  end of this theory are about the composition. \<open>Budget\<close> models the memory budget
  (\<open>src/src/budget.rs\<close>) with requests that wait and are woken in any order.

  \<^bold>\<open>Resuming.\<close> \<open>Timeline\<close> models timeline histories (\<open>src/src/source/timeline.rs\<close>), \<open>Atomic_File\<close>
  crash-safe replacement (\<open>src/src/fs.rs\<close>), \<open>Manifest\<close> the resume manifest
  (\<open>src/src/source/manifest.rs\<close>), \<open>Resume\<close> the part of the session loop that writes it, publishes the
  floor and reports the standby status (\<open>src/src/bin/stream/session.rs\<close>,
  \<open>src/src/source/source_feed.rs\<close>): after a crash at any step the manifest read back is at or above
  everything published. \<open>Retention\<close>, \<open>Retire_Ledger\<close> and \<open>Xid_Ceiling\<close> model what follows the floor
  (\<open>src/src/ops/retention.rs\<close>, \<open>src/src/toast/toast_retire.rs\<close>, \<open>src/src/toast/xid_ceiling.rs\<close>).

  \<^bold>\<open>Conventions.\<close> A \<open>struct\<close> is a record, an \<open>enum\<close> a datatype, a \<open>Result\<close> a sum with the error on the
  left. Positions and on-disk fields are words; buffer offsets and counters, which stay far below
  their width, are naturals. Code of other crates (CRC, the record parser, TOML, the sinks) is a
  function argument. A loop that is not structural takes fuel, the number of buffered bytes plus
  one; the termination properties show that this is always enough, so running out of it is not an
  outcome of the program. A semaphore is a counter with a list of waiting requests. The order in
  which concurrent parts meet is an explicit schedule or the relation \<open>delivered\<close>. A crash reads any
  state the file system may have kept.

  \<^bold>\<open>Not modelled.\<close> The decoding of heap tuples and column codecs, the transaction buffer with
  its spill files, the TOAST resolver and the descriptor log depend on PostgreSQL's page and type
  formats through other crates and are only used here through rows and records. The record filter
  \<open>src/src/filter/engine.rs\<close> enters \<open>WAL_Stream\<close> as an argument. DDL generation, the ClickHouse and
  Snowflake destinations, backfill from base backups, configuration, control, metrics and the
  orchestration of tasks, processes and connections are input and output around the modelled parts.
\<close>

section \<open>Properties of the delivery path\<close>

text \<open>C1: The outbox and the acknowledgement collector composed. Whatever the outbox has done and
  in whatever order its events and the insert acknowledgements meet on the channel, the collector
  sees no protocol fault, and while a row sent to the batcher for a commit is not acknowledged, the
  published position is the one it started from or strictly below that commit: a restart from the
  published position replays it.\<close>

theorem pipeline_position_covered:
  assumes "outbox_run ops outbox_new = (ob, ok)"
    and "delivered (ob_chunks ob) (alloc_sent (ob_seqs ob)) j evs"
    and "along commit_order (history (alloc_sent (ob_seqs ob)))"
  shows "let st = ack_run evs (ack_new cell fatal); e = monotone_get (ack_emitter st) in
    ack_wedged st = 0 \<and>
    (\<forall>s l p. hist_reg (history evs) s = Some (l, p) \<longrightarrow> hist_acked (history evs) s < rows_total (ob_chunks ob) s \<longrightarrow>
       e = monotone_get cell \<or> pos_get e < l)"
proof -
  have ob: "fst (outbox_run ops outbox_new) = ob" using assms(1) by simp
  have "ack_wedged (ack_run evs (ack_new cell fatal)) = 0"
    using shipped.collector_settled [of ops, unfolded ob, OF assms(2)] by (simp add: settled_def agrees_def)
  then show ?thesis
    using shipped.position_covered [of ops, unfolded ob, OF assms(2,3)] unfolding Let_def by blast
qed

theorem pipeline_position_covered_witness:
  "ack_wedged (ack_run [Batch [Register 0 10 False, Register 1 11 True, Register 2 12 True], Acked [(0, 1), (2, 1)]]
     (ack_new (monotone_new (Pos 5)) None)) = 0 \<and>
   (let e = monotone_get (ack_emitter (ack_run
      [Batch [Register 0 10 False, Register 1 11 True, Register 2 12 True], Acked [(0, 1), (2, 1)]]
      (ack_new (monotone_new (Pos 5)) None))) in e = Pos 5 \<or> pos_get e < 10)"
proof -
  let ?evs = "[Batch [Register 0 10 False, Register 1 11 True, Register 2 12 True], Acked [(0, 1), (2, 1)]]"
  have order: "along commit_order (history (alloc_sent (ob_seqs pipeline_outbox)))"
    unfolding pipeline_demo_sent by code_simp
  have "hist_reg (history ?evs) 0 = Some (10, False)" by code_simp
  moreover have "hist_acked (history ?evs) 0 < rows_total (ob_chunks pipeline_outbox) 0"
    by (simp add: pipeline_demo_chunks history_def rows_total_def seq_rows_def)
  moreover have "monotone_get (monotone_new (Pos 5)) = Pos 5" by code_simp
  ultimately show ?thesis
    using pipeline_position_covered [OF pipeline_demo_run pipeline_demo_started order, of "monotone_new (Pos 5)" None]
    unfolding Let_def by metis
qed

text \<open>C5: Delivery completes. After a run of the outbox that ends with a successful ship, once all
  its events are delivered and every row it sent is acknowledged, in any interleaving, the collector
  reports that nothing is outstanding and the published position covers every commit the run
  registered for publication.\<close>

theorem pipeline_drains:
  assumes "outbox_run (ops @ [Ship True]) outbox_new = (ob, True)" "alloc_sent (ob_seqs ob) \<noteq> []"
    and "delivered (ob_chunks ob) (alloc_sent (ob_seqs ob)) (length (alloc_sent (ob_seqs ob))) evs"
    and "\<forall>s. hist_acked (history evs) s = rows_total (ob_chunks ob) s"
  shows "let st = ack_run evs (ack_new cell fatal); e = monotone_get (ack_emitter st) in
    snapshot_all_done (ack_probe st) \<and>
    (\<forall>s l. hist_reg (history (alloc_sent (ob_seqs ob))) s = Some (l, True) \<longrightarrow> Pos l \<le> e)"
proof -
  have ob: "fst (outbox_run (ops @ [Ship True]) outbox_new) = ob" using assms(1) by simp
  note inv = shipped.delivered_inv [of "ops @ [Ship True]", unfolded ob, OF assms(3)]
  have "evs \<noteq> []" using delivered_length [OF assms(3)] assms(2) by auto
  moreover have "\<forall>s < hist_registered (history evs). seq_done (history evs) s"
    by (rule shipped.delivered_all_done [of "ops @ [Ship True]", unfolded ob, OF assms(3,4) outbox_shipped_all [OF assms(1)]])
  ultimately have "let st = ack_run evs (ack_new cell fatal); e = monotone_get (ack_emitter st) in
     snapshot_all_done (ack_probe st) \<and> hist_registered (history evs) \<le> monotone_get (ack_frontier_cell st) \<and>
     Pos (hist_trailing (history evs)) \<le> e \<and> (\<forall>s l. hist_reg (history evs) s = Some (l, True) \<longrightarrow> Pos l \<le> e)"
    using inv by (intro ack_run_all_done) blast+
  moreover have "hist_reg (history evs) s = hist_reg (history (alloc_sent (ob_seqs ob))) s" for s
    using inv by (simp add: woven_def)
  ultimately show ?thesis by (simp add: Let_def)
qed

theorem pipeline_drains_witness:
  "let e = monotone_get (ack_emitter (ack_run
      [Batch [Register 0 10 False, Register 1 11 True, Register 2 12 True], Acked [(0, 1), (2, 1)],
       Batch [Placed 0 3, Placed 1 0, Placed 2 1], Acked [(0, 2)]] (ack_new (monotone_new (Pos 5)) None)))
   in Pos 12 \<le> e"
proof -
  let ?evs = "[Batch [Register 0 10 False, Register 1 11 True, Register 2 12 True], Acked [(0, 1), (2, 1)],
      Batch [Placed 0 3, Placed 1 0, Placed 2 1], Acked [(0, 2)]]"
  have "alloc_sent (ob_seqs pipeline_outbox) \<noteq> []" by (simp add: pipeline_demo_sent)
  moreover have "\<forall>s. hist_acked (history ?evs) s = rows_total (ob_chunks pipeline_outbox) s"
    by (simp add: pipeline_demo_chunks history_def rows_total_def seq_rows_def)
  moreover have "hist_reg (history (alloc_sent (ob_seqs pipeline_outbox))) 2 = Some (12, True)"
    unfolding pipeline_demo_sent by code_simp
  ultimately show ?thesis
    using pipeline_drains [OF pipeline_demo_run _ pipeline_demo_finished, of "monotone_new (Pos 5)" None]
    unfolding Let_def by blast
qed

end
